(* ===== verification/Prelude.thy ===== *)
theory Prelude
  imports Main "HOL-Library.Word" "HOL-Library.Monad_Syntax"
begin

unbundle bit_operations_syntax

text \<open>
  Shared vocabulary of the development: the machine integers of the C sources, the
  convention for assertions, and the generic lemmas on words and lists that the
  component theories use.

  Conventions.
  \<^item> \<open>__u64\<close>, \<open>obd_off\<close>, \<open>obd_size\<close>, \<open>seqno_t\<close> are \<open>u64\<close>; \<open>__u32\<close> and
    \<open>unsigned\<close> are \<open>u32\<close>; arithmetic on them wraps. A C \<open>int\<close> that is only an index,
    a counter or a return code is an \<open>int\<close>; its conversion to an unsigned type is
    \<open>of_int\<close>, which wraps as C's conversion does.
  \<^item> \<open>LASSERT\<close>, \<open>LASSERTF\<close> and \<open>LBUG\<close> stop the node. A function that can reach one of
    them (or that dereferences a null pointer) returns an \<open>option\<close>, and \<open>None\<close> is that
    outcome; it is never an error code of the source.
  \<^item> Error codes are negative \<open>int\<close>s, as in the source.
\<close>

section \<open>Machine integers\<close>

type_synonym u64 = "64 word"
type_synonym u32 = "32 word"

text \<open>\<open>LASSERT(c)\<close>: continue with \<open>k\<close>, or stop the node.\<close>

definition lassert :: "bool \<Rightarrow> unit option" where
  "lassert c = (if c then Some () else None)"

lemma lassert_simps [simp]: "lassert True = Some ()" "lassert False = None"
  by (simp_all add: lassert_def)

lemma lassert_eq_Some [simp]: "lassert c = Some u \<longleftrightarrow> c"
  by (simp add: lassert_def)

lemma lassert_bind [simp]: "(lassert c \<bind> (\<lambda>_. f)) = (if c then f else None)"
  by (simp add: lassert_def)

text \<open>Error numbers of the C library that the modelled code returns.\<close>

definition ENOENT :: int where "ENOENT = 2"
definition EIO :: int where "EIO = 5"
definition EBADF :: int where "EBADF = 9"
definition EAGAIN :: int where "EAGAIN = 11"
definition EWOULDBLOCK :: int where "EWOULDBLOCK = 11"
definition ENOMEM :: int where "ENOMEM = 12"
definition ENODEV :: int where "ENODEV = 19"
definition EINVAL :: int where "EINVAL = 22"
definition ENOSPC :: int where "ENOSPC = 28"
definition EDEADLK :: int where "EDEADLK = 35"
definition ENOLCK :: int where "ENOLCK = 37"
definition ENODATA :: int where "ENODATA = 61"
definition EUSERS :: int where "EUSERS = 87"

lemmas errno_defs = ENOENT_def EIO_def EBADF_def EAGAIN_def EWOULDBLOCK_def ENOMEM_def ENODEV_def
  EINVAL_def ENOSPC_def EDEADLK_def ENOLCK_def ENODATA_def EUSERS_def

text \<open>\<open>OBD_OBJECT_EOF\<close>: the largest file offset, which stands for ``to the end''.\<close>

abbreviation OBD_OBJECT_EOF :: u64 where "OBD_OBJECT_EOF \<equiv> - 1"

text \<open>A \<open>for\<close> loop over a list whose body may stop the node.\<close>

fun ofold :: "('a \<Rightarrow> 's \<Rightarrow> 's option) \<Rightarrow> 'a list \<Rightarrow> 's \<Rightarrow> 's option" where
  "ofold f [] s = Some s"
| "ofold f (x # xs) s = f x s \<bind> ofold f xs"

lemma ofold_append [simp]: "ofold f (xs @ ys) s = ofold f xs s \<bind> ofold f ys"
  by (induction xs arbitrary: s) (auto intro: Option.bind_cong)

lemma ofold_Some: "(\<And>x s. x \<in> set xs \<Longrightarrow> f x s = Some (g x s)) \<Longrightarrow> ofold f xs s = Some (fold g xs s)"
  by (induction xs arbitrary: s) auto

section \<open>Words\<close>

text \<open>
  \<open>unat_simps\<close> collects the facts that move a word computation to \<open>nat\<close> when it does
  not wrap.
\<close>

named_theorems unat_simps

lemma unat_add_nowrap [unat_simps]:
  "unat (a :: u64) + unat b < 2 ^ 64 \<Longrightarrow> unat (a + b) = unat a + unat b"
  by (simp add: unat_word_ariths)

lemma unat_mult_nowrap [unat_simps]:
  "unat (a :: u64) * unat b < 2 ^ 64 \<Longrightarrow> unat (a * b) = unat a * unat b"
  by (simp add: unat_word_ariths)

lemma unat_minus_nowrap [unat_simps]: "(b :: u64) \<le> a \<Longrightarrow> unat (a - b) = unat a - unat b"
  by (simp add: unat_sub)

lemma unat_ucast_u32 [simp]: "unat (ucast (x :: u32) :: u64) = unat x"
  using unsigned_less [of x, where 'a = nat]
  by (simp add: unsigned_ucast_eq take_bit_nat_eq_self_iff)

lemma ucast_u32_inj [simp]: "(ucast (x :: u32) :: u64) = ucast y \<longleftrightarrow> x = y"
  by (metis unat_ucast_u32 word_unat_eq_iff)

lemma unat_lt_u64 [simp]: "unat (x :: u64) < 18446744073709551616"
  using unsigned_less [of x, where 'a = nat] by simp

lemma unat_lt_u32 [simp]: "unat (x :: u32) < 4294967296"
  using unsigned_less [of x, where 'a = nat] by simp

lemma high_bits_zero: assumes "(x :: 'a::len word) < 2 ^ k" "k \<le> n" "k < LENGTH('a)" shows "\<not> bit x n"
proof -
  have "unat (of_nat (2 ^ k) :: 'a word) = 2 ^ k"
    using assms(3) by (simp add: unsigned_of_nat take_bit_nat_eq_self del: of_nat_power)
  then have "unat (2 ^ k :: 'a word) = 2 ^ k" by simp
  then have "unat x < 2 ^ k" using assms(1) unat_mono by metis
  also have "\<dots> \<le> 2 ^ n" using assms(2) by simp
  finally have "\<not> bit (unat x) n" by (simp add: bit_iff_odd)
  then show ?thesis by (simp add: bit_unsigned_iff)
qed

subsection \<open>Byte order\<close>

text \<open>The kernel's byte swaps and the conversions between the order of the host and a fixed order.
  The order of the host is the first argument: \<open>True\<close> for a big-endian machine.\<close>

definition byte_of :: "'a::len word \<Rightarrow> nat \<Rightarrow> 'a word" where
  "byte_of x i = take_bit 8 (drop_bit (8 * i) x)"

definition swab32 :: "u32 \<Rightarrow> u32" where
  "swab32 x = push_bit 24 (byte_of x 0) OR push_bit 16 (byte_of x 1) OR
     push_bit 8 (byte_of x 2) OR byte_of x 3"

definition swab64 :: "u64 \<Rightarrow> u64" where
  "swab64 x = push_bit 56 (byte_of x 0) OR push_bit 48 (byte_of x 1) OR
     push_bit 40 (byte_of x 2) OR push_bit 32 (byte_of x 3) OR
     push_bit 24 (byte_of x 4) OR push_bit 16 (byte_of x 5) OR
     push_bit 8 (byte_of x 6) OR byte_of x 7"

lemma bit_swab32: "bit (swab32 x) n \<longleftrightarrow> (if n < 8 then bit x (n + 24) else if n < 16 then bit x (n + 8)
   else if n < 24 then bit x (n - 8) else if n < 32 then bit x (n - 24) else False)"
  by (auto simp: swab32_def byte_of_def bit_simps add.commute)

lemma swab32_swab32: "swab32 (swab32 x) = x"
proof (rule bit_word_eqI)
  fix n :: nat assume "n < LENGTH(32)"
  then have "n < 8 \<or> 8 \<le> n \<and> n < 16 \<or> 16 \<le> n \<and> n < 24 \<or> 24 \<le> n \<and> n < 32" by simp linarith
  then show "bit (swab32 (swab32 x)) n = bit x n" by (elim disjE conjE; simp add: bit_swab32 less_diff_conv2)
qed

lemma bit_byte_of: "bit (byte_of x i) n \<longleftrightarrow> n < 8 \<and> bit x (8 * i + n)"
  by (simp add: byte_of_def bit_simps add.commute)

lemma lt64_cases:
  "(n::nat) < 8 \<or> 8 \<le> n \<and> n < 16 \<or> 16 \<le> n \<and> n < 24 \<or> 24 \<le> n \<and> n < 32 \<or>
    32 \<le> n \<and> n < 40 \<or> 40 \<le> n \<and> n < 48 \<or> 48 \<le> n \<and> n < 56 \<or> 56 \<le> n \<and> n < 64 \<or> 64 \<le> n"
  by linarith

lemma bit_swab64: "bit (swab64 x) n \<longleftrightarrow> (if n < 8 then bit x (n + 56) else if n < 16 then bit x (n + 40)
   else if n < 24 then bit x (n + 24) else if n < 32 then bit x (n + 8) else if n < 40 then bit x (n - 8)
   else if n < 48 then bit x (n - 24) else if n < 56 then bit x (n - 40)
   else if n < 64 then bit x (n - 56) else False)"
  using lt64_cases [of n]
  by (elim disjE conjE; simp add: swab64_def bit_byte_of bit_or_iff bit_push_bit_iff not_less less_diff_conv2 add.commute)

lemma swab64_swab64: "swab64 (swab64 x) = x"
proof (rule bit_word_eqI)
  fix n :: nat assume "n < LENGTH(64)"
  then show "bit (swab64 (swab64 x)) n = bit x n"
    using lt64_cases [of n] by (elim disjE conjE; simp add: bit_swab64 less_diff_conv2)
qed
definition cpu_to_le32 :: "bool \<Rightarrow> u32 \<Rightarrow> u32" where
  "cpu_to_le32 be x = (if be then swab32 x else x)"

definition cpu_to_le64 :: "bool \<Rightarrow> u64 \<Rightarrow> u64" where
  "cpu_to_le64 be x = (if be then swab64 x else x)"

definition cpu_to_be32 :: "bool \<Rightarrow> u32 \<Rightarrow> u32" where
  "cpu_to_be32 be x = (if be then x else swab32 x)"

definition cpu_to_be64 :: "bool \<Rightarrow> u64 \<Rightarrow> u64" where
  "cpu_to_be64 be x = (if be then x else swab64 x)"

lemma cpu_to_le_inverse [simp]:
  "cpu_to_le32 be (cpu_to_le32 be x) = x" "cpu_to_le64 be (cpu_to_le64 be y) = y"
  "cpu_to_be32 be (cpu_to_be32 be x) = x" "cpu_to_be64 be (cpu_to_be64 be y) = y"
  by (simp_all add: cpu_to_le32_def cpu_to_le64_def cpu_to_be32_def cpu_to_be64_def
      swab32_swab32 swab64_swab64)

end
