(* ===== verification/LovOffset.thy ===== *)
theory LovOffset
  imports Prelude
begin

text \<open>
  The striping arithmetic of the logical object volume: \<open>lustre/lov/lov_offset.c\<close>, the
  stripe geometry of \<open>lustre/lov/lov_ea.c\<close>, and the attribute merging of
  \<open>lustre/lov/lov_merge.c\<close>.
\<close>

section \<open>Data\<close>

text \<open>\<open>struct ost_lvb\<close>; times are signed 64-bit, compared only.\<close>

record ost_lvb =
  lvb_size :: u64
  lvb_mtime :: int
  lvb_atime :: int
  lvb_ctime :: int
  lvb_blocks :: u64

text \<open>\<open>struct lov_oinfo\<close>: the fields the striping and merging code reads or writes.\<close>

record lov_oinfo =
  loi_kms_valid :: bool
  loi_kms :: u64
  loi_lvb :: ost_lvb

text \<open>\<open>struct lov_stripe_md\<close>: \<open>lsm_wire\<close> and the per-stripe array.\<close>

record lov_stripe_md =
  lsm_magic :: u32
  lsm_stripe_size :: u32
  lsm_stripe_count :: u32
  lsm_oinfo :: "lov_oinfo list"

definition LOV_MAGIC_V1 :: u32 where "LOV_MAGIC_V1 = 0x0BD10BD0"
definition LOV_MAGIC_V3 :: u32 where "LOV_MAGIC_V3 = 0x0BD30BD0"

text \<open>The two tables of striping operations; both use the ``plain'' geometry.\<close>

datatype lsm_operations = lsm_v1_ops | lsm_v3_ops

definition lsm_op_find :: "u32 \<Rightarrow> lsm_operations option" where
  "lsm_op_find magic =
     (if magic = LOV_MAGIC_V1 then Some lsm_v1_ops
      else if magic = LOV_MAGIC_V3 then Some lsm_v3_ops
      else None)"

definition lsm_stripe_by_index_plain :: "lov_stripe_md \<Rightarrow> u64" where
  "lsm_stripe_by_index_plain lsm = ucast (lsm_stripe_size lsm) * ucast (lsm_stripe_count lsm)"

definition lsm_stripe_by_offset_plain :: "lov_stripe_md \<Rightarrow> u64" where
  "lsm_stripe_by_offset_plain lsm = ucast (lsm_stripe_size lsm) * ucast (lsm_stripe_count lsm)"

fun lsm_stripe_by_index :: "lsm_operations \<Rightarrow> lov_stripe_md \<Rightarrow> u64" where
  "lsm_stripe_by_index lsm_v1_ops lsm = lsm_stripe_by_index_plain lsm"
| "lsm_stripe_by_index lsm_v3_ops lsm = lsm_stripe_by_index_plain lsm"

fun lsm_stripe_by_offset :: "lsm_operations \<Rightarrow> lov_stripe_md \<Rightarrow> u64" where
  "lsm_stripe_by_offset lsm_v1_ops lsm = lsm_stripe_by_offset_plain lsm"
| "lsm_stripe_by_offset lsm_v3_ops lsm = lsm_stripe_by_offset_plain lsm"

section \<open>Operations of lov_offset.c\<close>

text \<open>
  \<open>do_div(a, b)\<close> leaves the quotient in \<open>a\<close> and returns the remainder; so does
  \<open>ll_do_div64\<close>. The failing \<open>LASSERT(lsm_op_find(magic) != NULL)\<close> is \<open>None\<close>.
\<close>

definition lov_stripe_size :: "lov_stripe_md \<Rightarrow> u64 \<Rightarrow> int \<Rightarrow> u64 option" where
  "lov_stripe_size lsm ost_size stripeno =
     (let ssize = ucast (lsm_stripe_size lsm) :: u64 in
      if ost_size = 0 then Some 0
      else do {
        ops \<leftarrow> lsm_op_find (lsm_magic lsm);
        let swidth = lsm_stripe_by_index ops lsm;
        let stripe_size = ost_size mod ssize;
        let ost_size = ost_size div ssize;
        Some (if stripe_size \<noteq> 0
              then ost_size * swidth + of_int stripeno * ssize + stripe_size
              else (ost_size - 1) * swidth + of_int (stripeno + 1) * ssize)
      })"

text \<open>The result is the return value \<open>ret\<close> and the value stored in \<open>*obdoff\<close>.\<close>

definition lov_stripe_offset :: "lov_stripe_md \<Rightarrow> u64 \<Rightarrow> int \<Rightarrow> (int \<times> u64) option" where
  "lov_stripe_offset lsm lov_off stripeno =
     (let ssize = ucast (lsm_stripe_size lsm) :: u64 in
      if lov_off = OBD_OBJECT_EOF then Some (0, OBD_OBJECT_EOF)
      else do {
        ops \<leftarrow> lsm_op_find (lsm_magic lsm);
        let swidth = lsm_stripe_by_index ops lsm;
        let stripe_off = lov_off mod swidth;
        let lov_off = lov_off div swidth;
        let this_stripe = of_int stripeno * ssize;
        let (stripe_off, ret) =
          (if stripe_off < this_stripe then (0, -1)
           else let stripe_off = stripe_off - this_stripe in
                if stripe_off \<ge> ssize then (ssize, 1) else (stripe_off, 0));
        Some (ret, lov_off * ssize + stripe_off)
      })"

definition lov_size_to_stripe :: "lov_stripe_md \<Rightarrow> u64 \<Rightarrow> int \<Rightarrow> u64 option" where
  "lov_size_to_stripe lsm file_size stripeno =
     (let ssize = ucast (lsm_stripe_size lsm) :: u64 in
      if file_size = OBD_OBJECT_EOF then Some OBD_OBJECT_EOF
      else do {
        ops \<leftarrow> lsm_op_find (lsm_magic lsm);
        let swidth = lsm_stripe_by_index ops lsm;
        let stripe_off = file_size mod swidth;
        let file_size = file_size div swidth;
        let this_stripe = of_int stripeno * ssize;
        let (file_size, stripe_off) =
          (if stripe_off < this_stripe
           then (if file_size > 0 then (file_size - 1, ssize) else (file_size, 0))
           else let stripe_off = stripe_off - this_stripe in
                (file_size, if stripe_off \<ge> ssize then ssize else stripe_off));
        Some (file_size * ssize + stripe_off)
      })"

text \<open>The result is the return value and the values stored in \<open>*obd_start\<close>, \<open>*obd_end\<close>.\<close>

definition lov_stripe_intersects ::
  "lov_stripe_md \<Rightarrow> int \<Rightarrow> u64 \<Rightarrow> u64 \<Rightarrow> (int \<times> u64 \<times> u64) option" where
  "lov_stripe_intersects lsm stripeno start fin = do {
     (start_side, obd_start) \<leftarrow> lov_stripe_offset lsm start stripeno;
     (end_side, obd_end) \<leftarrow> lov_stripe_offset lsm fin stripeno;
     Some (if start_side \<noteq> 0 \<and> end_side \<noteq> 0 \<and> obd_start = obd_end
           then (0, obd_start, obd_end)
           else (1, obd_start, if end_side \<noteq> 0 then obd_end - 1 else obd_end))
   }"

text \<open>The quotient is returned as a C \<open>int\<close>.\<close>

definition lov_stripe_number :: "lov_stripe_md \<Rightarrow> u64 \<Rightarrow> int option" where
  "lov_stripe_number lsm lov_off =
     (let ssize = ucast (lsm_stripe_size lsm) :: u64 in do {
        ops \<leftarrow> lsm_op_find (lsm_magic lsm);
        let swidth = lsm_stripe_by_offset ops lsm;
        let stripe_off = lov_off mod swidth;
        Some (sint (ucast (stripe_off div ssize) :: u32))
      })"

section \<open>Operations of lov_merge.c\<close>

definition OST_LVB_ERR_INIT :: u64 where "OST_LVB_ERR_INIT = 0xffbadbad80000000"
definition OST_LVB_ERR_MASK :: u64 where "OST_LVB_ERR_MASK = 0xffbadbad00000000"

definition OST_LVB_IS_ERR :: "u64 \<Rightarrow> bool" where
  "OST_LVB_IS_ERR blocks \<longleftrightarrow> blocks AND OST_LVB_ERR_MASK = OST_LVB_ERR_MASK"

definition OST_LVB_GET_ERR :: "u64 \<Rightarrow> int" where
  "OST_LVB_GET_ERR blocks = sint (ucast (blocks - OST_LVB_ERR_INIT) :: u32)"

definition loi_kms_set :: "u64 \<Rightarrow> lov_oinfo \<Rightarrow> lov_oinfo" where
  "loi_kms_set kms oinfo = oinfo\<lparr>loi_kms := kms, loi_kms_valid := True\<rparr>"

text \<open>
  The local variables of \<open>lov_merge_lvb_kms\<close>: the lock value block under construction
  (\<open>size\<close>, \<open>blocks\<close>, the three times), \<open>kms\<close> and \<open>rc\<close>. An index past the stripe array
  is \<open>None\<close>.
\<close>

record merge_state =
  ms_lvb :: ost_lvb
  ms_kms :: u64
  ms_rc :: int

definition lov_merge_one :: "lov_stripe_md \<Rightarrow> nat \<Rightarrow> merge_state \<Rightarrow> merge_state option" where
  "lov_merge_one lsm i st =
     (if length (lsm_oinfo lsm) \<le> i then None
      else let loi = lsm_oinfo lsm ! i; lvb = loi_lvb loi in
        if OST_LVB_IS_ERR (lvb_blocks lvb)
        then Some (st\<lparr>ms_rc := OST_LVB_GET_ERR (lvb_blocks lvb)\<rparr>)
        else do {
          let tmpsize = loi_kms loi;
          lov_size \<leftarrow> lov_stripe_size lsm tmpsize (int i);
          let kms = (if lov_size > ms_kms st then lov_size else ms_kms st);
          let tmpsize = (if lvb_size lvb > tmpsize then lvb_size lvb else tmpsize);
          lov_size \<leftarrow> lov_stripe_size lsm tmpsize (int i);
          let cur = ms_lvb st;
          let fsize = (if lov_size > lvb_size cur then lov_size else lvb_size cur);
          Some (st\<lparr>ms_kms := kms,
                   ms_lvb := \<lparr>lvb_size = fsize,
                     lvb_mtime = (if lvb_mtime lvb > lvb_mtime cur then lvb_mtime lvb else lvb_mtime cur),
                     lvb_atime = (if lvb_atime lvb > lvb_atime cur then lvb_atime lvb else lvb_atime cur),
                     lvb_ctime = (if lvb_ctime lvb > lvb_ctime cur then lvb_ctime lvb else lvb_ctime cur),
                     lvb_blocks = lvb_blocks cur + lvb_blocks lvb\<rparr>\<rparr>)
        })"

text \<open>The result is \<open>rc\<close>, the updated \<open>*lvb\<close> and the value stored in \<open>*kms_place\<close>.\<close>

definition lov_merge_lvb_kms :: "lov_stripe_md \<Rightarrow> ost_lvb \<Rightarrow> (int \<times> ost_lvb \<times> u64) option" where
  "lov_merge_lvb_kms lsm lvb = do {
     st \<leftarrow> ofold (lov_merge_one lsm) [0..<unat (lsm_stripe_count lsm)]
             \<lparr>ms_lvb = lvb\<lparr>lvb_size := 0, lvb_blocks := 0\<rparr>, ms_kms = 0, ms_rc = 0\<rparr>;
     Some (ms_rc st, ms_lvb st, ms_kms st)
   }"

definition lov_merge_lvb :: "lov_stripe_md \<Rightarrow> ost_lvb \<Rightarrow> bool \<Rightarrow> (int \<times> ost_lvb) option" where
  "lov_merge_lvb lsm lvb kms_only = do {
     (rc, lvb, kms) \<leftarrow> lov_merge_lvb_kms lsm lvb;
     Some (rc, if kms_only then lvb\<lparr>lvb_size := kms\<rparr> else lvb)
   }"

definition lov_adjust_shrink_one :: "u64 \<Rightarrow> nat \<Rightarrow> lov_stripe_md \<Rightarrow> lov_stripe_md option" where
  "lov_adjust_shrink_one fsize stripe lsm =
     (if length (lsm_oinfo lsm) \<le> stripe then None
      else do {
        kms \<leftarrow> lov_size_to_stripe lsm fsize (int stripe);
        let loi = lsm_oinfo lsm ! stripe;
        let loi = loi_kms_set kms (loi\<lparr>loi_lvb := (loi_lvb loi)\<lparr>lvb_size := kms\<rparr>\<rparr>);
        Some (lsm\<lparr>lsm_oinfo := (lsm_oinfo lsm)[stripe := loi]\<rparr>)
      })"

text \<open>\<open>lov_adjust_kms\<close> always returns 0; the result is the updated stripe descriptor.\<close>

definition lov_adjust_kms :: "lov_stripe_md \<Rightarrow> u64 \<Rightarrow> bool \<Rightarrow> lov_stripe_md option" where
  "lov_adjust_kms lsm fsize shrink =
     (if shrink
      then ofold (lov_adjust_shrink_one fsize) [0..<unat (lsm_stripe_count lsm)] lsm
      else do {
        stripe \<leftarrow> (if fsize > 0 then lov_stripe_number lsm (fsize - 1) else Some 0);
        kms \<leftarrow> lov_size_to_stripe lsm fsize stripe;
        if stripe < 0 \<or> length (lsm_oinfo lsm) \<le> nat stripe then None
        else let loi = lsm_oinfo lsm ! nat stripe in
          Some (if kms > loi_kms loi
                then lsm\<lparr>lsm_oinfo := (lsm_oinfo lsm)[nat stripe := loi_kms_set kms loi]\<rparr>
                else lsm)
      })"

section \<open>The striping map on natural numbers\<close>

text \<open>
  A file is laid out round-robin over \<open>n\<close> objects in units of \<open>ss\<close> bytes. Byte \<open>y\<close> of
  object \<open>s\<close> is byte \<open>file_off ss n s y\<close> of the file; \<open>obj_size ss n x s\<close> is how many
  bytes of the first \<open>x\<close> bytes of the file lie in object \<open>s\<close>; \<open>file_end ss n s x\<close> is the
  size of the smallest file whose object \<open>s\<close> has \<open>x\<close> bytes.
\<close>

definition obj_size :: "nat \<Rightarrow> nat \<Rightarrow> nat \<Rightarrow> nat \<Rightarrow> nat" where
  "obj_size ss n sz s = sz div (ss * n) * ss + min (sz mod (ss * n) - s * ss) ss"

definition file_off :: "nat \<Rightarrow> nat \<Rightarrow> nat \<Rightarrow> nat \<Rightarrow> nat" where
  "file_off ss n s y = y div ss * (ss * n) + s * ss + y mod ss"

definition file_end :: "nat \<Rightarrow> nat \<Rightarrow> nat \<Rightarrow> nat \<Rightarrow> nat" where
  "file_end ss n s x = (if x = 0 then 0 else file_off ss n s (x - 1) + 1)"

text \<open>A descriptor the code accepts: a known magic, a stripe size and a stripe count.\<close>

definition lsm_sane :: "lov_stripe_md \<Rightarrow> bool" where
  "lsm_sane lsm \<longleftrightarrow> lsm_op_find (lsm_magic lsm) \<noteq> None \<and> lsm_stripe_size lsm \<noteq> 0 \<and>
     lsm_stripe_count lsm \<noteq> 0"

abbreviation SS :: "lov_stripe_md \<Rightarrow> nat" where "SS lsm \<equiv> unat (lsm_stripe_size lsm)"
abbreviation SC :: "lov_stripe_md \<Rightarrow> nat" where "SC lsm \<equiv> unat (lsm_stripe_count lsm)"

lemma u32_mult_lt: "unat (a :: u32) * unat (b :: u32) < 18446744073709551616"
proof -
  have "unat a * unat b \<le> 4294967295 * 4294967295"
    using unat_lt_u32 [of a] unat_lt_u32 [of b] by (intro mult_le_mono; linarith)
  then show ?thesis by simp
qed

lemma unat_swidth:
  "unat (lsm_stripe_by_index ops lsm) = SS lsm * SC lsm"
  "unat (lsm_stripe_by_offset ops lsm) = SS lsm * SC lsm"
  by (cases ops; simp add: lsm_stripe_by_index_plain_def lsm_stripe_by_offset_plain_def
      unat_simps u32_mult_lt)+

lemma unat_this_stripe:
  assumes "s < SC lsm"
  shows "unat (of_nat s * ucast (lsm_stripe_size lsm) :: u64) = s * SS lsm"
proof -
  have s: "unat (of_nat s :: u64) = s"
    using less_trans [OF assms unat_lt_u32] by (simp add: unsigned_of_nat take_bit_nat_eq_self_iff)
  have "s * SS lsm \<le> SC lsm * SS lsm" using assms by simp
  also have "\<dots> < 18446744073709551616" by (rule u32_mult_lt)
  finally show ?thesis using s by (simp add: unat_simps)
qed

lemma obj_off_le: "0 < ss \<Longrightarrow> 0 < n \<Longrightarrow> sz div (ss * n) * ss + min (sz mod (ss * n)) ss \<le> (sz :: nat)"
proof -
  assume "0 < ss" "0 < n"
  then have "ss \<le> ss * n" by simp
  have "sz div (ss * n) * ss \<le> sz div (ss * n) * (ss * n)"
    using \<open>ss \<le> ss * n\<close> by (rule mult_le_mono2)
  moreover have "sz div (ss * n) * (ss * n) + sz mod (ss * n) = sz" by (rule div_mult_mod_eq)
  ultimately show ?thesis by linarith
qed

lemma lov_size_to_stripe_nat:
  assumes ok: "lsm_sane lsm" and s: "s < SC lsm" and neof: "sz \<noteq> OBD_OBJECT_EOF"
  shows "\<exists>x. lov_size_to_stripe lsm sz (int s) = Some x \<and>
             unat x = obj_size (SS lsm) (SC lsm) (unat sz) s"
proof -
  obtain ops where ops: "lsm_op_find (lsm_magic lsm) = Some ops"
    using ok by (auto simp: lsm_sane_def)
  let ?ss = "SS lsm" and ?n = "SC lsm"
  have pos: "0 < ?ss" "0 < ?n" using ok by (auto simp: lsm_sane_def unat_gt_0)
  let ?q = "unat sz div (?ss * ?n)" and ?r = "unat sz mod (?ss * ?n)"
  have q: "unat (sz div lsm_stripe_by_index ops lsm) = ?q"
    and r: "unat (sz mod lsm_stripe_by_index ops lsm) = ?r"
    by (simp_all add: unat_div unat_mod unat_swidth)
  have bnd: "?q * ?ss + min ?r ?ss \<le> unat sz" using pos by (rule obj_off_le)
  have fits: "?q * ?ss + t < 18446744073709551616" if "t \<le> min ?r ?ss" for t
    using that bnd unat_lt_u64 [of sz] by linarith
  have le1: "?q * ?ss < 18446744073709551616" using fits [of 0] by simp
  let ?Q = "sz div lsm_stripe_by_index ops lsm" and ?R = "sz mod lsm_stripe_by_index ops lsm"
  let ?S = "ucast (lsm_stripe_size lsm) :: u64" and ?T = "of_nat s * ucast (lsm_stripe_size lsm) :: u64"
  note T = unat_this_stripe [OF s]
  show ?thesis
  proof (cases "?R < ?T")
    case before: True
    then have rs: "?r < s * ?ss" using r T by (simp add: word_less_nat_alt)
    show ?thesis
    proof (cases "?Q > 0")
      case True
      then have "0 < ?q" using q by (simp add: word_less_nat_alt)
      then have qe: "(?q - 1) * ?ss + ?ss = ?q * ?ss" by (cases ?q) auto
      have "1 \<le> ?Q" using True by (simp add: word_le_nat_alt word_less_nat_alt Suc_le_eq)
      then have "unat (?Q - 1) = ?q - 1" using q by (simp add: unat_simps)
      then have "unat ((?Q - 1) * ?S + ?S) = ?q * ?ss"
        using qe le1 by (simp add: unat_simps)
      then show ?thesis using before True rs neof ops
        by (simp add: lov_size_to_stripe_def obj_size_def Let_def)
    next
      case False
      then have "?Q = 0" by (simp add: word_gt_0)
      moreover from this have "?q = 0" using q by simp
      ultimately show ?thesis using before False rs neof ops
        by (simp add: lov_size_to_stripe_def obj_size_def Let_def)
    qed
  next
    case False
    then have le: "?T \<le> ?R" by simp
    then have d: "unat (?R - ?T) = ?r - s * ?ss" using r T by (simp add: unat_simps)
    have "unat (if ?S \<le> ?R - ?T then ?S else ?R - ?T) = min (?r - s * ?ss) ?ss"
      using d by (simp add: word_le_nat_alt min_def)
    then have "unat (?Q * ?S + (if ?S \<le> ?R - ?T then ?S else ?R - ?T)) =
        ?q * ?ss + min (?r - s * ?ss) ?ss"
      using le1 q fits [of "min (?r - s * ?ss) ?ss"] by (simp add: unat_simps)
    then show ?thesis using False neof ops
      by (simp add: lov_size_to_stripe_def obj_size_def Let_def split: if_splits)
  qed
qed

lemma sum_min: "(\<Sum>s<n. min (r - s * ss) ss) = min r (n * (ss :: nat))"
  by (induction n) auto

lemma sum_obj_size: "0 < ss \<Longrightarrow> 0 < n \<Longrightarrow> (\<Sum>s<n. obj_size ss n sz s) = (sz :: nat)"
proof -
  assume "0 < ss" "0 < n"
  then have "sz mod (ss * n) < n * ss" by (simp add: mult.commute)
  then have "(\<Sum>s<n. obj_size ss n sz s) = n * (sz div (ss * n) * ss) + sz mod (ss * n)"
    by (simp add: obj_size_def sum.distrib sum_min)
  also have "\<dots> = sz div (ss * n) * (ss * n) + sz mod (ss * n)" by simp
  also have "\<dots> = sz" by (rule div_mult_mod_eq)
  finally show ?thesis .
qed

lemma file_end_split:
  "0 < ss \<Longrightarrow> 0 < m \<Longrightarrow> m \<le> ss \<Longrightarrow> file_end ss n s (q * ss + m) = q * (ss * n) + s * ss + m"
proof -
  assume a: "0 < ss" "0 < m" "m \<le> ss"
  then obtain k where "m = Suc k" "k < ss" by (cases m) auto
  then show ?thesis by (simp add: file_end_def file_off_def)
qed

lemma file_end_nat:
  assumes "0 < ss" "0 < x"
  shows "file_end ss n s x =
    (if x mod ss \<noteq> 0 then x div ss * (ss * n) + s * ss + x mod ss
     else (x div ss - 1) * (ss * n) + (s + 1) * ss)"
proof (cases "x mod ss = 0")
  case True
  then obtain q where q: "x = q * ss" by (metis div_mult_mod_eq add.right_neutral)
  then have "0 < q" using assms by (cases q) auto
  then have "x = (q - 1) * ss + ss" using q by (cases q) auto
  then have "file_end ss n s x = (q - 1) * (ss * n) + s * ss + ss"
    using file_end_split [of ss ss n s "q - 1"] assms by simp
  then show ?thesis using True q assms by simp
next
  case False
  then show ?thesis
    using file_end_split [of ss "x mod ss" n s "x div ss"] assms by (simp add: less_imp_le)
qed

lemma less_obj_size_iff:
  assumes "0 < ss" "s < n"
  shows "y < obj_size ss n x s \<longleftrightarrow> file_off ss n s y < x"
proof -
  define W where "W = ss * n"
  define a b q r where "a = y div ss" and "b = y mod ss" and "q = x div W" and "r = x mod W"
  have sW: "s * ss + ss \<le> W" using assms mult_le_mono1 [of "s + 1" n ss] by (simp add: W_def mult.commute)
  have W: "0 < W" using assms by (simp add: W_def)
  have b: "b < ss" and r: "r < W" using assms W by (simp_all add: b_def r_def)
  have y: "y = a * ss + b" unfolding a_def b_def by (rule div_mult_mod_eq [symmetric])
  have x: "x = q * W + r" unfolding q_def r_def by (rule div_mult_mod_eq [symmetric])
  have O: "obj_size ss n x s = q * ss + min (r - s * ss) ss"
    by (simp add: obj_size_def q_def r_def W_def)
  have F: "file_off ss n s y = a * W + s * ss + b" by (simp add: file_off_def a_def b_def W_def)
  consider "a < q" | "a = q" | "q < a" by linarith
  then show ?thesis
  proof cases
    case 1
    then have "(a + 1) * ss \<le> q * ss" "(a + 1) * W \<le> q * W" by (intro mult_le_mono1; simp)+
    then show ?thesis unfolding O F using b y x sW by simp
  next
    case 2
    then show ?thesis unfolding O F using b y x by (auto simp: min_def)
  next
    case 3
    then have "(q + 1) * ss \<le> a * ss" "(q + 1) * W \<le> a * W" by (intro mult_le_mono1; simp)+
    then show ?thesis unfolding O F using r y x by simp
  qed
qed

lemma file_off_obj_off:
  assumes "0 < ss" "x mod (ss * n) div ss = s"
  shows "file_off ss n s (x div (ss * n) * ss + x mod (ss * n) mod ss) = x"
proof -
  have "s * ss + x mod (ss * n) mod ss = x mod (ss * n)" using assms(2) by (metis div_mult_mod_eq)
  then have "x div (ss * n) * (ss * n) + s * ss + x mod (ss * n) mod ss = x"
    using div_mult_mod_eq [of x "ss * n"] by (simp add: add.assoc)
  then show ?thesis using assms(1) by (simp add: file_off_def)
qed

lemma file_off_stripe:
  assumes "0 < ss" "s < n" shows "file_off ss n s y mod (ss * n) div ss = s"
    and "file_off ss n s y div (ss * n) * ss + file_off ss n s y mod (ss * n) mod ss = y"
proof -
  have "s * ss + ss \<le> ss * n" using assms mult_le_mono1 [of "s + 1" n ss] by (simp add: mult.commute)
  moreover have "y mod ss < ss" using assms by simp
  ultimately have "s * ss + y mod ss < ss * n" by linarith
  then have "file_off ss n s y mod (ss * n) = s * ss + y mod ss"
    and "file_off ss n s y div (ss * n) = y div ss"
    using assms by (simp_all add: file_off_def add.assoc)
  then show "file_off ss n s y mod (ss * n) div ss = s"
    and "file_off ss n s y div (ss * n) * ss + file_off ss n s y mod (ss * n) mod ss = y"
    using assms by simp_all
qed

lemma file_end_obj_size_le:
  assumes "0 < ss" "s < n" shows "file_end ss n s (obj_size ss n x s) \<le> x"
  using less_obj_size_iff [OF assms, of "obj_size ss n x s - 1" x]
  by (auto simp: file_end_def)

lemma file_end_obj_size_last:
  assumes "0 < ss" "0 < n" "0 < x" and s: "s = (x - 1) mod (ss * n) div ss"
  shows "file_end ss n s (obj_size ss n x s) = x"
proof -
  have "(x - 1) mod (ss * n) < n * ss" using assms by (simp add: mult.commute)
  then have sn: "s < n" unfolding s by (simp add: less_mult_imp_div_less)
  let ?y = "(x - 1) div (ss * n) * ss + (x - 1) mod (ss * n) mod ss"
  have off: "file_off ss n s ?y = x - 1" using assms by (intro file_off_obj_off) auto
  then have y: "?y < obj_size ss n x s" using less_obj_size_iff [OF assms(1) sn] assms(3) by simp
  let ?z = "obj_size ss n x s - 1"
  have "file_off ss n s ?z < x" using less_obj_size_iff [OF assms(1) sn, of ?z x] y by simp
  moreover have "\<not> file_off ss n s ?z < x - 1"
  proof
    assume "file_off ss n s ?z < x - 1"
    then have "?z < obj_size ss n (x - 1) s" using less_obj_size_iff [OF assms(1) sn] by simp
    moreover have "\<not> ?y < obj_size ss n (x - 1) s"
      using less_obj_size_iff [OF assms(1) sn] off by simp
    ultimately show False using y by simp
  qed
  ultimately show ?thesis using y assms(3) by (simp add: file_end_def)
qed

lemma lov_stripe_size_nat:
  assumes ok: "lsm_sane lsm" and s: "s < SC lsm"
    and fits: "file_end (SS lsm) (SC lsm) s (unat x) < 18446744073709551616"
  shows "\<exists>y. lov_stripe_size lsm x (int s) = Some y \<and>
             unat y = file_end (SS lsm) (SC lsm) s (unat x)"
proof (cases "x = 0")
  case True
  then show ?thesis by (simp add: lov_stripe_size_def file_end_def)
next
  case False
  obtain ops where ops: "lsm_op_find (lsm_magic lsm) = Some ops"
    using ok by (auto simp: lsm_sane_def)
  have pos: "0 < SS lsm" "0 < unat x" using ok False by (auto simp: lsm_sane_def unat_gt_0)
  let ?S = "ucast (lsm_stripe_size lsm) :: u64" and ?W = "lsm_stripe_by_index ops lsm"
  note fe = file_end_nat [OF pos, of "SC lsm" s]
  note us = unat_div unat_mod unat_swidth unat_this_stripe [OF s] unat_simps
  have ms: "unat x mod SS lsm = 0 \<longleftrightarrow> x mod ?S = 0"
    unfolding unat_eq_zero [symmetric] by (simp add: unat_mod)
  show ?thesis
  proof (cases "x mod ?S = 0")
    case z: False
    then have "unat x mod SS lsm \<noteq> 0" using ms by simp
    then have fe': "file_end (SS lsm) (SC lsm) s (unat x) =
        unat x div SS lsm * (SS lsm * SC lsm) + s * SS lsm + unat x mod SS lsm" using fe by simp
    then have "unat (x div ?S * ?W + of_nat s * ?S + x mod ?S) =
        file_end (SS lsm) (SC lsm) s (unat x)"
      using fits by (simp add: us)
    then show ?thesis using False z ops by (simp add: lov_stripe_size_def Let_def)
  next
    case z: True
    then have m0: "unat x mod SS lsm = 0" using ms by simp
    then have d: "1 \<le> unat x div SS lsm" using pos
      by (metis One_nat_def Suc_leI div_greater_zero_iff dvd_imp_le mod_0_imp_dvd)
    then have "1 \<le> x div ?S" by (simp add: word_le_nat_alt unat_div)
    then have d1: "unat (x div ?S - 1) = unat x div SS lsm - 1" by (simp add: us)
    have s1: "unat ((of_nat s + 1) * ?S) = (s + 1) * SS lsm"
    proof -
      have "unat (of_nat (Suc s) :: u64) = Suc s"
        using le_less_trans [OF Suc_leI [OF s] unat_lt_u32]
        by (simp only: unsigned_of_nat) (simp add: take_bit_nat_eq_self_iff)
      moreover have "Suc s * SS lsm < 18446744073709551616"
        using le_less_trans [OF mult_le_mono1 [OF Suc_leI [OF s], of "SS lsm"] u32_mult_lt] .
      ultimately have "unat (of_nat (Suc s) * ?S) = Suc s * SS lsm" by (simp add: us del: of_nat_Suc)
      then show ?thesis by (simp add: add.commute)
    qed
    have fe': "file_end (SS lsm) (SC lsm) s (unat x) =
        (unat x div SS lsm - 1) * (SS lsm * SC lsm) + (s + 1) * SS lsm" using fe m0 by simp
    have "unat ((x div ?S - 1) * ?W) = (unat x div SS lsm - 1) * (SS lsm * SC lsm)"
      using fits unfolding fe' by (subst unat_mult_nowrap) (simp_all add: d1 unat_swidth)
    then have "unat ((x div ?S - 1) * ?W + (of_nat s + 1) * ?S) =
        file_end (SS lsm) (SC lsm) s (unat x)"
      using fits s1 unfolding fe' by (subst unat_add_nowrap) simp_all
    then show ?thesis using False z ops
      by (simp add: lov_stripe_size_def Let_def)
  qed
qed


lemma lov_stripe_offset_nat:
  assumes ok: "lsm_sane lsm" and s: "s < SC lsm" and neof: "off \<noteq> OBD_OBJECT_EOF"
  defines "r \<equiv> unat off mod (SS lsm * SC lsm)"
  shows "\<exists>x. lov_stripe_offset lsm off (int s) =
           Some (if r < s * SS lsm then -1 else if r div SS lsm = s then 0 else 1, x) \<and>
             unat x = obj_size (SS lsm) (SC lsm) (unat off) s"
proof -
  obtain ops where ops: "lsm_op_find (lsm_magic lsm) = Some ops"
    using ok by (auto simp: lsm_sane_def)
  let ?ss = "SS lsm" and ?n = "SC lsm"
  have pos: "0 < ?ss" "0 < ?n" using ok by (auto simp: lsm_sane_def unat_gt_0)
  let ?q = "unat off div (?ss * ?n)"
  have q: "unat (off div lsm_stripe_by_index ops lsm) = ?q"
    and r: "unat (off mod lsm_stripe_by_index ops lsm) = r"
    by (simp_all add: unat_div unat_mod unat_swidth r_def)
  have bnd: "?q * ?ss + min r ?ss \<le> unat off" unfolding r_def using pos by (rule obj_off_le)
  have fits: "?q * ?ss + t < 18446744073709551616" if "t \<le> min r ?ss" for t
    using that bnd unat_lt_u64 [of off] by linarith
  have le1: "?q * ?ss < 18446744073709551616" using fits [of 0] by simp
  let ?Q = "off div lsm_stripe_by_index ops lsm" and ?R = "off mod lsm_stripe_by_index ops lsm"
  let ?S = "ucast (lsm_stripe_size lsm) :: u64" and ?T = "of_nat s * ucast (lsm_stripe_size lsm) :: u64"
  note T = unat_this_stripe [OF s]
  show ?thesis
  proof (cases "?R < ?T")
    case True
    then have rs: "r < s * ?ss" using r T by (simp add: word_less_nat_alt)
    have "unat (?Q * ?S) = ?q * ?ss" using q le1 by (simp add: unat_simps)
    then show ?thesis using True rs neof ops
      by (simp add: lov_stripe_offset_def obj_size_def Let_def flip: r_def)
  next
    case False
    then have le: "?T \<le> ?R" by simp
    then have rs: "\<not> r < s * ?ss" using r T by (simp add: word_le_nat_alt)
    have d: "unat (?R - ?T) = r - s * ?ss" using le r T by (simp add: unat_simps)
    have c: "?S \<le> ?R - ?T \<longleftrightarrow> \<not> r div ?ss = s"
    proof -
      have "?S \<le> ?R - ?T \<longleftrightarrow> s * ?ss + ?ss \<le> r" using d rs by (auto simp: word_le_nat_alt)
      also have "\<dots> \<longleftrightarrow> Suc s \<le> r div ?ss"
        using pos by (simp add: less_eq_div_iff_mult_less_eq add.commute)
      also have "\<dots> \<longleftrightarrow> \<not> r div ?ss = s"
        using less_eq_div_iff_mult_less_eq [OF pos(1), of s r] rs by linarith
      finally show ?thesis .
    qed
    have "unat (if ?S \<le> ?R - ?T then ?S else ?R - ?T) = min (r - s * ?ss) ?ss"
      using d by (simp add: word_le_nat_alt min_def)
    then have "unat (?Q * ?S + (if ?S \<le> ?R - ?T then ?S else ?R - ?T)) =
        ?q * ?ss + min (r - s * ?ss) ?ss"
      using le1 q fits [of "min (r - s * ?ss) ?ss"] by (simp add: unat_simps)
    then show ?thesis using False rs c neof ops
      by (simp add: lov_stripe_offset_def obj_size_def Let_def flip: r_def split: if_splits)
  qed
qed

lemma lsm_sane_pos: "lsm_sane lsm \<Longrightarrow> 0 < SS lsm" "lsm_sane lsm \<Longrightarrow> 0 < SC lsm"
  by (auto simp: lsm_sane_def unat_gt_0)

lemma obj_size_file_off:
  assumes "0 < ss" "s < n" shows "obj_size ss n (file_off ss n s y) s = y"
proof -
  let ?x = "file_off ss n s y"
  have "?x mod (ss * n) = s * ss + ?x mod (ss * n) mod ss"
    using file_off_stripe(1) [OF assms] by (metis div_mult_mod_eq)
  then have "min (?x mod (ss * n) - s * ss) ss = ?x mod (ss * n) mod ss"
    using mod_less_divisor [OF assms(1), of "?x mod (ss * n)"] by linarith
  then show ?thesis using file_off_stripe(2) [OF assms, of y] by (simp add: obj_size_def)
qed

lemma file_off_obj_size:
  assumes "0 < ss" "s < n" "x mod (ss * n) div ss = s"
  shows "file_off ss n s (obj_size ss n x s) = x"
  using file_off_obj_off [OF assms(1,3)] obj_size_file_off [OF assms(1,2)] by metis

lemma file_off_strict_mono: "0 < ss \<Longrightarrow> s < n \<Longrightarrow> y < z \<Longrightarrow> file_off ss n s y < file_off ss n s z"
  using less_obj_size_iff [of ss s n y "file_off ss n s z"] obj_size_file_off [of ss s n z] by simp

lemma file_end_mono: "0 < ss \<Longrightarrow> s < n \<Longrightarrow> x \<le> y \<Longrightarrow> file_end ss n s x \<le> file_end ss n s y"
  using file_off_strict_mono [of ss s n "x - 1" "y - 1"]
  by (cases "x - 1 = y - 1") (auto simp: file_end_def diff_less_mono less_imp_le)

lemma file_end_max:
  "0 < ss \<Longrightarrow> s < n \<Longrightarrow> file_end ss n s (max x y) = max (file_end ss n s x) (file_end ss n s y)"
  using file_end_mono [of ss s n x y] file_end_mono [of ss s n y x] by (auto simp: max_def)

lemma u64_not_EOF: "off \<noteq> OBD_OBJECT_EOF \<Longrightarrow> unat (off + 1) = unat off + 1"
  using unatSuc [of off] by (simp add: add.commute add_eq_0_iff)

lemma lov_merge_loop:
  assumes ok: "lsm_sane lsm" and k: "k \<le> SC lsm" and len: "SC lsm \<le> length (lsm_oinfo lsm)"
    and noerr: "\<And>i. i < k \<Longrightarrow> \<not> OST_LVB_IS_ERR (lvb_blocks (loi_lvb (lsm_oinfo lsm ! i)))"
    and fits: "\<And>i. i < k \<Longrightarrow> file_end (SS lsm) (SC lsm) i (max (unat (loi_kms (lsm_oinfo lsm ! i)))
        (unat (lvb_size (loi_lvb (lsm_oinfo lsm ! i))))) < 2 ^ 64"
  shows "\<exists>st. ofold (lov_merge_one lsm) [0..<k]
        \<lparr>ms_lvb = lvb\<lparr>lvb_size := 0, lvb_blocks := 0\<rparr>, ms_kms = 0, ms_rc = 0\<rparr> = Some st \<and> ms_rc st = 0 \<and>
      unat (ms_kms st) = Max (insert 0 ((\<lambda>i. file_end (SS lsm) (SC lsm) i (unat (loi_kms (lsm_oinfo lsm ! i)))) ` {..<k})) \<and>
      unat (lvb_size (ms_lvb st)) = Max (insert 0 ((\<lambda>i. file_end (SS lsm) (SC lsm) i
         (max (unat (loi_kms (lsm_oinfo lsm ! i))) (unat (lvb_size (loi_lvb (lsm_oinfo lsm ! i)))))) ` {..<k}))"
  using k noerr fits
proof (induction k)
  case 0
  then show ?case by simp
next
  case (Suc k)
  let ?loi = "lsm_oinfo lsm ! k"
  let ?K = "unat (loi_kms ?loi)" and ?Z = "unat (lvb_size (loi_lvb ?loi))"
  note pos = lsm_sane_pos [OF ok]
  have k: "k < SC lsm" using Suc.prems by simp
  obtain st where st: "ofold (lov_merge_one lsm) [0..<k]
        \<lparr>ms_lvb = lvb\<lparr>lvb_size := 0, lvb_blocks := 0\<rparr>, ms_kms = 0, ms_rc = 0\<rparr> = Some st" "ms_rc st = 0"
    and K: "unat (ms_kms st) = Max (insert 0 ((\<lambda>i. file_end (SS lsm) (SC lsm) i (unat (loi_kms (lsm_oinfo lsm ! i)))) ` {..<k}))"
    and Z: "unat (lvb_size (ms_lvb st)) = Max (insert 0 ((\<lambda>i. file_end (SS lsm) (SC lsm) i
         (max (unat (loi_kms (lsm_oinfo lsm ! i))) (unat (lvb_size (loi_lvb (lsm_oinfo lsm ! i)))))) ` {..<k}))"
    using Suc.IH Suc.prems by force
  have f2: "file_end (SS lsm) (SC lsm) k (max ?K ?Z) < 18446744073709551616" using Suc.prems(3) [of k] by simp
  then have f1: "file_end (SS lsm) (SC lsm) k ?K < 18446744073709551616"
    by (simp add: file_end_max [OF pos(1) k])
  obtain y1 where y1: "lov_stripe_size lsm (loi_kms ?loi) (int k) = Some y1"
      "unat y1 = file_end (SS lsm) (SC lsm) k ?K"
    using lov_stripe_size_nat [OF ok k f1] by blast
  let ?t = "if lvb_size (loi_lvb ?loi) > loi_kms ?loi then lvb_size (loi_lvb ?loi) else loi_kms ?loi"
  have t: "unat ?t = max ?K ?Z" by (simp add: word_less_nat_alt max_def)
  then obtain y2 where y2: "lov_stripe_size lsm ?t (int k) = Some y2"
      "unat y2 = file_end (SS lsm) (SC lsm) k (max ?K ?Z)"
    using lov_stripe_size_nat [OF ok k, of ?t] f2 by auto
  have "\<not> OST_LVB_IS_ERR (lvb_blocks (loi_lvb ?loi))" "\<not> length (lsm_oinfo lsm) \<le> k"
    using Suc.prems(2) [of k] k len by simp_all
  then have "\<exists>st'. lov_merge_one lsm k st = Some st' \<and> ms_rc st' = 0 \<and>
      ms_kms st' = (if y1 > ms_kms st then y1 else ms_kms st) \<and>
      lvb_size (ms_lvb st') = (if y2 > lvb_size (ms_lvb st) then y2 else lvb_size (ms_lvb st))"
    using y1(1) y2(1) st(2) by (simp add: lov_merge_one_def Let_def)
  then obtain st' where st': "lov_merge_one lsm k st = Some st'" "ms_rc st' = 0"
      "unat (ms_kms st') = max (unat (ms_kms st)) (unat y1)"
      "unat (lvb_size (ms_lvb st')) = max (unat (lvb_size (ms_lvb st))) (unat y2)"
    by (auto simp: word_less_nat_alt max_def)
  have comm: "max (Max (insert 0 (g ` {..<k}))) (g k) = Max (insert 0 (g ` {..<Suc k}))" for g :: "nat \<Rightarrow> nat"
    using Max_insert [of "insert 0 (g ` {..<k})" "g k"]
    by (simp only: lessThan_Suc image_insert insert_commute [of 0] max.commute) simp
  have "ofold (lov_merge_one lsm) [0..<Suc k]
        \<lparr>ms_lvb = lvb\<lparr>lvb_size := 0, lvb_blocks := 0\<rparr>, ms_kms = 0, ms_rc = 0\<rparr> = Some st'"
    using st st' by simp
  moreover have "unat (ms_kms st') = Max (insert 0 ((\<lambda>i. file_end (SS lsm) (SC lsm) i
      (unat (loi_kms (lsm_oinfo lsm ! i)))) ` {..<Suc k}))"
    unfolding st'(3) K y1(2) by (rule comm)
  moreover have "unat (lvb_size (ms_lvb st')) = Max (insert 0 ((\<lambda>i. file_end (SS lsm) (SC lsm) i
      (max (unat (loi_kms (lsm_oinfo lsm ! i))) (unat (lvb_size (loi_lvb (lsm_oinfo lsm ! i)))))) ` {..<Suc k}))"
    unfolding st'(4) Z y2(2) by (rule comm)
  ultimately show ?case using st'(2) by blast
qed

lemma lov_adjust_shrink_loop:
  assumes ok: "lsm_sane lsm" and k: "k \<le> SC lsm" and len: "SC lsm \<le> length (lsm_oinfo lsm)"
    and neof: "sz \<noteq> OBD_OBJECT_EOF"
  shows "\<exists>lsm'. ofold (lov_adjust_shrink_one sz) [0..<k] lsm = Some lsm' \<and>
      lsm' = lsm\<lparr>lsm_oinfo := lsm_oinfo lsm'\<rparr> \<and> length (lsm_oinfo lsm') = length (lsm_oinfo lsm) \<and>
      (\<forall>i. lvb_blocks (loi_lvb (lsm_oinfo lsm' ! i)) = lvb_blocks (loi_lvb (lsm_oinfo lsm ! i))) \<and>
      (\<forall>i<k. unat (loi_kms (lsm_oinfo lsm' ! i)) = obj_size (SS lsm) (SC lsm) (unat sz) i \<and>
         lvb_size (loi_lvb (lsm_oinfo lsm' ! i)) = loi_kms (lsm_oinfo lsm' ! i))"
  using k
proof (induction k)
  case 0
  then show ?case by simp
next
  case (Suc k)
  then obtain lsm' where l: "ofold (lov_adjust_shrink_one sz) [0..<k] lsm = Some lsm'"
      "lsm' = lsm\<lparr>lsm_oinfo := lsm_oinfo lsm'\<rparr>" "length (lsm_oinfo lsm') = length (lsm_oinfo lsm)"
    and blk: "\<forall>i. lvb_blocks (loi_lvb (lsm_oinfo lsm' ! i)) = lvb_blocks (loi_lvb (lsm_oinfo lsm ! i))"
    and old: "\<forall>i<k. unat (loi_kms (lsm_oinfo lsm' ! i)) = obj_size (SS lsm) (SC lsm) (unat sz) i \<and>
         lvb_size (loi_lvb (lsm_oinfo lsm' ! i)) = loi_kms (lsm_oinfo lsm' ! i)"
    and "k < SC lsm" by fastforce
  have same: "SS lsm' = SS lsm" "SC lsm' = SC lsm" "lsm_sane lsm'"
    using ok by (subst l(2); simp add: lsm_sane_def)+
  obtain x where x: "lov_size_to_stripe lsm' sz (int k) = Some x"
      "unat x = obj_size (SS lsm) (SC lsm) (unat sz) k"
    using lov_size_to_stripe_nat [OF same(3) _ neof, of k] same \<open>k < SC lsm\<close> by auto
  let ?loi = "lsm_oinfo lsm' ! k"
  let ?new = "loi_kms_set x (?loi\<lparr>loi_lvb := (loi_lvb ?loi)\<lparr>lvb_size := x\<rparr>\<rparr>)"
  let ?lsm = "lsm'\<lparr>lsm_oinfo := (lsm_oinfo lsm')[k := ?new]\<rparr>"
  have k: "k < length (lsm_oinfo lsm')" using l(3) len \<open>k < SC lsm\<close> by simp
  then have "ofold (lov_adjust_shrink_one sz) [0..<Suc k] lsm = Some ?lsm"
    using l(1) x(1) by (simp add: lov_adjust_shrink_one_def Let_def)
  moreover have "?lsm = lsm\<lparr>lsm_oinfo := lsm_oinfo ?lsm\<rparr>" by (subst l(2)) simp
  moreover have "lvb_blocks (loi_lvb (lsm_oinfo ?lsm ! i)) = lvb_blocks (loi_lvb (lsm_oinfo lsm ! i))" for i
    using blk k by (cases "i = k") (simp_all add: loi_kms_set_def)
  moreover have "unat (loi_kms (lsm_oinfo ?lsm ! i)) = obj_size (SS lsm) (SC lsm) (unat sz) i \<and>
         lvb_size (loi_lvb (lsm_oinfo ?lsm ! i)) = loi_kms (lsm_oinfo ?lsm ! i)" if "i < Suc k" for i
    using old k x(2) that by (cases "i = k") (simp_all add: loi_kms_set_def)
  ultimately show ?case using l(3) by (intro exI [of _ ?lsm]) simp
qed

lemma Max_insert_0_eq:
  fixes k x :: nat
  assumes "\<And>i. i < k \<Longrightarrow> g i \<le> x" "0 < x \<Longrightarrow> \<exists>i<k. g i = x"
  shows "Max (insert 0 (g ` {..<k})) = x"
  using assms by (intro Max_eqI) (auto intro: rev_image_eqI)

section \<open>Properties\<close>

text \<open>A two-stripe file with 64 KiB stripes, for the witnesses.\<close>

definition lsm_ex :: lov_stripe_md where
  "lsm_ex = (let loi = \<lparr>loi_kms_valid = False, loi_kms = 0, loi_lvb = \<lparr>lvb_size = 0, lvb_mtime = 0,
       lvb_atime = 0, lvb_ctime = 0, lvb_blocks = 8\<rparr>\<rparr> in
     \<lparr>lsm_magic = LOV_MAGIC_V1, lsm_stripe_size = 65536, lsm_stripe_count = 2, lsm_oinfo = [loi, loi]\<rparr>)"

lemma lsm_ex_sane: "lsm_sane lsm_ex" "unat (lsm_stripe_count lsm_ex) = 2"
  "length (lsm_oinfo lsm_ex) = 2"
  "\<forall>loi \<in> set (lsm_oinfo lsm_ex). \<not> OST_LVB_IS_ERR (lvb_blocks (loi_lvb loi))"
  by (simp_all add: lsm_ex_def lsm_sane_def lsm_op_find_def OST_LVB_IS_ERR_def OST_LVB_ERR_MASK_def Let_def)

text \<open>
  (C4) Size accounting: when \<open>lov_size_to_stripe\<close> distributes a file size over the
  stripe objects, no call fails and the object sizes add up to exactly the file size.
\<close>

theorem lov_sizes_partition:
  assumes "lsm_sane lsm" and "sz \<noteq> OBD_OBJECT_EOF"
  shows "\<exists>f. (\<forall>s < unat (lsm_stripe_count lsm). lov_size_to_stripe lsm sz (int s) = Some (f s)) \<and>
             (\<Sum>s < unat (lsm_stripe_count lsm). unat (f s)) = unat sz"
proof -
  obtain f where f: "\<And>s. s < SC lsm \<Longrightarrow> lov_size_to_stripe lsm sz (int s) = Some (f s) \<and>
      unat (f s) = obj_size (SS lsm) (SC lsm) (unat sz) s"
    using lov_size_to_stripe_nat [OF assms(1) _ assms(2)] by metis
  then have "(\<Sum>s<SC lsm. unat (f s)) = (\<Sum>s<SC lsm. obj_size (SS lsm) (SC lsm) (unat sz) s)"
    by simp
  also have "\<dots> = unat sz" using lsm_sane_pos [OF assms(1)] by (rule sum_obj_size)
  finally show ?thesis using f by blast
qed

theorem lov_sizes_partition_witness:
  "lsm_sane lsm_ex \<and> (\<exists>f. (\<forall>s < unat (lsm_stripe_count lsm_ex).
      lov_size_to_stripe lsm_ex 200000 (int s) = Some (f s)) \<and>
      (\<Sum>s < unat (lsm_stripe_count lsm_ex). unat (f s)) = unat (200000 :: u64))"
  using lov_sizes_partition [of lsm_ex 200000] lsm_ex_sane(1) by simp

text \<open>
  (C5) Address round trip: for every file offset below \<open>OBD_OBJECT_EOF\<close>,
  \<open>lov_stripe_number\<close> names a stripe of the file, \<open>lov_stripe_offset\<close> places the offset
  inside that stripe's object without clamping, and \<open>lov_stripe_size\<close> of an object that
  ends with that byte gives back the file size that ends with the offset.
\<close>

theorem lov_stripe_roundtrip:
  assumes ok: "lsm_sane lsm" and cnt: "unat (lsm_stripe_count lsm) < 2 ^ 31"
    and neof: "off \<noteq> OBD_OBJECT_EOF"
  shows "\<exists>s y. lov_stripe_number lsm off = Some s \<and> 0 \<le> s \<and> s < int (unat (lsm_stripe_count lsm)) \<and>
           lov_stripe_offset lsm off s = Some (0, y) \<and> lov_stripe_size lsm (y + 1) s = Some (off + 1)"
proof -
  note pos = lsm_sane_pos [OF ok]
  define s where "s = unat off mod (SS lsm * SC lsm) div SS lsm"
  have "unat off mod (SS lsm * SC lsm) < SC lsm * SS lsm" using pos by (simp add: mult.commute)
  then have s: "s < SC lsm" unfolding s_def by (simp add: less_mult_imp_div_less)
  obtain ops where ops: "lsm_op_find (lsm_magic lsm) = Some ops" using ok by (auto simp: lsm_sane_def)
  let ?d = "off mod lsm_stripe_by_offset ops lsm div ucast (lsm_stripe_size lsm)"
  have d: "unat ?d = s" by (simp add: unat_div unat_mod unat_swidth s_def)
  have "unat (ucast ?d :: u32) = s"
    using d s cnt by (simp add: unsigned_ucast_eq take_bit_nat_eq_self_iff)
  then have "sint (ucast ?d :: u32) = int s"
    using s cnt by (simp add: sint_uint uint_nat signed_take_bit_int_eq_self)
  then have num: "lov_stripe_number lsm off = Some (int s)" using ops by (simp add: lov_stripe_number_def)
  have "\<not> unat off mod (SS lsm * SC lsm) < s * SS lsm" by (simp add: s_def not_less)
  then obtain y where y: "lov_stripe_offset lsm off (int s) = Some (0, y)"
    and uy: "unat y = obj_size (SS lsm) (SC lsm) (unat off) s"
    using lov_stripe_offset_nat [OF ok s neof] by (auto simp: s_def)
  have off: "file_off (SS lsm) (SC lsm) s (unat y) = unat off"
    unfolding uy using pos(1) s s_def [symmetric] by (rule file_off_obj_size)
  have "unat y \<le> unat off" unfolding uy using obj_off_le [OF pos, of "unat off"]
    by (simp add: obj_size_def)
  moreover have "unat off < 18446744073709551615"
    using u64_not_EOF [OF neof] unat_lt_u64 [of "off + 1"] by linarith
  ultimately have uy1: "unat (y + 1) = unat y + 1" by (simp add: unat_simps)
  then have fe: "file_end (SS lsm) (SC lsm) s (unat (y + 1)) = unat (off + 1)"
    using off u64_not_EOF [OF neof] by (simp add: file_end_def)
  then obtain z where "lov_stripe_size lsm (y + 1) (int s) = Some z" "unat z = unat (off + 1)"
    using lov_stripe_size_nat [OF ok s, of "y + 1"] unat_lt_u64 [of "off + 1"] by auto
  then have "lov_stripe_size lsm (y + 1) (int s) = Some (off + 1)" by (simp add: word_unat_eq_iff)
  moreover have "int s < int (SC lsm)" using s by (simp only: of_nat_less_iff)
  ultimately show ?thesis using num y of_nat_0_le_iff by blast
qed

theorem lov_stripe_roundtrip_witness:
  "lsm_sane lsm_ex \<and> (\<exists>s y. lov_stripe_number lsm_ex 200000 = Some s \<and> 0 \<le> s \<and>
     s < int (unat (lsm_stripe_count lsm_ex)) \<and> lov_stripe_offset lsm_ex 200000 s = Some (0, y) \<and>
     lov_stripe_size lsm_ex (y + 1) s = Some (200000 + 1))"
  using lov_stripe_roundtrip [of lsm_ex 200000] lsm_ex_sane by simp

text \<open>
  (C6) Extent intersection: \<open>lov_stripe_intersects\<close> on the file extent
  \<open>[start, fin]\<close> returns 0 exactly when no byte of the extent lies in the stripe's
  object, and otherwise returns 1 with the object extent \<open>[o1, o2]\<close> that holds exactly
  the bytes of the file extent.
\<close>

theorem lov_stripe_intersects_exact:
  assumes ok: "lsm_sane lsm" and s: "s < unat (lsm_stripe_count lsm)"
    and le: "start \<le> fin" and neof: "fin \<noteq> OBD_OBJECT_EOF"
  defines "bytes \<equiv> {y. \<exists>x. unat start \<le> x \<and> x \<le> unat fin \<and>
      x = file_off (unat (lsm_stripe_size lsm)) (unat (lsm_stripe_count lsm)) s y}"
  shows "\<exists>b o1 o2. lov_stripe_intersects lsm (int s) start fin = Some (b, o1, o2) \<and>
     (b = 0 \<longrightarrow> bytes = {}) \<and> (b \<noteq> 0 \<longrightarrow> b = 1 \<and> o1 \<le> o2 \<and> bytes = {unat o1..unat o2})"
proof -
  note pos = lsm_sane_pos [OF ok] 
  let ?f = "\<lambda>x. obj_size (SS lsm) (SC lsm) x s"
  note gal = less_obj_size_iff [OF pos(1) s]
  have B: "bytes = {?f (unat start)..<?f (Suc (unat fin))}"
  proof (rule set_eqI)
    fix y
    have "y \<in> bytes \<longleftrightarrow> unat start \<le> file_off (SS lsm) (SC lsm) s y \<and>
        file_off (SS lsm) (SC lsm) s y < Suc (unat fin)" by (simp add: bytes_def less_Suc_eq_le)
    also have "\<dots> \<longleftrightarrow> ?f (unat start) \<le> y \<and> y < ?f (Suc (unat fin))"
      using gal [of y "unat start"] gal [of y "Suc (unat fin)"] by linarith
    finally show "y \<in> bytes \<longleftrightarrow> y \<in> {?f (unat start)..<?f (Suc (unat fin))}" by simp
  qed
  have sneof: "start \<noteq> OBD_OBJECT_EOF" using le neof by (metis word_n1_ge order_antisym)
  define side where "side x = (if x mod (SS lsm * SC lsm) < s * SS lsm then -1
      else if x mod (SS lsm * SC lsm) div SS lsm = s then 0 else (1::int))" for x
  obtain o1 where o1: "lov_stripe_offset lsm start (int s) = Some (side (unat start), o1)"
      "unat o1 = ?f (unat start)"
    using lov_stripe_offset_nat [OF ok s sneof] by (auto simp: side_def)
  obtain o2 where o2: "lov_stripe_offset lsm fin (int s) = Some (side (unat fin), o2)"
      "unat o2 = ?f (unat fin)"
    using lov_stripe_offset_nat [OF ok s neof] by (auto simp: side_def)
  have suc: "?f (Suc x) = (if side x = 0 then Suc (?f x) else ?f x)" for x
  proof (cases "side x = 0")
    case True
    then have fx: "file_off (SS lsm) (SC lsm) s (?f x) = x"
      by (intro file_off_obj_size [OF pos(1) s]) (auto simp: side_def split: if_splits)
    then have "?f x < ?f (Suc x)" using gal by simp
    moreover have "\<not> Suc (?f x) < ?f (Suc x)"
      using gal [of "Suc (?f x)" "Suc x"] file_off_strict_mono [OF pos(1) s, of "?f x" "Suc (?f x)"] fx by simp
    ultimately show ?thesis using True by simp
  next
    case False
    have "file_off (SS lsm) (SC lsm) s y \<noteq> x" for y
    proof
      assume a: "file_off (SS lsm) (SC lsm) s y = x"
      have "x mod (SS lsm * SC lsm) div SS lsm = s" using file_off_stripe(1) [OF pos(1) s, of y] a by simp
      then have "side x = 0"
        using div_times_less_eq_dividend [of "x mod (SS lsm * SC lsm)" "SS lsm"] by (simp add: side_def not_less)
      then show False using False by simp
    qed
    then have "y < ?f (Suc x) \<longleftrightarrow> y < ?f x" for y using gal by (simp add: less_Suc_eq)
    then have "?f (Suc x) = ?f x" by (metis less_irrefl linorder_neqE_nat)
    then show ?thesis using False by simp
  qed
  have mono: "?f (unat start) \<le> ?f (unat fin)"
    using gal [of "?f (unat fin)" "unat start"] gal [of "?f (unat fin)" "unat fin"] le
    by (force simp: word_le_nat_alt not_less[symmetric])
  show ?thesis
  proof (cases "side (unat fin) = 0")
    case True
    then have "bytes = {unat o1..unat o2}" using B suc o1 o2 by (auto simp: less_Suc_eq_le)
    then show ?thesis using True o1 o2 mono
      by (auto simp: lov_stripe_intersects_def word_le_nat_alt)
  next
    case f: False
    then have B': "bytes = {unat o1..<unat o2}" using B suc o1 o2 by simp
    show ?thesis
    proof (cases "o1 = o2")
      case True
      have "side (unat start) \<noteq> 0"
      proof
        assume a: "side (unat start) = 0"
        then have "start \<noteq> fin" using f by auto
        then have "Suc (unat start) \<le> unat fin" using le by (simp add: word_le_nat_alt word_unat_eq_iff)
        then have "?f (Suc (unat start)) \<le> ?f (unat fin)"
          using gal [of "?f (unat fin)" "Suc (unat start)"] gal [of "?f (unat fin)" "unat fin"] by force
        then show False using suc [of "unat start"] a True o1 o2 by simp
      qed
      then show ?thesis using True f B' o1 o2 by (auto simp: lov_stripe_intersects_def)
    next
      case False
      then have lt: "unat o1 < unat o2" using mono o1 o2 by (simp add: word_unat_eq_iff)
      then have "1 \<le> o2" by (simp add: word_le_nat_alt)
      then have u: "unat (o2 - 1) = unat o2 - 1" by (simp add: unat_simps)
      then have "bytes = {unat o1..unat (o2 - 1)}" using B' lt by auto
      then show ?thesis using False f o1 o2 lt u
        by (auto simp: lov_stripe_intersects_def word_le_nat_alt)
    qed
  qed
qed

theorem lov_stripe_intersects_exact_witness:
  "lsm_sane lsm_ex \<and> (\<exists>b o1 o2. lov_stripe_intersects lsm_ex (int 1) 70000 140000 = Some (b, o1, o2) \<and>
     (b = 0 \<longrightarrow> {y. \<exists>x. unat (70000 :: u64) \<le> x \<and> x \<le> unat (140000 :: u64) \<and>
        x = file_off (unat (lsm_stripe_size lsm_ex)) (unat (lsm_stripe_count lsm_ex)) 1 y} = {}) \<and>
     (b \<noteq> 0 \<longrightarrow> b = 1 \<and> o1 \<le> o2 \<and> {y. \<exists>x. unat (70000 :: u64) \<le> x \<and> x \<le> unat (140000 :: u64) \<and>
        x = file_off (unat (lsm_stripe_size lsm_ex)) (unat (lsm_stripe_count lsm_ex)) 1 y} =
        {unat o1..unat o2}))"
  using lov_stripe_intersects_exact [OF lsm_ex_sane(1), of 1 70000 140000] lsm_ex_sane(1)
  by (simp add: lsm_ex_sane(2))

text \<open>
  (C7) Truncate, then merge: after \<open>lov_adjust_kms\<close> has shrunk every object to its share
  of a file size, \<open>lov_merge_lvb_kms\<close> over the stripes reports exactly that size, both as
  the known minimum size and as the merged size, with return code 0.
\<close>

theorem lov_adjust_kms_shrink_merge:
  assumes ok: "lsm_sane lsm" and len: "length (lsm_oinfo lsm) = unat (lsm_stripe_count lsm)"
    and neof: "sz \<noteq> OBD_OBJECT_EOF"
    and noerr: "\<forall>loi \<in> set (lsm_oinfo lsm). \<not> OST_LVB_IS_ERR (lvb_blocks (loi_lvb loi))"
  shows "\<exists>lsm' lvb'. lov_adjust_kms lsm sz True = Some lsm' \<and>
           lov_merge_lvb_kms lsm' lvb = Some (0, lvb', sz) \<and> lvb_size lvb' = sz"
proof -
  note pos = lsm_sane_pos [OF ok]
  obtain lsm' where l: "ofold (lov_adjust_shrink_one sz) [0..<SC lsm] lsm = Some lsm'"
      "lsm' = lsm\<lparr>lsm_oinfo := lsm_oinfo lsm'\<rparr>" "length (lsm_oinfo lsm') = length (lsm_oinfo lsm)"
    and blk: "\<forall>i. lvb_blocks (loi_lvb (lsm_oinfo lsm' ! i)) = lvb_blocks (loi_lvb (lsm_oinfo lsm ! i))"
    and new: "\<And>i. i < SC lsm \<Longrightarrow> unat (loi_kms (lsm_oinfo lsm' ! i)) = obj_size (SS lsm) (SC lsm) (unat sz) i \<and>
         lvb_size (loi_lvb (lsm_oinfo lsm' ! i)) = loi_kms (lsm_oinfo lsm' ! i)"
    using lov_adjust_shrink_loop [OF ok order_refl _ neof] len by auto
  have same: "SS lsm' = SS lsm" "SC lsm' = SC lsm" "lsm_sane lsm'"
    using ok by (subst l(2); simp add: lsm_sane_def)+
  have max: "Max (insert 0 ((\<lambda>i. file_end (SS lsm) (SC lsm) i (obj_size (SS lsm) (SC lsm) (unat sz) i)) ` {..<SC lsm})) = unat sz"
  proof (rule Max_insert_0_eq)
    show "file_end (SS lsm) (SC lsm) i (obj_size (SS lsm) (SC lsm) (unat sz) i) \<le> unat sz" if "i < SC lsm" for i
      using pos(1) that by (rule file_end_obj_size_le)
    assume p: "0 < unat sz"
    let ?s = "(unat sz - 1) mod (SS lsm * SC lsm) div SS lsm"
    have "?s < SC lsm" using pos by (simp add: less_mult_imp_div_less mult.commute)
    then show "\<exists>i<SC lsm. file_end (SS lsm) (SC lsm) i (obj_size (SS lsm) (SC lsm) (unat sz) i) = unat sz"
      using file_end_obj_size_last [OF pos p refl] by blast
  qed
  have "\<exists>st. ofold (lov_merge_one lsm') [0..<SC lsm']
        \<lparr>ms_lvb = lvb\<lparr>lvb_size := 0, lvb_blocks := 0\<rparr>, ms_kms = 0, ms_rc = 0\<rparr> = Some st \<and> ms_rc st = 0 \<and>
      unat (ms_kms st) = Max (insert 0 ((\<lambda>i. file_end (SS lsm') (SC lsm') i (unat (loi_kms (lsm_oinfo lsm' ! i)))) ` {..<SC lsm'})) \<and>
      unat (lvb_size (ms_lvb st)) = Max (insert 0 ((\<lambda>i. file_end (SS lsm') (SC lsm') i
         (max (unat (loi_kms (lsm_oinfo lsm' ! i))) (unat (lvb_size (loi_lvb (lsm_oinfo lsm' ! i)))))) ` {..<SC lsm'}))"
  proof (rule lov_merge_loop [OF same(3) order_refl])
    show "SC lsm' \<le> length (lsm_oinfo lsm')" using l(3) len same by simp
    show "\<not> OST_LVB_IS_ERR (lvb_blocks (loi_lvb (lsm_oinfo lsm' ! i)))" if "i < SC lsm'" for i
      using noerr blk that same len by simp
    show "file_end (SS lsm') (SC lsm') i (max (unat (loi_kms (lsm_oinfo lsm' ! i)))
        (unat (lvb_size (loi_lvb (lsm_oinfo lsm' ! i))))) < 2 ^ 64" if "i < SC lsm'" for i
      using new [of i] that same le_less_trans [OF file_end_obj_size_le [OF pos(1), of i] unat_lt_u64 [of sz]]
      by simp
  qed
  then obtain st where st: "ofold (lov_merge_one lsm') [0..<SC lsm']
        \<lparr>ms_lvb = lvb\<lparr>lvb_size := 0, lvb_blocks := 0\<rparr>, ms_kms = 0, ms_rc = 0\<rparr> = Some st" "ms_rc st = 0"
      "unat (ms_kms st) = unat sz" "unat (lvb_size (ms_lvb st)) = unat sz"
    using new same max by (auto cong: image_cong_simp)
  then show ?thesis
    using l(1) by (simp add: lov_adjust_kms_def lov_merge_lvb_kms_def word_unat_eq_iff)
qed

theorem lov_adjust_kms_shrink_merge_witness:
  "lsm_sane lsm_ex \<and> (\<exists>lsm' lvb'. lov_adjust_kms lsm_ex 200000 True = Some lsm' \<and>
     lov_merge_lvb_kms lsm' (loi_lvb (hd (lsm_oinfo lsm_ex))) = Some (0, lvb', 200000) \<and> lvb_size lvb' = 200000)"
  using lov_adjust_kms_shrink_merge [of lsm_ex 200000] lsm_ex_sane by simp

end
