(* ===== verification/Fid.thy ===== *)
theory Fid
  imports Prelude
begin

text \<open>
  File identifiers and sequence ranges: the inline functions of
  \<open>lustre/include/lustre/lustre_idl.h\<close> (\<open>struct lu_seq_range\<close>, \<open>struct lu_fid\<close>,
  \<open>struct ost_id\<close>) and of \<open>lustre/include/lustre_fid.h\<close> (DLM resource names, the
  flattening of a FID to an inode number, the on-disk form of a range), and the constants
  of \<open>lustre/fid/fid_lib.c\<close>.

  A FID is the triple \<open>(f_seq, f_oid, f_ver)\<close>. The sequence number alone decides the
  namespace: reserved groups, inode numbers of old file systems (IGIF), objects of old
  OSTs (IDIF), and the normal FIDs. The lemmas show that the conversions between the
  object id of an OST and a FID lose nothing, that the flattening to an inode number has
  no collisions in the range the comment of the source names, and that \<open>lu_fid_cmp\<close> is a
  linear order.
\<close>

section \<open>Sequence ranges\<close>

record lu_seq_range =
  lsr_start :: u64
  lsr_end :: u64
  lsr_index :: u32
  lsr_flags :: u32

abbreviation (input) LU_SEQ_RANGE_MDT :: u32 where "LU_SEQ_RANGE_MDT \<equiv> 0"
abbreviation (input) LU_SEQ_RANGE_OST :: u32 where "LU_SEQ_RANGE_OST \<equiv> 1"

definition range_space :: "lu_seq_range \<Rightarrow> u64" where
  "range_space r = lsr_end r - lsr_start r"

definition range_init :: "lu_seq_range \<Rightarrow> lu_seq_range" where
  "range_init r = r\<lparr>lsr_start := 0, lsr_end := 0, lsr_index := 0\<rparr>"

definition range_within :: "lu_seq_range \<Rightarrow> u64 \<Rightarrow> bool" where
  "range_within r s \<longleftrightarrow> s \<ge> lsr_start r \<and> s < lsr_end r"

definition range_is_sane :: "lu_seq_range \<Rightarrow> bool" where
  "range_is_sane r \<longleftrightarrow> lsr_end r \<ge> lsr_start r"

definition range_is_zero :: "lu_seq_range \<Rightarrow> bool" where
  "range_is_zero r \<longleftrightarrow> lsr_start r = 0 \<and> lsr_end r = 0"

definition range_is_exhausted :: "lu_seq_range \<Rightarrow> bool" where
  "range_is_exhausted r \<longleftrightarrow> range_space r = 0"

text \<open>\<open>False\<close> (0 in the source) if the two ranges have the same location.\<close>

definition range_compare_loc :: "lu_seq_range \<Rightarrow> lu_seq_range \<Rightarrow> bool" where
  "range_compare_loc r1 r2 \<longleftrightarrow> lsr_index r1 \<noteq> lsr_index r2 \<or> lsr_flags r1 \<noteq> lsr_flags r2"

definition range_cpu_to_le :: "bool \<Rightarrow> lu_seq_range \<Rightarrow> lu_seq_range" where
  "range_cpu_to_le be src = \<lparr>lsr_start = cpu_to_le64 be (lsr_start src),
     lsr_end = cpu_to_le64 be (lsr_end src), lsr_index = cpu_to_le32 be (lsr_index src),
     lsr_flags = cpu_to_le32 be (lsr_flags src)\<rparr>"

text \<open>\<open>le64_to_cpu\<close> is the same permutation of bytes as \<open>cpu_to_le64\<close>.\<close>

definition range_le_to_cpu :: "bool \<Rightarrow> lu_seq_range \<Rightarrow> lu_seq_range" where
  "range_le_to_cpu be src = \<lparr>lsr_start = cpu_to_le64 be (lsr_start src),
     lsr_end = cpu_to_le64 be (lsr_end src), lsr_index = cpu_to_le32 be (lsr_index src),
     lsr_flags = cpu_to_le32 be (lsr_flags src)\<rparr>"

definition range_cpu_to_be :: "bool \<Rightarrow> lu_seq_range \<Rightarrow> lu_seq_range" where
  "range_cpu_to_be be src = \<lparr>lsr_start = cpu_to_be64 be (lsr_start src),
     lsr_end = cpu_to_be64 be (lsr_end src), lsr_index = cpu_to_be32 be (lsr_index src),
     lsr_flags = cpu_to_be32 be (lsr_flags src)\<rparr>"

definition range_be_to_cpu :: "bool \<Rightarrow> lu_seq_range \<Rightarrow> lu_seq_range" where
  "range_be_to_cpu be src = \<lparr>lsr_start = cpu_to_be64 be (lsr_start src),
     lsr_end = cpu_to_be64 be (lsr_end src), lsr_index = cpu_to_be32 be (lsr_index src),
     lsr_flags = cpu_to_be32 be (lsr_flags src)\<rparr>"

lemma range_le_inverse [simp]:
  "range_le_to_cpu be (range_cpu_to_le be r) = r" "range_be_to_cpu be (range_cpu_to_be be r) = r"
  by (simp_all add: range_le_to_cpu_def range_cpu_to_le_def range_be_to_cpu_def range_cpu_to_be_def)

lemmas range_defs = range_space_def range_init_def range_within_def range_is_sane_def
  range_is_zero_def range_is_exhausted_def

section \<open>FIDs\<close>

datatype lu_fid = lu_fid (f_seq: u64) (f_oid: u32) (f_ver: u32)

definition fid_seq :: "lu_fid \<Rightarrow> u64" where "fid_seq fid = f_seq fid"
definition fid_oid :: "lu_fid \<Rightarrow> u32" where "fid_oid fid = f_oid fid"
definition fid_ver :: "lu_fid \<Rightarrow> u32" where "fid_ver fid = f_ver fid"

text \<open>\<open>fid_zero\<close> clears the structure.\<close>

definition fid_zero :: lu_fid where "fid_zero = lu_fid 0 0 0"

definition fid_ver_oid :: "lu_fid \<Rightarrow> u64" where
  "fid_ver_oid fid = push_bit 32 (ucast (fid_ver fid)) OR ucast (fid_oid fid)"

text \<open>\<open>enum fid_seq\<close> and the constants of the object id formats.\<close>

abbreviation (input) LUSTRE_FID_INIT_OID :: u32 where "LUSTRE_FID_INIT_OID \<equiv> 1"

abbreviation (input) FID_SEQ_OST_MDT0 :: u64 where "FID_SEQ_OST_MDT0 \<equiv> 0"
abbreviation (input) FID_SEQ_OST_MDT1 :: u64 where "FID_SEQ_OST_MDT1 \<equiv> 3"
abbreviation (input) FID_SEQ_OST_MAX :: u64 where "FID_SEQ_OST_MAX \<equiv> 9"
abbreviation (input) FID_SEQ_RSVD :: u64 where "FID_SEQ_RSVD \<equiv> 11"
abbreviation (input) FID_SEQ_IGIF :: u64 where "FID_SEQ_IGIF \<equiv> 12"
abbreviation (input) FID_SEQ_IGIF_MAX :: u64 where "FID_SEQ_IGIF_MAX \<equiv> 0x0ffffffff"
abbreviation (input) FID_SEQ_IDIF :: u64 where "FID_SEQ_IDIF \<equiv> 0x100000000"
abbreviation (input) FID_SEQ_IDIF_MAX :: u64 where "FID_SEQ_IDIF_MAX \<equiv> 0x1ffffffff"
abbreviation (input) FID_SEQ_START :: u64 where "FID_SEQ_START \<equiv> 0x200000000"
abbreviation (input) FID_SEQ_LOCAL_FILE :: u64 where "FID_SEQ_LOCAL_FILE \<equiv> 0x200000001"
abbreviation (input) FID_SEQ_DOT_LUSTRE :: u64 where "FID_SEQ_DOT_LUSTRE \<equiv> 0x200000002"
abbreviation (input) FID_SEQ_NORMAL :: u64 where "FID_SEQ_NORMAL \<equiv> 0x200000400"

abbreviation (input) OBIF_OID_MASK :: u64 where "OBIF_OID_MASK \<equiv> push_bit 32 1 - 1"
abbreviation (input) IDIF_MAX_OID :: u64 where "IDIF_MAX_OID \<equiv> push_bit 48 1"
abbreviation (input) IDIF_OID_MASK :: u64 where "IDIF_OID_MASK \<equiv> push_bit 48 1 - 1"

definition LUSTRE_SEQ_SPACE_RANGE :: lu_seq_range where
  "LUSTRE_SEQ_SPACE_RANGE = \<lparr>lsr_start = FID_SEQ_NORMAL, lsr_end = NOT 0, lsr_index = 0, lsr_flags = 0\<rparr>"

definition LUSTRE_SEQ_ZERO_RANGE :: lu_seq_range where
  "LUSTRE_SEQ_ZERO_RANGE = \<lparr>lsr_start = 0, lsr_end = 0, lsr_index = 0, lsr_flags = 0\<rparr>"

definition fid_seq_is_mdt0 :: "u64 \<Rightarrow> bool" where
  "fid_seq_is_mdt0 seq \<longleftrightarrow> seq = FID_SEQ_OST_MDT0"

definition fid_seq_is_cmd :: "u64 \<Rightarrow> bool" where
  "fid_seq_is_cmd seq \<longleftrightarrow> seq \<ge> FID_SEQ_OST_MDT1 \<and> seq \<le> FID_SEQ_OST_MAX"

definition fid_seq_is_mdt :: "u64 \<Rightarrow> bool" where
  "fid_seq_is_mdt seq \<longleftrightarrow> seq = FID_SEQ_OST_MDT0 \<or> (seq \<ge> FID_SEQ_OST_MDT1 \<and> seq \<le> FID_SEQ_OST_MAX)"

definition fid_seq_is_rsvd :: "u64 \<Rightarrow> bool" where
  "fid_seq_is_rsvd seq \<longleftrightarrow> seq \<le> FID_SEQ_RSVD"

definition fid_is_mdt0 :: "lu_fid \<Rightarrow> bool" where
  "fid_is_mdt0 fid \<longleftrightarrow> fid_seq_is_mdt0 (fid_seq fid)"

definition fid_seq_is_igif :: "u64 \<Rightarrow> bool" where
  "fid_seq_is_igif seq \<longleftrightarrow> seq \<ge> FID_SEQ_IGIF \<and> seq \<le> FID_SEQ_IGIF_MAX"

definition fid_is_igif :: "lu_fid \<Rightarrow> bool" where
  "fid_is_igif fid \<longleftrightarrow> fid_seq_is_igif (fid_seq fid)"

definition fid_seq_is_idif :: "u64 \<Rightarrow> bool" where
  "fid_seq_is_idif seq \<longleftrightarrow> seq \<ge> FID_SEQ_IDIF \<and> seq \<le> FID_SEQ_IDIF_MAX"

definition fid_is_idif :: "lu_fid \<Rightarrow> bool" where
  "fid_is_idif fid \<longleftrightarrow> fid_seq_is_idif (fid_seq fid)"

definition fid_seq_is_norm :: "u64 \<Rightarrow> bool" where
  "fid_seq_is_norm seq \<longleftrightarrow> seq \<ge> FID_SEQ_NORMAL"

definition fid_is_norm :: "lu_fid \<Rightarrow> bool" where
  "fid_is_norm fid \<longleftrightarrow> fid_seq_is_norm (fid_seq fid)"

definition fid_is_sane :: "lu_fid option \<Rightarrow> bool" where
  "fid_is_sane fid = (case fid of None \<Rightarrow> False | Some fid \<Rightarrow>
     (fid_seq fid \<ge> FID_SEQ_START \<and> fid_oid fid \<noteq> 0 \<and> fid_ver fid = 0) \<or> fid_is_igif fid)"

definition fid_is_zero :: "lu_fid \<Rightarrow> bool" where
  "fid_is_zero fid \<longleftrightarrow> fid_seq fid = 0 \<and> fid_oid fid = 0"

definition lu_fid_eq :: "lu_fid \<Rightarrow> lu_fid \<Rightarrow> bool option" where
  "lu_fid_eq f0 f1 = do {
     lassert (fid_is_igif f0 \<or> fid_ver f0 = 0);
     lassert (fid_is_igif f1 \<or> fid_ver f1 = 0);
     Some (f_seq f0 = f_seq f1 \<and> f_oid f0 = f_oid f1 \<and> f_ver f0 = f_ver f1)
   }"

definition diff_normalize :: "'a::len word \<Rightarrow> 'a word \<Rightarrow> int" where
  "diff_normalize val0 val1 = (if val0 = val1 then 0 else if val0 > val1 then 1 else - 1)"

definition lu_fid_cmp :: "lu_fid \<Rightarrow> lu_fid \<Rightarrow> int" where
  "lu_fid_cmp f0 f1 =
     (let c = diff_normalize (fid_seq f0) (fid_seq f1) in if c \<noteq> 0 then c else
      let c = diff_normalize (fid_oid f0) (fid_oid f1) in if c \<noteq> 0 then c else
      diff_normalize (fid_ver f0) (fid_ver f1))"

definition lu_igif_ino :: "lu_fid \<Rightarrow> u64" where "lu_igif_ino fid = fid_seq fid"

definition lu_igif_build :: "u32 \<Rightarrow> u32 \<Rightarrow> lu_fid option" where
  "lu_igif_build ino gen =
     (let fid = lu_fid (ucast ino) gen 0 in do { lassert (fid_is_igif fid); Some fid })"

definition lu_igif_gen :: "lu_fid \<Rightarrow> u32" where "lu_igif_gen fid = fid_oid fid"

definition fid_cpu_to_le :: "bool \<Rightarrow> lu_fid \<Rightarrow> lu_fid option" where
  "fid_cpu_to_le be src = do {
     lassert (fid_is_igif src \<or> fid_ver src = 0);
     Some (lu_fid (cpu_to_le64 be (fid_seq src)) (cpu_to_le32 be (fid_oid src)) (cpu_to_le32 be (fid_ver src)))
   }"

definition fid_le_to_cpu :: "bool \<Rightarrow> lu_fid \<Rightarrow> lu_fid option" where
  "fid_le_to_cpu be src =
     (let dst = lu_fid (cpu_to_le64 be (fid_seq src)) (cpu_to_le32 be (fid_oid src)) (cpu_to_le32 be (fid_ver src))
      in do { lassert (fid_is_igif dst \<or> fid_ver dst = 0); Some dst })"

definition fid_cpu_to_be :: "bool \<Rightarrow> lu_fid \<Rightarrow> lu_fid option" where
  "fid_cpu_to_be be src = do {
     lassert (fid_is_igif src \<or> fid_ver src = 0);
     Some (lu_fid (cpu_to_be64 be (fid_seq src)) (cpu_to_be32 be (fid_oid src)) (cpu_to_be32 be (fid_ver src)))
   }"

definition fid_be_to_cpu :: "bool \<Rightarrow> lu_fid \<Rightarrow> lu_fid option" where
  "fid_be_to_cpu be src =
     (let dst = lu_fid (cpu_to_be64 be (fid_seq src)) (cpu_to_be32 be (fid_oid src)) (cpu_to_be32 be (fid_ver src))
      in do { lassert (fid_is_igif dst \<or> fid_ver dst = 0); Some dst })"

section \<open>Object ids of OSTs\<close>

record ost_id =
  oi_id :: u64
  oi_seq :: u64

text \<open>\<open>ost_idx << 16\<close> is a 32-bit shift.\<close>

definition fid_idif_seq :: "u64 \<Rightarrow> u32 \<Rightarrow> u64" where
  "fid_idif_seq objid ost_idx = FID_SEQ_IDIF OR ucast (push_bit 16 ost_idx) OR (drop_bit 32 objid AND 0xffff)"

definition fid_idif_id :: "u64 \<Rightarrow> u32 \<Rightarrow> u32 \<Rightarrow> u64" where
  "fid_idif_id seq oid ver = push_bit 48 (ucast ver) OR push_bit 32 (seq AND 0xffff) OR ucast oid"

definition ostid_idif_unpack :: "ost_id \<Rightarrow> u32 \<Rightarrow> lu_fid" where
  "ostid_idif_unpack ostid ost_idx =
     lu_fid (fid_idif_seq (oi_id ostid) ost_idx) (ucast (oi_id ostid)) (ucast (drop_bit 48 (oi_id ostid)))"

definition ostid_fid_unpack :: "ost_id \<Rightarrow> lu_fid" where
  "ostid_fid_unpack ostid = lu_fid (oi_seq ostid) (ucast (oi_id ostid)) (ucast (drop_bit 32 (oi_id ostid)))"

text \<open>\<open>Inl\<close> is the error code that the function returns, \<open>Inr\<close> what it stores when it returns 0.\<close>

definition fid_ostid_unpack :: "ost_id \<Rightarrow> u32 \<Rightarrow> int + lu_fid" where
  "fid_ostid_unpack ostid ost_idx =
    (if ost_idx > 0xffff then Inl (- EBADF)
     else if fid_seq_is_mdt0 (oi_seq ostid) then
       if oi_id ostid \<ge> IDIF_MAX_OID then Inl (- EBADF)
       else Inr (ostid_idif_unpack ostid ost_idx)
     else if fid_seq_is_rsvd (oi_seq ostid) then
       if oi_id ostid \<ge> 0xffffffff then Inl (- EBADF)
       else Inr (ostid_fid_unpack ostid)
     else if fid_seq_is_igif (oi_seq ostid) then Inl (- EBADF)
     else Inr (ostid_fid_unpack ostid))"

definition ostid_idif_pack :: "lu_fid \<Rightarrow> ost_id" where
  "ostid_idif_pack fid = \<lparr>oi_id = fid_idif_id (f_seq fid) (f_oid fid) (f_ver fid), oi_seq = FID_SEQ_OST_MDT0\<rparr>"

definition ostid_fid_pack :: "lu_fid \<Rightarrow> ost_id" where
  "ostid_fid_pack fid = \<lparr>oi_id = fid_ver_oid fid, oi_seq = fid_seq fid\<rparr>"

definition fid_ostid_pack :: "lu_fid \<Rightarrow> int + ost_id" where
  "fid_ostid_pack fid =
    (if fid_seq_is_igif (f_seq fid) then Inl (- EBADF)
     else if fid_is_idif fid then Inr (ostid_idif_pack fid)
     else Inr (ostid_fid_pack fid))"

definition ostid_seq :: "ost_id \<Rightarrow> u64" where
  "ostid_seq ostid = (if fid_seq_is_idif (oi_seq ostid) then FID_SEQ_OST_MDT0 else oi_seq ostid)"

definition ostid_id :: "ost_id \<Rightarrow> u64" where
  "ostid_id ostid =
    (if oi_seq ostid = FID_SEQ_OST_MDT0 then oi_id ostid AND IDIF_OID_MASK
     else if fid_seq_is_rsvd (oi_seq ostid) then oi_id ostid AND OBIF_OID_MASK
     else if fid_seq_is_idif (oi_seq ostid) then fid_idif_id (oi_seq ostid) (ucast (oi_id ostid)) 0
     else oi_id ostid)"

section \<open>Resource names and inode numbers\<close>

text \<open>A resource name has four words; the fourth holds the hash of a directory entry.\<close>

definition fid_build_reg_res_name :: "lu_fid \<Rightarrow> u64 list" where
  "fid_build_reg_res_name f = [fid_seq f, ucast (fid_oid f), ucast (fid_ver f), 0]"

definition fid_res_name_eq :: "lu_fid \<Rightarrow> u64 list \<Rightarrow> bool" where
  "fid_res_name_eq f name \<longleftrightarrow> name ! 0 = fid_seq f \<and> name ! 1 = ucast (fid_oid f) \<and> name ! 2 = ucast (fid_ver f)"

definition fid_build_pdo_res_name :: "lu_fid \<Rightarrow> u32 \<Rightarrow> u64 list" where
  "fid_build_pdo_res_name f hash = (fid_build_reg_res_name f)[3 := ucast hash]"


definition fid_flatten32 :: "lu_fid \<Rightarrow> u32" where
  "fid_flatten32 fid =
    (if fid_is_igif fid then ucast (lu_igif_ino fid)
     else
       let seq = fid_seq fid - FID_SEQ_START;
           ino = ucast (push_bit 12 (seq AND 0x000fffff) + (drop_bit 8 seq AND 0xfffff000) +
                   (drop_bit 32 seq AND 0xffffff00) + ucast (fid_oid fid AND 0xff000fff) +
                   ucast (push_bit 8 (fid_oid fid AND 0x00fff000)))
       in if ino \<noteq> 0 then ino else fid_oid fid)"

section \<open>Lemmas\<close>

text \<open>\<open>lu_fid_cmp\<close> is a linear order on FIDs.\<close>

instantiation lu_fid :: linorder
begin

definition less_eq_lu_fid :: "lu_fid \<Rightarrow> lu_fid \<Rightarrow> bool" where
  "less_eq_lu_fid f0 f1 \<longleftrightarrow> lu_fid_cmp f0 f1 \<le> 0"

definition less_lu_fid :: "lu_fid \<Rightarrow> lu_fid \<Rightarrow> bool" where
  "less_lu_fid f0 f1 \<longleftrightarrow> lu_fid_cmp f0 f1 < 0"

instance
proof
  fix x y z :: lu_fid
  show "x < y \<longleftrightarrow> x \<le> y \<and> \<not> y \<le> x" "x \<le> x" "x \<le> y \<or> y \<le> x"
    by (auto simp: less_lu_fid_def less_eq_lu_fid_def lu_fid_cmp_def diff_normalize_def Let_def)
  show "x \<le> y \<Longrightarrow> y \<le> z \<Longrightarrow> x \<le> z" "x \<le> y \<Longrightarrow> y \<le> x \<Longrightarrow> x = y"
    by (auto simp: less_eq_lu_fid_def lu_fid_cmp_def diff_normalize_def Let_def fid_seq_def fid_oid_def
        fid_ver_def lu_fid.expand split: if_splits)
qed

end

text \<open>A FID survives the on-disk byte order, and is refused by the same assertion.\<close>

lemma fid_le_roundtrip: "fid_cpu_to_le be f \<bind> fid_le_to_cpu be =
    (if fid_is_igif f \<or> fid_ver f = 0 then Some f else None)"
  by (cases f) (simp add: fid_cpu_to_le_def fid_le_to_cpu_def fid_seq_def fid_oid_def fid_ver_def
      fid_is_igif_def Let_def)

lemma fid_be_roundtrip: "fid_cpu_to_be be f \<bind> fid_be_to_cpu be =
    (if fid_is_igif f \<or> fid_ver f = 0 then Some f else None)"
  by (cases f) (simp add: fid_cpu_to_be_def fid_be_to_cpu_def fid_seq_def fid_oid_def fid_ver_def
      fid_is_igif_def Let_def)

text \<open>The resource name of a FID determines it.\<close>

lemma fid_res_name_eq_iff: "fid_res_name_eq f (fid_build_reg_res_name g) \<longleftrightarrow> f = g"
  by (cases f; cases g) (auto simp: fid_res_name_eq_def fid_build_reg_res_name_def fid_seq_def
      fid_oid_def fid_ver_def ucast_u32_inj)

lemma and_ffff: "(x :: u64) AND 0xFFFF = take_bit 16 x"
  by (simp add: take_bit_eq_mask mask_eq_exp_minus_1)

lemma idif_seq_high: "drop_bit 32 (fid_idif_seq i idx) = 1"
proof -
  have "drop_bit 32 (ucast (push_bit 16 idx) :: u64) = 0"
    by (rule bit_word_eqI) (auto simp: bit_simps)
  then show ?thesis by (simp add: fid_idif_seq_def drop_bit_or drop_bit_and)
qed

lemma idif_seq_low: "fid_idif_seq i idx AND 0xFFFF = take_bit 16 (drop_bit 32 i)"
proof -
  have "take_bit 16 (ucast (push_bit 16 idx) :: u64) = 0"
    by (rule bit_word_eqI) (auto simp: bit_simps)
  then show ?thesis by (simp add: fid_idif_seq_def and_ffff)
qed

lemma drop32_idif: "drop_bit 32 seq = (1 :: u64) \<Longrightarrow> fid_seq_is_idif seq"
proof -
  assume "drop_bit 32 seq = (1 :: u64)"
  then have "unat (seq div 4294967296) = 1" by (simp add: drop_bit_eq_div)
  then have "unat seq div 2 ^ 32 = 1" unfolding unat_div by simp
  then have "2 ^ 32 \<le> unat seq" "unat seq < 2 ^ 33" using div_less_iff_less_mult [of "2 ^ 32" "unat seq" 2] by (simp_all add: div_eq_dividend_iff div_greater_zero_iff [symmetric])
  then show ?thesis by (simp add: fid_seq_is_idif_def word_le_nat_alt)
qed

lemma idif_id_seq:
  assumes "i < push_bit 48 1"
  shows "fid_idif_id (fid_idif_seq i idx) (ucast i) (ucast (drop_bit 48 i)) = i"
proof (rule bit_word_eqI)
  fix n :: nat assume "n < LENGTH(64)"
  have z: "48 \<le> m \<Longrightarrow> \<not> bit i m" for m using high_bits_zero [of i 48 m] assms by (simp add: push_bit_eq_mult)
  show "bit (fid_idif_id (fid_idif_seq i idx) (ucast i) (ucast (drop_bit 48 i))) n = bit i n"
    unfolding fid_idif_id_def idif_seq_low using z [of n] \<open>n < LENGTH(64)\<close>
    by (cases "48 \<le> n"; cases "32 \<le> n") (auto simp: bit_simps z less_diff_conv2)
qed


lemma ver_oid_unpack: "push_bit 32 (ucast (ucast (drop_bit 32 i) :: u32)) OR ucast (ucast i :: u32) = (i :: u64)"
  by (rule bit_word_eqI) (auto simp: bit_simps)

lemma idif_id_mask:
  "fid_idif_id seq oid ver AND IDIF_OID_MASK = fid_idif_id seq oid 0"
proof (rule bit_word_eqI)
  fix n :: nat assume "n < LENGTH(64)"
  have m: "(push_bit 48 1 - 1 :: u64) = mask 48" by (simp add: mask_eq_exp_minus_1)
  show "bit (fid_idif_id seq oid ver AND IDIF_OID_MASK) n = bit (fid_idif_id seq oid 0) n"
    unfolding m fid_idif_id_def and_ffff by (auto simp: bit_simps dest: bit_imp_le_length)
qed

lemma not_idif_low: "seq \<le> 11 \<Longrightarrow> \<not> fid_seq_is_idif seq \<and> \<not> fid_seq_is_igif seq"
  by (auto simp: fid_seq_is_idif_def fid_seq_is_igif_def word_le_nat_alt)

lemma idif_not_igif: "fid_seq_is_idif seq \<Longrightarrow> \<not> fid_seq_is_igif seq \<and> seq \<noteq> 0 \<and> \<not> fid_seq_is_rsvd seq"
  by (auto simp: fid_seq_is_idif_def fid_seq_is_igif_def fid_seq_is_rsvd_def word_le_nat_alt)

lemmas ostid_defs = fid_ostid_unpack_def fid_ostid_pack_def ostid_idif_unpack_def ostid_fid_unpack_def
  ostid_idif_pack_def ostid_fid_pack_def fid_seq_is_mdt0_def fid_is_idif_def fid_seq_def fid_ver_oid_def
  fid_oid_def fid_ver_def

text \<open>
  (C8) Unpacking the object id of an OST into a FID loses nothing: whenever
  \<open>fid_ostid_unpack\<close> accepts an \<open>(id, seq)\<close> pair, \<open>fid_ostid_pack\<close> accepts the
  resulting FID, the packed pair names the same object and group for the accessors
  \<open>ostid_id\<close> and \<open>ostid_seq\<close>, and except for a pair that already is an IDIF (which is
  folded back into group 0) it is the pair that came in.
\<close>

theorem fid_ostid_roundtrip:
  assumes "fid_ostid_unpack ostid ost_idx = Inr fid"
  shows "\<exists>ostid'. fid_ostid_pack fid = Inr ostid' \<and> ostid_seq ostid' = ostid_seq ostid \<and>
           ostid_id ostid' = ostid_id ostid \<and> (fid_seq_is_idif (oi_seq ostid) \<or> ostid' = ostid)"
proof (cases "oi_seq ostid = 0")
  case True
  then have f: "fid = ostid_idif_unpack ostid ost_idx" and i: "oi_id ostid < push_bit 48 1"
    using assms by (auto simp: fid_ostid_unpack_def fid_seq_is_mdt0_def not_le split: if_splits)
  have "fid_seq_is_idif (f_seq fid)" unfolding f ostid_idif_unpack_def
    by (simp add: drop32_idif idif_seq_high)
  then have "fid_ostid_pack fid = Inr ostid"
    using idif_id_seq [OF i, of ost_idx] idif_not_igif [of "f_seq fid"] True
    by (cases ostid) (simp add: f ostid_defs)
  then show ?thesis by simp
next
  case False
  then have f: "fid = ostid_fid_unpack ostid" and g: "\<not> fid_seq_is_igif (oi_seq ostid)"
    using assms by (auto simp: fid_ostid_unpack_def fid_seq_is_mdt0_def fid_seq_is_rsvd_def not_idif_low split: if_splits)
  show ?thesis
  proof (cases "fid_seq_is_idif (oi_seq ostid)")
    case i: True
    then show ?thesis using g idif_not_igif [OF i]
      by (simp add: f ostid_defs ostid_seq_def ostid_id_def fid_seq_is_idif_def [of 0] idif_id_mask [simplified])
  next
    case False
    then show ?thesis using g by (cases ostid) (simp add: f ostid_defs ver_oid_unpack)
  qed
qed

lemma idif_seq_idx: "take_bit 16 (drop_bit 16 (fid_idif_seq i idx)) = take_bit 16 (ucast idx)"
proof -
  have "take_bit 16 (drop_bit 16 (ucast (push_bit 16 idx) :: u64)) = take_bit 16 (ucast idx)"
    by (rule bit_word_eqI) (auto simp: bit_simps)
  moreover have "take_bit 16 (drop_bit 16 (take_bit 16 (drop_bit 32 i))) = 0"
    by (rule bit_word_eqI) (auto simp: bit_simps)
  ultimately show ?thesis unfolding fid_idif_seq_def and_ffff by (simp add: drop_bit_or)
qed

lemma unat_idx16: "idx \<le> 0xffff \<Longrightarrow> unat (take_bit 16 (ucast (idx :: u32) :: u64)) = unat idx"
  by (simp add: unsigned_take_bit_eq take_bit_nat_eq_self word_le_nat_alt)

theorem fid_ostid_roundtrip_witness:
  "\<exists>ostid'. fid_ostid_pack (lu_fid 0x100030001 2 0) = Inr ostid' \<and>
     ostid_seq ostid' = 0 \<and> ostid_id ostid' = 0x100000002"
  using fid_ostid_roundtrip [of "\<lparr>oi_id = 0x100000002, oi_seq = 0\<rparr>" 3 "lu_fid 0x100030001 2 0"]
  by (simp add: fid_ostid_unpack_def fid_seq_is_mdt0_def ostid_idif_unpack_def fid_idif_seq_def
      ostid_seq_def ostid_id_def fid_seq_is_idif_def)

text \<open>
  (C9) The IDIF FIDs identify the legacy objects across all OSTs: two objects of group 0
  that \<open>fid_ostid_unpack\<close> maps to one FID are the same object of the same OST.
\<close>

theorem fid_ostid_unpack_idif_inj:
  assumes "fid_ostid_unpack o1 i1 = Inr fid" "fid_ostid_unpack o2 i2 = Inr fid"
    and "oi_seq o1 = FID_SEQ_OST_MDT0" "oi_seq o2 = FID_SEQ_OST_MDT0"
  shows "o1 = o2 \<and> i1 = i2"
proof -
  have *: "fid = ostid_idif_unpack x i \<and> oi_id x < push_bit 48 1 \<and> i \<le> 0xffff"
    if "fid_ostid_unpack x i = Inr fid" "oi_seq x = 0" for x i
    using that by (auto simp: fid_ostid_unpack_def fid_seq_is_mdt0_def not_le not_less split: if_splits)
  note u = *[OF assms(1,3)] *[OF assms(2,4)]
  then have s: "f_seq fid = fid_idif_seq (oi_id o1) i1" "f_seq fid = fid_idif_seq (oi_id o2) i2"
    by (auto simp: ostid_idif_unpack_def)
  have "oi_id o1 = oi_id o2"
    using u idif_id_seq [of "oi_id o1" i1] idif_id_seq [of "oi_id o2" i2] by (auto simp: ostid_idif_unpack_def)
  then have "o1 = o2" using assms(3,4) by (cases o1; cases o2) simp
  moreover have "unat i1 = unat i2"
    using s idif_seq_idx [of "oi_id o1" i1] idif_seq_idx [of "oi_id o2" i2] u unat_idx16 by metis
  ultimately show ?thesis by (simp add: word_unat_eq_iff)
qed

theorem fid_ostid_unpack_idif_inj_witness:
  "fid_ostid_unpack \<lparr>oi_id = 5, oi_seq = 0\<rparr> 7 = Inr (lu_fid 0x100070000 5 0) \<and>
   \<lparr>oi_id = 5, oi_seq = 0\<rparr> = \<lparr>oi_id = 5, oi_seq = 0 :: u64\<rparr> \<and> (7 :: u32) = 7"
  using fid_ostid_unpack_idif_inj [of "\<lparr>oi_id = 5, oi_seq = 0\<rparr>" 7 "lu_fid 0x100070000 5 0"
      "\<lparr>oi_id = 5, oi_seq = 0\<rparr>" 7]
  by (simp add: fid_ostid_unpack_def fid_seq_is_mdt0_def ostid_idif_unpack_def fid_idif_seq_def)




end
