(* ===== verification/SeqAlloc.thy ===== *)
theory SeqAlloc
  imports Fid
begin

text \<open>
  Allocation of FID sequences, \<open>lustre/fid\<close>: the sequence controller hands out super
  sequences to the metadata servers, a metadata server hands out meta sequences to the
  clients, and a client numbers its objects within its sequence.

  \<^item> \<open>fid_store.c\<close>: the state of a server is one range on disk (\<open>seq_store_read\<close>,
    \<open>seq_store_write\<close>, \<open>seq_store_update\<close>).
  \<^item> \<open>fid_handler.c\<close>: \<open>seq_server_alloc_super\<close> and \<open>seq_server_alloc_meta\<close> with
    \<open>range_alloc_set\<close>, the request handler, start and stop of a server.
  \<^item> \<open>fid_request.c\<close>: the client, \<open>seq_client_rpc\<close> to \<open>seq_client_alloc_fid\<close>.
  \<^item> \<open>mdt_handler.c\<close>: \<open>mdt_seq_init\<close> and \<open>mdt_seq_fini\<close>, which build the servers of a node.

  The storage stack, the network and the rest of the metadata server are arguments: one
  record \<open>seq_ops\<close> of the operations the code calls, on an abstract world \<open>'w\<close>. Every
  operation runs with the semaphore of its object held, so that a call is one atomic step
  and the semaphores are left out. Pointers between the objects of a node
  (\<open>lss_cli\<close>, \<open>lcs_srv\<close>) only ever point to \<open>ms_client_seq\<close> and \<open>ms_control_seq\<close> of the
  same \<open>md_site\<close>: they are booleans that say whether the pointer is set.
\<close>

section \<open>State\<close>

datatype lu_mgr_type = LUSTRE_SEQ_SERVER | LUSTRE_SEQ_CONTROLLER
datatype lu_cli_type = LUSTRE_SEQ_METADATA | LUSTRE_SEQ_DATA

record lu_client_seq =
  lcs_exp :: bool
  lcs_space :: lu_seq_range
  lcs_fid :: lu_fid
  lcs_type :: lu_cli_type
  lcs_width :: u64
  lcs_srv :: bool

record lu_server_seq =
  lss_space :: lu_seq_range
  lss_lowater_set :: lu_seq_range
  lss_hiwater_set :: lu_seq_range
  lss_obj :: bool
  lss_type :: lu_mgr_type
  lss_cli :: bool
  lss_width :: u64
  lss_set_width :: u64
  lss_set_transno :: u64

record md_site =
  ms_node_id :: u32
  ms_server_seq :: "lu_server_seq option"
  ms_control_seq :: "lu_server_seq option"
  ms_client_seq :: "lu_client_seq option"

abbreviation (input) LUSTRE_SEQ_MAX_WIDTH :: u64 where "LUSTRE_SEQ_MAX_WIDTH \<equiv> 0x20000"
abbreviation (input) LUSTRE_SEQ_META_WIDTH :: u64 where "LUSTRE_SEQ_META_WIDTH \<equiv> 1"
abbreviation (input) LUSTRE_SEQ_BATCH_WIDTH :: u64 where "LUSTRE_SEQ_BATCH_WIDTH \<equiv> 1000"
abbreviation (input) LUSTRE_SEQ_SUPER_WIDTH :: u64 where "LUSTRE_SEQ_SUPER_WIDTH \<equiv> 0x40000000"

abbreviation (input) SEQ_ALLOC_SUPER :: u32 where "SEQ_ALLOC_SUPER \<equiv> 0"
abbreviation (input) SEQ_ALLOC_META :: u32 where "SEQ_ALLOC_META \<equiv> 1"
abbreviation (input) SEQ_METADATA_PORTAL :: int where "SEQ_METADATA_PORTAL \<equiv> 30"
abbreviation (input) SEQ_DATA_PORTAL :: int where "SEQ_DATA_PORTAL \<equiv> 31"
abbreviation (input) SEQ_CONTROLLER_PORTAL :: int where "SEQ_CONTROLLER_PORTAL \<equiv> 32"

abbreviation (input) SEQ_TXN_STORE_CREDITS :: int where "SEQ_TXN_STORE_CREDITS \<equiv> 20"
abbreviation (input) FLD_TXN_INDEX_INSERT_CREDITS :: int where "FLD_TXN_INDEX_INSERT_CREDITS \<equiv> 60"

text \<open>
  What the code calls outside of this component. \<open>trans_start credits sync\<close> yields 0 or the
  error of the pointer it returns; \<open>dbo_write\<close> and \<open>dbo_read\<close> act on the file of the given
  server type and return a byte count or an error; \<open>queue_wait portal opc range\<close> is
  \<open>ptlrpc_queue_wait\<close> on a request with that operation and range, its result the status and
  the range of the reply (\<open>None\<close> when the peer stops the system).
\<close>

record 'w seq_ops =
  host_be :: bool
  trans_start :: "int \<Rightarrow> bool \<Rightarrow> 'w \<Rightarrow> int \<times> 'w"
  trans_stop :: "'w \<Rightarrow> 'w"
  dbo_write :: "lu_mgr_type \<Rightarrow> lu_seq_range \<Rightarrow> 'w \<Rightarrow> int \<times> 'w"
  dbo_read :: "lu_mgr_type \<Rightarrow> 'w \<Rightarrow> int \<times> lu_seq_range"
  dt_store_open :: "lu_mgr_type \<Rightarrow> 'w \<Rightarrow> int \<times> 'w"
  fld_server_create :: "lu_seq_range \<Rightarrow> 'w \<Rightarrow> int \<times> 'w"
  seq_proc_init :: "'w \<Rightarrow> int"
  obd_num_exports :: "'w \<Rightarrow> int"
  obd_last_committed :: "'w \<Rightarrow> u64"
  lut_last_transno :: "'w \<Rightarrow> u64"
  obd_fail_seq_alloc :: "'w \<Rightarrow> bool"
  request_alloc_pack :: "'w \<Rightarrow> bool"
  queue_wait :: "int \<Rightarrow> u32 \<Rightarrow> lu_seq_range \<Rightarrow> 'w \<Rightarrow> (int \<times> lu_seq_range \<times> 'w) option"

section \<open>Backing store\<close>

text \<open>\<open>sizeof(struct lu_seq_range)\<close> is 24.\<close>

definition seq_store_write :: "'w seq_ops \<Rightarrow> lu_server_seq \<Rightarrow> 'w \<Rightarrow> int \<times> 'w" where
  "seq_store_write ops seq w =
    (let (rc, w) = dbo_write ops (lss_type seq) (range_cpu_to_le (host_be ops) (lss_space seq)) w
     in if rc = 24 then (0, w) else if rc \<ge> 0 then (- EIO, w) else (rc, w))"

definition seq_store_update ::
  "'w seq_ops \<Rightarrow> lu_server_seq \<Rightarrow> lu_seq_range option \<Rightarrow> bool \<Rightarrow> 'w \<Rightarrow> int \<times> 'w" where
  "seq_store_update ops seq out sync w =
    (let credits = SEQ_TXN_STORE_CREDITS + (if out \<noteq> None then FLD_TXN_INDEX_INSERT_CREDITS else 0);
         (rc, w) = trans_start ops credits sync w
     in if rc \<noteq> 0 then (rc, w)
        else
          let (rc, w) = seq_store_write ops seq w;
              (rc, w) = (if rc \<noteq> 0 then (rc, w)
                         else case out of None \<Rightarrow> (rc, w) | Some out \<Rightarrow> fld_server_create ops out w)
          in (rc, trans_stop ops w))"

definition seq_store_read :: "'w seq_ops \<Rightarrow> lu_server_seq \<Rightarrow> 'w \<Rightarrow> int \<times> lu_server_seq" where
  "seq_store_read ops seq w =
    (let (rc, buf) = dbo_read ops (lss_type seq) w
     in if rc = 24 then (0, seq\<lparr>lss_space := range_le_to_cpu (host_be ops) buf\<rparr>)
        else if rc = 0 then (- ENODATA, seq)
        else if rc \<ge> 0 then (- EIO, seq) else (rc, seq))"

definition seq_store_init :: "'w seq_ops \<Rightarrow> lu_server_seq \<Rightarrow> 'w \<Rightarrow> int \<times> lu_server_seq \<times> 'w" where
  "seq_store_init ops seq w =
    (let (rc, w) = dt_store_open ops (lss_type seq) w
     in if rc = 0 then (0, seq\<lparr>lss_obj := True\<rparr>, w) else (rc, seq, w))"

definition seq_store_fini :: "lu_server_seq \<Rightarrow> lu_server_seq" where
  "seq_store_fini seq = (if lss_obj seq then seq\<lparr>lss_obj := False\<rparr> else seq)"

section \<open>Server\<close>

text \<open>\<open>range_alloc\<close> returns \<open>to\<close> and \<open>from\<close> as it leaves them.\<close>

definition range_alloc :: "lu_seq_range \<Rightarrow> lu_seq_range \<Rightarrow> u64 \<Rightarrow> lu_seq_range \<times> lu_seq_range" where
  "range_alloc to from width =
    (let width = min (range_space from) width
     in (to\<lparr>lsr_start := lsr_start from, lsr_end := lsr_start from + width\<rparr>,
         from\<lparr>lsr_start := lsr_start from + width\<rparr>))"

text \<open>\<open>__seq_server_alloc_super\<close>; \<open>seq_server_alloc_super\<close> adds the semaphore.\<close>

definition seq_server_alloc_super ::
  "'w seq_ops \<Rightarrow> lu_server_seq \<Rightarrow> lu_seq_range \<Rightarrow> 'w \<Rightarrow> (int \<times> lu_server_seq \<times> lu_seq_range \<times> 'w) option" where
  "seq_server_alloc_super ops seq out w = do {
     lassert (range_is_sane (lss_space seq));
     if range_is_exhausted (lss_space seq) then Some (- ENOSPC, seq, out, w)
     else
       let (out, space) = range_alloc out (lss_space seq) (lss_width seq);
           seq = seq\<lparr>lss_space := space\<rparr>;
           (rc, w) = seq_store_update ops seq (Some out) True w
       in Some (rc, seq, out, w)
   }"

definition seq_set_init :: "'w seq_ops \<Rightarrow> lu_server_seq \<Rightarrow> 'w \<Rightarrow> int \<times> lu_server_seq \<times> 'w" where
  "seq_set_init ops seq w =
    (let (lo, space) = range_alloc (lss_lowater_set seq) (lss_space seq) (lss_set_width seq);
         (hi, space) = range_alloc (lss_hiwater_set seq) space (lss_set_width seq);
         seq = seq\<lparr>lss_lowater_set := lo, lss_hiwater_set := hi, lss_space := space\<rparr>;
         (rc, w) = seq_store_update ops seq None True w
     in (rc, seq\<lparr>lss_set_transno := 0\<rparr>, w))"

text \<open>
  The branch of \<open>range_alloc_set\<close> for an exhausted low-water set. \<open>loset = hiset\<close> assigns the
  local pointer: the low-water set of the server stays as it is.
\<close>

definition range_alloc_set_switch :: "'w seq_ops \<Rightarrow> lu_server_seq \<Rightarrow> 'w \<Rightarrow> int \<times> lu_server_seq \<times> 'w" where
  "range_alloc_set_switch ops seq w =
    (let set_sz = max (lss_set_width seq) (of_int (obd_num_exports ops w) * lss_width seq);
         set_sz = min (range_space (lss_space seq)) set_sz;
         (hi, space) = range_alloc (lss_hiwater_set seq) (lss_space seq) set_sz;
         seq = seq\<lparr>lss_hiwater_set := hi, lss_space := space\<rparr>;
         sync = lss_set_transno seq > obd_last_committed ops w;
         (rc, w) = seq_store_update ops seq None sync w
     in (rc, seq\<lparr>lss_set_transno := lut_last_transno ops w\<rparr>, w))"

definition range_alloc_set ::
  "'w seq_ops \<Rightarrow> lu_server_seq \<Rightarrow> lu_seq_range \<Rightarrow> 'w \<Rightarrow> (int \<times> lu_server_seq \<times> lu_seq_range \<times> 'w) option" where
  "range_alloc_set ops seq out w =
    (let (seq, w) = (if range_is_zero (lss_lowater_set seq) then snd (seq_set_init ops seq w) else (seq, w));
         seq = (if obd_fail_seq_alloc ops w
                then seq\<lparr>lss_lowater_set := (lss_lowater_set seq)\<lparr>lsr_start := lsr_end (lss_lowater_set seq)\<rparr>\<rparr>
                else seq);
         switch = range_is_exhausted (lss_lowater_set seq);
         (rc, seq, w) = (if switch then range_alloc_set_switch ops seq w else (0, seq, w));
         loset = (if switch then lss_hiwater_set seq else lss_lowater_set seq)
     in do {
       lassert (\<not> range_is_exhausted loset \<or> range_is_sane loset);
       if rc \<noteq> 0 then Some (rc, seq, out, w)
       else
         let (out, loset) = range_alloc out loset (lss_width seq);
             seq = (if switch then seq\<lparr>lss_hiwater_set := loset\<rparr> else seq\<lparr>lss_lowater_set := loset\<rparr>)
         in Some (0, seq, out, w)
     })"

section \<open>Client\<close>

definition seq_client_rpc ::
  "'w seq_ops \<Rightarrow> lu_client_seq \<Rightarrow> lu_seq_range \<Rightarrow> u32 \<Rightarrow> 'w \<Rightarrow> (int \<times> lu_seq_range \<times> 'w) option" where
  "seq_client_rpc ops seq output opc w =
    (if \<not> request_alloc_pack ops w then Some (- ENOMEM, output, w)
     else
       let inp = \<lparr>lsr_start = 0, lsr_end = 0, lsr_index = 0,
                  lsr_flags = (if lcs_type seq = LUSTRE_SEQ_METADATA then LU_SEQ_RANGE_MDT else LU_SEQ_RANGE_OST)\<rparr>;
           portal = (if lcs_type seq = LUSTRE_SEQ_METADATA then SEQ_METADATA_PORTAL else SEQ_DATA_PORTAL);
           inp = (if opc = SEQ_ALLOC_SUPER then inp\<lparr>lsr_index := lsr_index (lcs_space seq)\<rparr> else inp);
           portal = (if opc = SEQ_ALLOC_SUPER then SEQ_CONTROLLER_PORTAL else portal)
       in do {
         lassert (opc = SEQ_ALLOC_SUPER \<or> opc = SEQ_ALLOC_META);
         (rc, out, w) \<leftarrow> queue_wait ops portal opc inp w;
         if rc \<noteq> 0 then Some (rc, output, w)
         else if \<not> range_is_sane out then Some (- EINVAL, out, w)
         else if range_is_exhausted out then Some (- EINVAL, out, w)
         else Some (0, out, w)
       })"

text \<open>\<open>seq_client_alloc_super\<close> on the client \<open>ms_client_seq\<close> of a metadata server.\<close>

definition seq_client_alloc_super :: "'w seq_ops \<Rightarrow> md_site \<Rightarrow> 'w \<Rightarrow> (int \<times> md_site \<times> 'w) option" where
  "seq_client_alloc_super ops site w = do {
     cli \<leftarrow> ms_client_seq site;
     if lcs_srv cli then do {
       ctl \<leftarrow> ms_control_seq site;
       (rc, ctl, space, w) \<leftarrow> seq_server_alloc_super ops ctl (lcs_space cli) w;
       Some (rc, site\<lparr>ms_control_seq := Some ctl, ms_client_seq := Some (cli\<lparr>lcs_space := space\<rparr>)\<rparr>, w)
     } else do {
       (rc, space, w) \<leftarrow> seq_client_rpc ops cli (lcs_space cli) SEQ_ALLOC_SUPER w;
       Some (rc, site\<lparr>ms_client_seq := Some (cli\<lparr>lcs_space := space\<rparr>)\<rparr>, w)
     }
   }"

text \<open>
  \<open>seq_client_alloc_meta\<close>. Its only caller passes no environment, so that a client with a
  server for direct talking stops at \<open>LASSERT(env != NULL)\<close>.
\<close>

definition seq_client_alloc_meta :: "'w seq_ops \<Rightarrow> lu_client_seq \<Rightarrow> 'w \<Rightarrow> (int \<times> lu_client_seq \<times> 'w) option" where
  "seq_client_alloc_meta ops seq w = do {
     lassert (\<not> lcs_srv seq);
     (rc, space, w) \<leftarrow> seq_client_rpc ops seq (lcs_space seq) SEQ_ALLOC_META w;
     Some (rc, seq\<lparr>lcs_space := space\<rparr>, w)
   }"

text \<open>On an error \<open>*seqnr\<close> is not written; the result then holds 0 in its place.\<close>

definition seq_client_alloc_seq ::
  "'w seq_ops \<Rightarrow> lu_client_seq \<Rightarrow> 'w \<Rightarrow> (int \<times> u64 \<times> lu_client_seq \<times> 'w) option" where
  "seq_client_alloc_seq ops seq w = do {
     lassert (range_is_sane (lcs_space seq));
     (rc, seq, w) \<leftarrow> (if range_is_exhausted (lcs_space seq) then seq_client_alloc_meta ops seq w
                      else Some (0, seq, w));
     if rc \<noteq> 0 then Some (rc, 0, seq, w)
     else do {
       lassert (\<not> range_is_exhausted (lcs_space seq));
       let seqnr = lsr_start (lcs_space seq);
       Some (0, seqnr, seq\<lparr>lcs_space := (lcs_space seq)\<lparr>lsr_start := lsr_start (lcs_space seq) + 1\<rparr>\<rparr>, w)
     }
   }"

text \<open>The result of \<open>seq_client_alloc_fid\<close> is the return code and what it leaves in \<open>*fid\<close>.\<close>

definition seq_client_alloc_fid ::
  "'w seq_ops \<Rightarrow> lu_client_seq \<Rightarrow> lu_fid \<Rightarrow> 'w \<Rightarrow> (int \<times> lu_fid \<times> lu_client_seq \<times> 'w) option" where
  "seq_client_alloc_fid ops seq fid w =
    (if fid_is_zero (lcs_fid seq) \<or> ucast (fid_oid (lcs_fid seq)) \<ge> lcs_width seq then do {
       (rc, seqnr, seq, w) \<leftarrow> seq_client_alloc_seq ops seq w;
       if rc \<noteq> 0 then Some (rc, fid, seq, w)
       else
         let seq = seq\<lparr>lcs_fid := lu_fid seqnr LUSTRE_FID_INIT_OID 0\<rparr>
         in Some (1, lcs_fid seq, seq, w)
     } else
       let f = lcs_fid seq;
           seq = seq\<lparr>lcs_fid := lu_fid (f_seq f) (f_oid f + 1) (f_ver f)\<rparr>
       in Some (0, lcs_fid seq, seq, w))"

definition seq_client_flush :: "lu_client_seq \<Rightarrow> lu_client_seq" where
  "seq_client_flush seq =
    (let seq = seq\<lparr>lcs_fid := fid_zero\<rparr>;
         seq = seq\<lparr>lcs_space := (lcs_space seq)\<lparr>lsr_index := - 1\<rparr>\<rparr>
     in seq\<lparr>lcs_space := range_init (lcs_space seq)\<rparr>)"

definition seq_client_fini :: "lu_client_seq \<Rightarrow> lu_client_seq" where
  "seq_client_fini seq = seq\<lparr>lcs_exp := False, lcs_srv := False\<rparr>"

definition seq_client_init ::
  "'w seq_ops \<Rightarrow> lu_client_seq \<Rightarrow> bool \<Rightarrow> lu_cli_type \<Rightarrow> bool \<Rightarrow> 'w \<Rightarrow> (int \<times> lu_client_seq) option" where
  "seq_client_init ops seq exp type srv w =
    (let seq = seq\<lparr>lcs_exp := exp, lcs_srv := srv, lcs_type := type, lcs_width := LUSTRE_SEQ_MAX_WIDTH\<rparr>;
         seq = seq_client_flush seq
     in do {
       lassert (exp \<or> lcs_srv seq);
       let rc = seq_proc_init ops w;
       Some (rc, if rc \<noteq> 0 then seq_client_fini seq else seq)
     })"

section \<open>Requests to a metadata server\<close>

text \<open>
  \<open>__seq_server_alloc_meta\<close> (\<open>seq_server_alloc_meta\<close> adds the semaphore), first its part that
  asks for a new super sequence when the available space ends.
\<close>

definition seq_server_refill ::
  "'w seq_ops \<Rightarrow> md_site \<Rightarrow> lu_server_seq \<Rightarrow> 'w \<Rightarrow> (int \<times> md_site \<times> lu_server_seq \<times> 'w) option" where
  "seq_server_refill ops site seq w =
    (if range_is_exhausted (lss_space seq) then
       if \<not> lss_cli seq then Some (- ENODEV, site, seq, w)
       else do {
         (rc, site, w) \<leftarrow> seq_client_alloc_super ops site w;
         if rc \<noteq> 0 then Some (rc, site, seq, w)
         else do {
           cli \<leftarrow> ms_client_seq site;
           let seq = seq\<lparr>lss_space := lcs_space cli\<rparr>;
           lassert (range_is_sane (lss_space seq));
           Some (0, site, seq, w)
         }
       }
     else Some (0, site, seq, w))"

definition seq_server_alloc_meta ::
  "'w seq_ops \<Rightarrow> md_site \<Rightarrow> lu_seq_range \<Rightarrow> 'w \<Rightarrow> (int \<times> md_site \<times> lu_seq_range \<times> 'w) option" where
  "seq_server_alloc_meta ops site out w = do {
     seq \<leftarrow> ms_server_seq site;
     lassert (range_is_sane (lss_space seq));
     (rc, site, seq, w) \<leftarrow> seq_server_refill ops site seq w;
     if rc \<noteq> 0 then Some (rc, site\<lparr>ms_server_seq := Some seq\<rparr>, out, w)
     else do {
       (rc, seq, out, w) \<leftarrow> range_alloc_set ops seq out w;
       Some (rc, site\<lparr>ms_server_seq := Some seq\<rparr>, out, w)
     }
   }"

definition seq_server_handle ::
  "'w seq_ops \<Rightarrow> md_site \<Rightarrow> u32 \<Rightarrow> lu_seq_range \<Rightarrow> 'w \<Rightarrow> (int \<times> md_site \<times> lu_seq_range \<times> 'w) option" where
  "seq_server_handle ops site opc out w =
    (if opc = SEQ_ALLOC_META then
       if ms_server_seq site = None then Some (- EINVAL, site, out, w)
       else seq_server_alloc_meta ops site out w
     else if opc = SEQ_ALLOC_SUPER then
       (case ms_control_seq site of
          None \<Rightarrow> Some (- EINVAL, site, out, w)
        | Some ctl \<Rightarrow> do {
            (rc, ctl, out, w) \<leftarrow> seq_server_alloc_super ops ctl out w;
            Some (rc, site\<lparr>ms_control_seq := Some ctl\<rparr>, out, w)
          })
     else Some (- EINVAL, site, out, w))"

text \<open>
  \<open>seq_req_handle\<close> on a request whose buffers are well formed: \<open>tmp\<close> is the range of the
  request, \<open>out\<close> the range of the packed reply, which starts out cleared.
\<close>

definition seq_req_handle ::
  "'w seq_ops \<Rightarrow> md_site \<Rightarrow> u32 \<Rightarrow> lu_seq_range \<Rightarrow> 'w \<Rightarrow> (int \<times> md_site \<times> lu_seq_range \<times> 'w) option" where
  "seq_req_handle ops site opc tmp w =
     seq_server_handle ops site opc
       \<lparr>lsr_start = 0, lsr_end = 0, lsr_index = lsr_index tmp, lsr_flags = lsr_flags tmp\<rparr> w"

section \<open>Start and stop\<close>

text \<open>\<open>seq_server_set_cli\<close> on \<open>ms_server_seq\<close>; the argument says whether \<open>cli\<close> is not NULL.\<close>

definition seq_server_set_cli :: "md_site \<Rightarrow> bool \<Rightarrow> (int \<times> md_site) option" where
  "seq_server_set_cli site cli = do {
     seq \<leftarrow> ms_server_seq site;
     if \<not> cli then Some (0, site\<lparr>ms_server_seq := Some (seq\<lparr>lss_cli := False\<rparr>)\<rparr>)
     else if lss_cli seq then Some (- EINVAL, site)
     else do {
       c \<leftarrow> ms_client_seq site;
       Some (0, site\<lparr>ms_server_seq := Some (seq\<lparr>lss_cli := True\<rparr>),
                     ms_client_seq := Some (c\<lparr>lcs_space := (lcs_space c)\<lparr>lsr_index := ms_node_id site\<rparr>\<rparr>)\<rparr>)
     }
   }"

definition seq_server_init ::
  "'w seq_ops \<Rightarrow> lu_server_seq \<Rightarrow> lu_mgr_type \<Rightarrow> u32 \<Rightarrow> 'w \<Rightarrow> (int \<times> lu_server_seq \<times> 'w) option" where
  "seq_server_init ops seq type node_id w =
    (let is_srv = (type = LUSTRE_SEQ_SERVER);
         seq = seq\<lparr>lss_cli := False, lss_type := type, lss_space := range_init (lss_space seq),
                   lss_lowater_set := range_init (lss_lowater_set seq),
                   lss_hiwater_set := range_init (lss_hiwater_set seq),
                   lss_set_width := LUSTRE_SEQ_BATCH_WIDTH,
                   lss_width := (if is_srv then LUSTRE_SEQ_META_WIDTH else LUSTRE_SEQ_SUPER_WIDTH)\<rparr>;
         (rc, seq, w) = seq_store_init ops seq w
     in if rc \<noteq> 0 then Some (rc, seq_store_fini seq, w)
        else
          let (rc, seq) = seq_store_read ops seq w
          in if rc \<noteq> 0 \<and> rc \<noteq> - ENODATA then Some (rc, seq_store_fini seq, w)
             else
               let (seq, w) =
                 (if rc = - ENODATA then
                    let space = (if is_srv then LUSTRE_SEQ_ZERO_RANGE else LUSTRE_SEQ_SPACE_RANGE);
                        seq = seq\<lparr>lss_space := space\<lparr>lsr_index := node_id\<rparr>\<rparr>
                    in (seq, snd (seq_store_update ops seq None False w))
                  else (seq, w))
               in do {
                 lassert (if is_srv then range_is_sane (lss_space seq)
                          else \<not> range_is_zero (lss_space seq) \<and> range_is_sane (lss_space seq));
                 let rc = seq_proc_init ops w;
                 Some (rc, if rc \<noteq> 0 then seq_store_fini seq else seq, w)
               })"

definition mdt_seq_fini :: "md_site \<Rightarrow> md_site" where
  "mdt_seq_fini ms = ms\<lparr>ms_server_seq := None, ms_control_seq := None, ms_client_seq := None\<rparr>"

text \<open>A structure fresh from \<open>OBD_ALLOC_PTR\<close> is cleared.\<close>

definition server_seq_alloc :: lu_server_seq where
  "server_seq_alloc = \<lparr>lss_space = LUSTRE_SEQ_ZERO_RANGE, lss_lowater_set = LUSTRE_SEQ_ZERO_RANGE,
     lss_hiwater_set = LUSTRE_SEQ_ZERO_RANGE, lss_obj = False, lss_type = LUSTRE_SEQ_SERVER,
     lss_cli = False, lss_width = 0, lss_set_width = 0, lss_set_transno = 0\<rparr>"

definition client_seq_alloc :: lu_client_seq where
  "client_seq_alloc = \<lparr>lcs_exp = False, lcs_space = LUSTRE_SEQ_ZERO_RANGE, lcs_fid = fid_zero,
     lcs_type = LUSTRE_SEQ_METADATA, lcs_width = 0, lcs_srv = False\<rparr>"

text \<open>
  \<open>mdt_seq_init\<close>, first the part for the controller node. \<open>alloc k\<close> says whether the \<open>k\<close>-th
  allocation of the function succeeds. When the allocation of the prefix fails,
  \<open>ms_client_seq\<close> is freed and poisoned, and \<open>mdt_seq_fini\<close> follows the poisoned pointer.
\<close>

definition mdt_seq_init_ctl ::
  "'w seq_ops \<Rightarrow> (nat \<Rightarrow> bool) \<Rightarrow> md_site \<Rightarrow> 'w \<Rightarrow> (int \<times> md_site \<times> 'w) option" where
  "mdt_seq_init_ctl ops alloc ms w = do {
     lassert (ms_control_seq ms = None);
     if \<not> alloc 0 then Some (- ENOMEM, ms, w)
     else do {
       (rc, ctl, w) \<leftarrow> seq_server_init ops server_seq_alloc LUSTRE_SEQ_CONTROLLER (ms_node_id ms) w;
       if rc \<noteq> 0 then Some (rc, mdt_seq_fini ms, w)
       else if \<not> alloc 1 then Some (- ENOMEM, mdt_seq_fini ms, w)
       else if \<not> alloc 2 then None
       else do {
         (rc, cli) \<leftarrow> seq_client_init ops client_seq_alloc False LUSTRE_SEQ_METADATA True w;
         if rc \<noteq> 0 then Some (rc, mdt_seq_fini ms, w)
         else Some (0, ms\<lparr>ms_control_seq := Some ctl, ms_client_seq := Some cli\<rparr>, w)
       }
     }
   }"

definition mdt_seq_init ::
  "'w seq_ops \<Rightarrow> (nat \<Rightarrow> bool) \<Rightarrow> md_site \<Rightarrow> 'w \<Rightarrow> (int \<times> md_site \<times> 'w) option" where
  "mdt_seq_init ops alloc ms w = do {
     (rc, ms, w) \<leftarrow> (if ms_node_id ms = 0 then mdt_seq_init_ctl ops alloc ms w else Some (0, ms, w));
     if rc \<noteq> 0 then Some (rc, ms, w)
     else do {
       lassert (ms_server_seq ms = None);
       if \<not> alloc 3 then Some (- ENOMEM, mdt_seq_fini ms, w)
       else do {
         (rc, srv, w) \<leftarrow> seq_server_init ops server_seq_alloc LUSTRE_SEQ_SERVER (ms_node_id ms) w;
         if rc \<noteq> 0 then Some (- ENOMEM, mdt_seq_fini ms, w)
         else
           let ms = ms\<lparr>ms_server_seq := Some srv\<rparr>
           in if ms_node_id ms = 0 then do {
                lassert (ms_client_seq ms \<noteq> None);
                (rc, ms) \<leftarrow> seq_server_set_cli ms True;
                Some (rc, if rc \<noteq> 0 then mdt_seq_fini ms else ms, w)
              } else Some (0, ms, w)
       }
     }
   }"

text \<open>
  \<open>mdt_seq_init_cli\<close>: \<open>index\<close> is what \<open>simple_strtol\<close> makes of the configuration string
  (\<open>None\<close> when something follows the number), \<open>mdc\<close> the device found for the controller with
  its \<open>obd_set_up\<close>, \<open>exp\<close> whether \<open>ms_control_exp\<close> is set.
\<close>

definition mdt_seq_init_cli ::
  "'w seq_ops \<Rightarrow> (nat \<Rightarrow> bool) \<Rightarrow> int option \<Rightarrow> bool option \<Rightarrow> bool \<Rightarrow> md_site \<Rightarrow> 'w \<Rightarrow> (int \<times> md_site) option" where
  "mdt_seq_init_cli ops alloc index mdc exp ms w =
    (case index of
       None \<Rightarrow> Some (- EINVAL, ms)
     | Some index \<Rightarrow>
         if index \<noteq> 0 \<or> ms_client_seq ms \<noteq> None then Some (0, ms)
         else case mdc of
             None \<Rightarrow> Some (- ENOENT, ms)
           | Some set_up \<Rightarrow>
               if \<not> set_up then Some (- EINVAL, ms)
               else do {
                 lassert exp;
                 if \<not> alloc 0 then Some (- ENOMEM, ms)
                 else if \<not> alloc 1 then Some (- ENOMEM, ms\<lparr>ms_client_seq := Some client_seq_alloc\<rparr>)
                 else do {
                   (rc, cli) \<leftarrow> seq_client_init ops client_seq_alloc True LUSTRE_SEQ_METADATA False w;
                   let ms = ms\<lparr>ms_client_seq := Some cli\<rparr>;
                   if rc \<noteq> 0 then Some (rc, ms)
                   else do {
                     lassert (ms_server_seq ms \<noteq> None);
                     seq_server_set_cli ms True
                   }
                 }
               })"

section \<open>Ranges as sets\<close>

text \<open>
  A range stands for the set of its sequences. The lemmas below follow these sets through
  every operation: what an operation leaves in its ranges and what it hands out is disjoint
  and was cut out of what its ranges held before.
\<close>

definition rset :: "lu_seq_range \<Rightarrow> u64 set" where
  "rset r = {s. range_within r s}"

fun pdisj :: "'a set list \<Rightarrow> bool" where
  "pdisj [] \<longleftrightarrow> True"
| "pdisj (A # As) \<longleftrightarrow> (\<forall>B \<in> set As. A \<inter> B = {}) \<and> pdisj As"

lemma rset_memb: "s \<in> rset r \<longleftrightarrow> lsr_start r \<le> s \<and> s < lsr_end r"
  by (simp add: rset_def range_within_def)

lemma rset_empty: "range_is_sane r \<Longrightarrow> rset r = {} \<longleftrightarrow> range_is_exhausted r"
  by (auto simp: rset_memb set_eq_iff range_defs)

lemma word_min_add_le:
  fixes a b w :: u64
  assumes "a \<le> b"
  shows "a \<le> a + min (b - a) w" "a + min (b - a) w \<le> b"
proof -
  have "unat (a + min (b - a) w) = unat a + min (unat b - unat a) (unat w)"
  proof -
    have "unat (min (b - a) w) = min (unat b - unat a) (unat w)"
      using assms by (simp add: min_def word_le_nat_alt unat_minus_nowrap)
    moreover have "unat a + min (unat b - unat a) (unat w) \<le> unat b"
      using assms by (auto simp: word_le_nat_alt min_def)
    then have "unat a + min (unat b - unat a) (unat w) < 2 ^ 64"
      using unat_lt_u64 [of b] by (elim le_less_trans) simp
    ultimately show ?thesis by (simp add: unat_add_nowrap)
  qed
  then show "a \<le> a + min (b - a) w" "a + min (b - a) w \<le> b"
    using assms by (simp_all add: word_le_nat_alt)
qed

lemma range_alloc_split:
  assumes "range_alloc to from width = (to', from')" "range_is_sane from"
  shows "range_is_sane to'" "range_is_sane from'" "rset to' \<union> rset from' = rset from"
    "rset to' \<inter> rset from' = {}" "lsr_end from' = lsr_end from" "lsr_start to' = lsr_start from"
    "lsr_index to' = lsr_index to" "lsr_end to' = lsr_start from'"
  using assms word_min_add_le [of "lsr_start from" "lsr_end from" width]
  by (auto simp: range_alloc_def range_is_sane_def rset_memb range_space_def Let_def)

lemma range_alloc_nonempty:
  assumes "range_alloc to from width = (to', from')" "range_is_sane from"
    "\<not> range_is_exhausted from" "width \<noteq> 0"
  shows "\<not> range_is_exhausted to'"
  using assms by (auto simp: range_alloc_def range_defs min_def Let_def split: if_splits)

text \<open>\<open>moves As Bs\<close>: the sets \<open>Bs\<close> are disjoint and were cut out of the sets \<open>As\<close>.\<close>

definition moves :: "'a set list \<Rightarrow> 'a set list \<Rightarrow> bool" where
  "moves As Bs \<longleftrightarrow> pdisj Bs \<and> \<Union> (set Bs) \<subseteq> \<Union> (set As)"

definition srv_ok :: "lu_server_seq \<Rightarrow> bool" where
  "srv_ok seq \<longleftrightarrow> range_is_sane (lss_space seq) \<and> range_is_sane (lss_lowater_set seq) \<and>
     range_is_sane (lss_hiwater_set seq) \<and> lss_width seq \<noteq> 0 \<and> lss_set_width seq \<noteq> 0"

definition srv_sets :: "lu_server_seq \<Rightarrow> u64 set list" where
  "srv_sets seq = [rset (lss_space seq), rset (lss_lowater_set seq), rset (lss_hiwater_set seq)]"

lemma seq_server_alloc_super_post:
  assumes "seq_server_alloc_super ops seq out w = Some (rc, seq', out', w')"
  shows "range_is_sane (lss_space seq)"
    "seq' = seq\<lparr>lss_space := lss_space seq'\<rparr>" "range_is_sane (lss_space seq')"
    "rc = 0 \<Longrightarrow> range_is_sane out' \<and> moves [rset (lss_space seq)] [rset (lss_space seq'), rset out']"
    "rset (lss_space seq') \<subseteq> rset (lss_space seq)"
    "rc = 0 \<Longrightarrow> lss_width seq \<noteq> 0 \<Longrightarrow> \<not> range_is_exhausted out'"
proof -
  show s: "range_is_sane (lss_space seq)" using assms by (simp add: seq_server_alloc_super_def split: if_splits)
  obtain o1 sp where ra: "range_alloc out (lss_space seq) (lss_width seq) = (o1, sp)" by fastforce
  note r = range_alloc_split [OF ra s]
  have "seq' = seq \<and> rc = - ENOSPC \<or> \<not> range_is_exhausted (lss_space seq) \<and> seq' = seq\<lparr>lss_space := sp\<rparr> \<and> out' = o1"
    using assms s by (auto simp: seq_server_alloc_super_def ra Let_def split: if_splits prod.splits)
  then show "seq' = seq\<lparr>lss_space := lss_space seq'\<rparr>" "range_is_sane (lss_space seq')"
    "rc = 0 \<Longrightarrow> range_is_sane out' \<and> moves [rset (lss_space seq)] [rset (lss_space seq'), rset out']"
    "rset (lss_space seq') \<subseteq> rset (lss_space seq)"
    "rc = 0 \<Longrightarrow> lss_width seq \<noteq> 0 \<Longrightarrow> \<not> range_is_exhausted out'"
    using r s range_alloc_nonempty [OF ra s] by (auto simp: moves_def errno_defs)
qed

lemma seq_server_alloc_super_total:
  "range_is_sane (lss_space seq) \<Longrightarrow> \<exists>r. seq_server_alloc_super ops seq out w = Some r"
  by (simp add: seq_server_alloc_super_def Let_def split: prod.splits)

lemma seq_set_init_post:
  assumes "seq_set_init ops seq w = (rc, seq', w')" "srv_ok seq"
  shows "srv_ok seq' \<and> moves (srv_sets seq) (srv_sets seq') \<and>
    (\<not> range_is_exhausted (lss_space seq) \<longrightarrow> \<not> range_is_exhausted (lss_lowater_set seq'))"
proof -
  obtain lo s1 where a: "range_alloc (lss_lowater_set seq) (lss_space seq) (lss_set_width seq) = (lo, s1)" by fastforce
  obtain hi s2 where b: "range_alloc (lss_hiwater_set seq) s1 (lss_set_width seq) = (hi, s2)" by fastforce
  have s: "range_is_sane (lss_space seq)" "lss_set_width seq \<noteq> 0" using assms(2) by (simp_all add: srv_ok_def)
  note ra = range_alloc_split [OF a s(1)]
  note rb = range_alloc_split [OF b ra(2)]
  have f: "lss_lowater_set seq' = lo" "lss_hiwater_set seq' = hi" "lss_space seq' = s2"
    "lss_width seq' = lss_width seq" "lss_set_width seq' = lss_set_width seq"
    using assms(1) by (auto simp: seq_set_init_def a b Let_def split: prod.splits)
  have "pdisj (srv_sets seq')" using ra(3,4) rb(3,4) by (auto simp: srv_sets_def f)
  then show ?thesis using assms(2) ra rb range_alloc_nonempty [OF a s(1) _ s(2)]
    by (auto simp: srv_ok_def moves_def f srv_sets_def)
qed

lemma range_alloc_set_switch_post:
  assumes "range_alloc_set_switch ops seq w = (rc, seq', w')" "srv_ok seq"
    and d: "pdisj (srv_sets seq)"
  shows "srv_ok seq' \<and> moves (srv_sets seq) (srv_sets seq') \<and> lss_lowater_set seq' = lss_lowater_set seq \<and>
    (\<not> range_is_exhausted (lss_space seq) \<longrightarrow> \<not> range_is_exhausted (lss_hiwater_set seq'))"
proof -
  define set_sz where "set_sz = min (range_space (lss_space seq)) (max (lss_set_width seq) (of_int (obd_num_exports ops w) * lss_width seq))"
  obtain hi s1 where a: "range_alloc (lss_hiwater_set seq) (lss_space seq) set_sz = (hi, s1)" by fastforce
  have s: "range_is_sane (lss_space seq)" "lss_set_width seq \<noteq> 0" using assms(2) by (simp_all add: srv_ok_def)
  note ra = range_alloc_split [OF a s(1)]
  have f: "lss_lowater_set seq' = lss_lowater_set seq" "lss_hiwater_set seq' = hi" "lss_space seq' = s1"
    "lss_width seq' = lss_width seq" "lss_set_width seq' = lss_set_width seq"
    using assms(1) by (auto simp: range_alloc_set_switch_def a set_sz_def [symmetric] Let_def split: prod.splits)
  have "pdisj (srv_sets seq')" using ra(3,4) d by (auto simp: srv_sets_def f)
  moreover have "\<not> range_is_exhausted (lss_space seq) \<longrightarrow> set_sz \<noteq> 0"
    using s(2) by (auto simp: set_sz_def range_is_exhausted_def min_def max_def word_le_nat_alt unat_eq_zero)
  ultimately show ?thesis using assms(2) ra range_alloc_nonempty [OF a s(1)]
    by (auto simp: srv_ok_def moves_def f srv_sets_def)
qed

lemma moves_trans: "moves As Bs \<Longrightarrow> moves Bs Cs \<Longrightarrow> moves As Cs"
  unfolding moves_def by (meson order_trans)

lemma moves_refl: "pdisj As \<Longrightarrow> moves As As"
  by (simp add: moves_def)

lemma moves_pdisj: "moves As Bs \<Longrightarrow> pdisj Bs"
  by (simp add: moves_def)

lemma range_alloc_set_post:
  assumes "range_alloc_set ops seq out w = Some (rc, seq', out', w')" "srv_ok seq"
    and d: "pdisj (srv_sets seq)"
  shows "srv_ok seq' \<and> moves (srv_sets seq) (srv_sets seq' @ [if rc = 0 then rset out' else {}]) \<and>
     (rc = 0 \<longrightarrow> range_is_sane out')"
proof -
  obtain seq1 w1 where 1: "(seq1, w1) = (if range_is_zero (lss_lowater_set seq) then snd (seq_set_init ops seq w) else (seq, w))"
    by (metis surj_pair)
  have ok1: "srv_ok seq1 \<and> moves (srv_sets seq) (srv_sets seq1)"
  proof (cases "range_is_zero (lss_lowater_set seq)")
    case True
    obtain rc1 where "seq_set_init ops seq w = (rc1, seq1, w1)" using 1 True by (cases "seq_set_init ops seq w") auto
    then show ?thesis using seq_set_init_post [OF _ assms(2), of ops w rc1 seq1 w1] by auto
  next
    case False
    then show ?thesis using 1 assms(2) moves_refl [OF d] by simp
  qed
  define seq2 where "seq2 = (if obd_fail_seq_alloc ops w1
                then seq1\<lparr>lss_lowater_set := (lss_lowater_set seq1)\<lparr>lsr_start := lsr_end (lss_lowater_set seq1)\<rparr>\<rparr>
                else seq1)"
  have ok2: "srv_ok seq2 \<and> moves (srv_sets seq1) (srv_sets seq2)"
    using ok1 by (auto simp: seq2_def srv_ok_def srv_sets_def moves_def rset_memb range_is_sane_def)
  define sw where "sw = range_is_exhausted (lss_lowater_set seq2)"
  obtain rc3 seq3 w3 where 3: "(rc3, seq3, w3) = (if sw then range_alloc_set_switch ops seq2 w1 else (0, seq2, w1))"
    by (metis prod_cases3)
  have ok3: "srv_ok seq3 \<and> moves (srv_sets seq2) (srv_sets seq3)"
    using 3 range_alloc_set_switch_post [of ops seq2 w1 rc3 seq3 w3] ok2 moves_pdisj moves_refl by (auto split: if_splits)
  define lo where "lo = (if sw then lss_hiwater_set seq3 else lss_lowater_set seq3)"
  have slo: "range_is_sane lo" using ok3 by (simp add: lo_def srv_ok_def)
  obtain o4 l4 where 4: "range_alloc out lo (lss_width seq3) = (o4, l4)" by fastforce
  note r = range_alloc_split [OF 4 slo]
  let ?s = "if sw then seq3\<lparr>lss_hiwater_set := l4\<rparr> else seq3\<lparr>lss_lowater_set := l4\<rparr>"
  have post: "rc3 \<noteq> 0 \<and> rc = rc3 \<and> seq' = seq3 \<or> rc = 0 \<and> out' = o4 \<and> seq' = ?s"
    using assms(1) unfolding range_alloc_set_def 1 [symmetric] seq2_def [symmetric] Let_def prod.case
      sw_def [symmetric] 3 [symmetric] lo_def [symmetric] 4
    by (auto split: if_splits)
  have m3: "moves (srv_sets seq) (srv_sets seq3)" using ok1 ok2 ok3 moves_trans by blast
  show ?thesis
  proof (cases "rc = 0")
    case False
    then show ?thesis using post ok3 m3 by (auto simp: moves_def srv_sets_def)
  next
    case True
    then have e: "out' = o4" "seq' = ?s" using post by auto
    have "srv_ok ?s" using ok3 r by (auto simp: srv_ok_def)
    moreover have "moves (srv_sets seq3) (srv_sets ?s @ [rset o4])"
      using r(3,4) m3 by (cases sw) (auto simp: moves_def srv_sets_def lo_def)
    ultimately show ?thesis using True e r(1) m3 moves_trans by auto
  qed
qed

text \<open>
  The operations touch the world only through the operations of \<open>seq_ops\<close>: a relation that
  those four keep is kept by the allocators.
\<close>

locale seq_world =
  fixes ops :: "'w seq_ops" and R :: "'w \<Rightarrow> 'w \<Rightarrow> bool"
  assumes R_refl: "R w w"
    and R_trans: "R w1 w2 \<Longrightarrow> R w2 w3 \<Longrightarrow> R w1 w3"
    and R_trans_start: "trans_start ops credits sync w = (rc, w') \<Longrightarrow> R w w'"
    and R_trans_stop: "R w (trans_stop ops w)"
    and R_dbo_write: "dbo_write ops type r w = (rc, w') \<Longrightarrow> R w w'"
    and R_fld_server_create: "fld_server_create ops r w = (rc, w') \<Longrightarrow> R w w'"
begin

lemma seq_store_write_R: "seq_store_write ops seq w = (rc, w') \<Longrightarrow> R w w'"
  by (auto simp: seq_store_write_def Let_def split: prod.splits if_splits intro: R_dbo_write)

lemma seq_store_update_R: "seq_store_update ops seq out sync w = (rc, w') \<Longrightarrow> R w w'"
proof -
  assume a: "seq_store_update ops seq out sync w = (rc, w')"
  obtain rc1 w1 where 1: "trans_start ops (SEQ_TXN_STORE_CREDITS + (if out \<noteq> None then FLD_TXN_INDEX_INSERT_CREDITS else 0)) sync w = (rc1, w1)"
    by fastforce
  obtain rc2 w2 where 2: "seq_store_write ops seq w1 = (rc2, w2)" by fastforce
  obtain rc3 w3 where 3: "(if rc2 \<noteq> 0 then (rc2, w2) else case out of None \<Rightarrow> (rc2, w2) | Some out \<Rightarrow> fld_server_create ops out w2) = (rc3, w3)"
    by fastforce
  have "w' = w1 \<or> w' = trans_stop ops w3"
    using a 1 2 3 by (auto simp: seq_store_update_def Let_def split: if_splits option.splits)
  moreover have "R w2 w3" using 3 R_refl R_fld_server_create by (auto split: if_splits option.splits)
  ultimately show ?thesis
    using R_trans_start [OF 1] seq_store_write_R [OF 2] R_trans_stop [of w3] R_trans by blast
qed

lemma seq_server_alloc_super_R:
  "seq_server_alloc_super ops seq out w = Some (rc, seq', out', w') \<Longrightarrow> R w w'"
  by (auto simp: seq_server_alloc_super_def Let_def R_refl split: prod.splits if_splits
      intro: seq_store_update_R)

lemma seq_set_init_R: "seq_set_init ops seq w = (rc, seq', w') \<Longrightarrow> R w w'"
  by (auto simp: seq_set_init_def Let_def split: prod.splits intro: seq_store_update_R)

lemma range_alloc_set_switch_R: "range_alloc_set_switch ops seq w = (rc, seq', w') \<Longrightarrow> R w w'"
  by (auto simp: range_alloc_set_switch_def Let_def split: prod.splits intro: seq_store_update_R)

lemma range_alloc_set_R:
  assumes "range_alloc_set ops seq out w = Some (rc, seq', out', w')"
  shows "R w w'"
proof -
  obtain seq1 w1 where 1: "(if range_is_zero (lss_lowater_set seq) then snd (seq_set_init ops seq w) else (seq, w)) = (seq1, w1)"
    by fastforce
  then have "R w w1"
    using seq_set_init_R [of seq w "fst (seq_set_init ops seq w)"] R_refl
    by (auto split: if_splits) (metis surjective_pairing)
  moreover have "R w1 w'"
    using assms unfolding range_alloc_set_def 1
    by (auto simp: Let_def R_refl split: if_splits prod.splits dest!: range_alloc_set_switch_R)
  ultimately show ?thesis using R_trans by blast
qed

end

text \<open>The low-water set is sane at every step of \<open>range_alloc_set\<close>, so its assertion holds.\<close>

lemma range_alloc_set_total: "\<exists>r. range_alloc_set ops seq out w = Some r"
  by (auto simp: range_alloc_set_def Let_def range_defs split: prod.splits)

end
