(* ===== verification/SeqCluster.thy ===== *)
theory SeqCluster
  imports SeqAlloc
begin

text \<open>
  A cluster of metadata servers and clients that allocate FIDs, composed of the functions of
  \<open>SeqAlloc\<close>. Server 0 runs the sequence controller; the servers ask it for super sequences
  (server 0 directly, the others by RPC), the clients ask their server for meta sequences.
  The network may lose a request or a reply, and the storage may fail at any time.

  The pools of a cluster are the sets of sequences its ranges hold. The main lemma is that
  every step keeps all pools disjoint; the FIDs the clients ever received are then pairwise
  different.
\<close>

section \<open>The cluster\<close>

record 'd cluster =
  c_site :: "u32 \<Rightarrow> md_site"
  c_cli :: "nat \<Rightarrow> lu_client_seq"
  c_dev :: "u32 \<Rightarrow> 'd"

definition put_site :: "u32 \<Rightarrow> md_site \<Rightarrow> 'd cluster \<Rightarrow> 'd cluster" where
  "put_site i site c = c\<lparr>c_site := (c_site c)(i := site)\<rparr>"

definition on_dev :: "u32 \<Rightarrow> ('d \<Rightarrow> 'r \<times> 'd) \<Rightarrow> 'd cluster \<Rightarrow> 'r \<times> 'd cluster" where
  "on_dev i f c = (let (r, d) = f (c_dev c i) in (r, c\<lparr>c_dev := (c_dev c)(i := d)\<rparr>))"

text \<open>The operations of server \<open>i\<close> on its own device; a server without a peer cannot ask it.\<close>

definition node_ops :: "'d seq_ops \<Rightarrow> u32 \<Rightarrow> 'd cluster seq_ops" where
  "node_ops dops i = \<lparr>
     host_be = host_be dops,
     trans_start = (\<lambda>credits sync. on_dev i (trans_start dops credits sync)),
     trans_stop = (\<lambda>c. snd (on_dev i (\<lambda>d. ((), trans_stop dops d)) c)),
     dbo_write = (\<lambda>type r. on_dev i (dbo_write dops type r)),
     dbo_read = (\<lambda>type c. dbo_read dops type (c_dev c i)),
     dt_store_open = (\<lambda>type. on_dev i (dt_store_open dops type)),
     fld_server_create = (\<lambda>r. on_dev i (fld_server_create dops r)),
     seq_proc_init = (\<lambda>c. seq_proc_init dops (c_dev c i)),
     obd_num_exports = (\<lambda>c. obd_num_exports dops (c_dev c i)),
     obd_last_committed = (\<lambda>c. obd_last_committed dops (c_dev c i)),
     lut_last_transno = (\<lambda>c. lut_last_transno dops (c_dev c i)),
     obd_fail_seq_alloc = (\<lambda>c. obd_fail_seq_alloc dops (c_dev c i)),
     request_alloc_pack = (\<lambda>c. request_alloc_pack dops (c_dev c i)),
     queue_wait = (\<lambda>_ _ _ _. None)\<rparr>"

text \<open>What the network does to a request: deliver it, lose it, or lose the reply.\<close>

datatype net = Delivered | Request_lost | Reply_lost

definition serve :: "'d cluster seq_ops \<Rightarrow> u32 \<Rightarrow> ('d cluster \<Rightarrow> net) \<Rightarrow> int \<Rightarrow> u32 \<Rightarrow> lu_seq_range \<Rightarrow>
    'd cluster \<Rightarrow> (int \<times> lu_seq_range \<times> 'd cluster) option" where
  "serve ops i net portal opc tmp c =
    (if net c = Request_lost then Some (- EIO, tmp, c)
     else do {
       (rc, site, out, c') \<leftarrow> seq_req_handle ops (c_site c i) opc tmp c;
       Some (if net c = Reply_lost then - EIO else rc, out, put_site i site c')
     })"

definition mdt_ops :: "'d seq_ops \<Rightarrow> ('d cluster \<Rightarrow> net) \<Rightarrow> u32 \<Rightarrow> 'd cluster seq_ops" where
  "mdt_ops dops net i = (node_ops dops i)\<lparr>queue_wait := serve (node_ops dops 0) 0 net\<rparr>"

text \<open>Client \<open>j\<close> talks to server \<open>i\<close>.\<close>

definition cli_ops :: "'d seq_ops \<Rightarrow> ('d cluster \<Rightarrow> net) \<Rightarrow> u32 \<Rightarrow> 'd cluster seq_ops" where
  "cli_ops dops net i = (node_ops dops i)\<lparr>queue_wait := serve (mdt_ops dops net i) i net\<rparr>"

text \<open>
  The events: client \<open>j\<close> allocates a FID from server \<open>i\<close>, client \<open>j\<close> is disconnected
  (\<open>seq_client_flush\<close>), the devices change by themselves (commits, other load). The
  caller of an allocation passes a cleared buffer; a FID that is written to it joins the list
  of all FIDs issued so far.
\<close>

datatype 'd event = Alloc nat u32 | Flush nat | Env "u32 \<Rightarrow> 'd"

fun cluster_step :: "'d seq_ops \<Rightarrow> ('d cluster \<Rightarrow> net) \<Rightarrow> 'd event \<Rightarrow> lu_fid list \<times> 'd cluster \<Rightarrow>
    (lu_fid list \<times> 'd cluster) option" where
  "cluster_step dops net (Alloc j i) (fids, c) = do {
     (rc, fid, cli, c) \<leftarrow> seq_client_alloc_fid (cli_ops dops net i) (c_cli c j) fid_zero c;
     Some (if fid \<noteq> fid_zero then fid # fids else fids, c\<lparr>c_cli := (c_cli c)(j := cli)\<rparr>)
   }"
| "cluster_step dops net (Flush j) (fids, c) =
     Some (fids, c\<lparr>c_cli := (c_cli c)(j := seq_client_flush (c_cli c j))\<rparr>)"
| "cluster_step dops net (Env d) (fids, c) = Some (fids, c\<lparr>c_dev := d\<rparr>)"

definition cluster_run :: "'d seq_ops \<Rightarrow> ('d cluster \<Rightarrow> net) \<Rightarrow> 'd event list \<Rightarrow> lu_fid list \<times> 'd cluster \<Rightarrow>
    (lu_fid list \<times> 'd cluster) option" where
  "cluster_run dops net = ofold (cluster_step dops net)"

section \<open>Pools\<close>

datatype pool = PCtl | PSpace u32 | PLow u32 | PHigh u32 | PCli nat | PCur nat

definition ctl_seq :: "'d cluster \<Rightarrow> lu_server_seq" where
  "ctl_seq c = the (ms_control_seq (c_site c 0))"

definition srv_seq :: "'d cluster \<Rightarrow> u32 \<Rightarrow> lu_server_seq" where
  "srv_seq c i = the (ms_server_seq (c_site c i))"

fun pool_set :: "'d cluster \<Rightarrow> pool \<Rightarrow> u64 set" where
  "pool_set c PCtl = rset (lss_space (ctl_seq c))"
| "pool_set c (PSpace i) = rset (lss_space (srv_seq c i))"
| "pool_set c (PLow i) = rset (lss_lowater_set (srv_seq c i))"
| "pool_set c (PHigh i) = rset (lss_hiwater_set (srv_seq c i))"
| "pool_set c (PCli j) = rset (lcs_space (c_cli c j))"
| "pool_set c (PCur j) = (if fid_is_zero (lcs_fid (c_cli c j)) then {} else {f_seq (lcs_fid (c_cli c j))})"

definition pools_disjoint :: "'d cluster \<Rightarrow> bool" where
  "pools_disjoint c \<longleftrightarrow> (\<forall>p q. p \<noteq> q \<longrightarrow> pool_set c p \<inter> pool_set c q = {})"

text \<open>The structure of a site and of a client.\<close>

definition site_ok :: "u32 \<Rightarrow> md_site \<Rightarrow> bool" where
  "site_ok i site \<longleftrightarrow>
     (\<exists>seq. ms_server_seq site = Some seq \<and> srv_ok seq \<and>
        (lss_cli seq \<longrightarrow> (\<exists>cli. ms_client_seq site = Some cli \<and> (lcs_srv cli \<longleftrightarrow> i = 0)))) \<and>
     (i = 0 \<longrightarrow> (\<exists>ctl. ms_control_seq site = Some ctl \<and> range_is_sane (lss_space ctl)))"

definition cli_ok :: "lu_client_seq \<Rightarrow> bool" where
  "cli_ok cli \<longleftrightarrow> \<not> lcs_srv cli \<and> range_is_sane (lcs_space cli) \<and> unat (lcs_width cli) < 2 ^ 32"

definition struct_ok :: "'d cluster \<Rightarrow> bool" where
  "struct_ok c \<longleftrightarrow> (\<forall>i. site_ok i (c_site c i)) \<and> (\<forall>j. cli_ok (c_cli c j))"

definition same_seqs :: "'d cluster \<Rightarrow> 'd cluster \<Rightarrow> bool" where
  "same_seqs c c' \<longleftrightarrow> c_site c' = c_site c \<and> c_cli c' = c_cli c"

section \<open>What the operations do to the pools\<close>

lemma on_dev_same: "on_dev i f c = (r, c') \<Longrightarrow> same_seqs c c'"
  by (auto simp: on_dev_def same_seqs_def split: prod.splits)

lemma same_seqs_refl: "same_seqs c c" and same_seqs_trans: "same_seqs c1 c2 \<Longrightarrow> same_seqs c2 c3 \<Longrightarrow> same_seqs c1 c3"
  by (simp_all add: same_seqs_def)

interpretation node_world: seq_world "node_ops dops i" same_seqs for dops i
  by unfold_locales
    (auto simp: node_ops_def intro: same_seqs_refl same_seqs_trans on_dev_same [OF prod.collapse [symmetric]] dest: on_dev_same)

interpretation mdt_world: seq_world "mdt_ops dops net i" same_seqs for dops net i
  by unfold_locales
    (auto simp: mdt_ops_def node_ops_def intro: same_seqs_refl same_seqs_trans
      on_dev_same [OF prod.collapse [symmetric]] dest: on_dev_same)

lemma site_ok_srv: "struct_ok c \<Longrightarrow> ms_server_seq (c_site c i) = Some (srv_seq c i) \<and> srv_ok (srv_seq c i)"
  unfolding struct_ok_def site_ok_def srv_seq_def by (metis option.sel)

lemma site_ok_ctl: "struct_ok c \<Longrightarrow> ms_control_seq (c_site c 0) = Some (ctl_seq c) \<and> range_is_sane (lss_space (ctl_seq c))"
  unfolding struct_ok_def site_ok_def ctl_seq_def by (metis option.sel)

text \<open>What \<open>seq_client_alloc_super\<close> on server \<open>i\<close> does to the cluster.\<close>

lemma serve_super_post:
  assumes "serve (node_ops dops 0) 0 net portal SEQ_ALLOC_SUPER tmp c = Some (rc, out, c')" "struct_ok c"
  shows "c_cli c' = c_cli c \<and> (\<forall>k. k \<noteq> 0 \<longrightarrow> c_site c' k = c_site c k) \<and>
     c_site c' 0 = (c_site c 0)\<lparr>ms_control_seq := Some (ctl_seq c')\<rparr> \<and> range_is_sane (lss_space (ctl_seq c')) \<and>
     pool_set c' PCtl \<subseteq> pool_set c PCtl \<and>
     (rc = 0 \<longrightarrow> range_is_sane out \<and> moves [pool_set c PCtl] [pool_set c' PCtl, rset out])"
proof (cases "net c = Request_lost")
  case True
  then show ?thesis using assms site_ok_ctl [OF assms(2)] by (auto simp: serve_def errno_defs)
next
  case False
  note ctl = site_ok_ctl [OF assms(2)]
  obtain rc1 ctl1 c1 where
    a: "seq_server_alloc_super (node_ops dops 0) (ctl_seq c)
        \<lparr>lsr_start = 0, lsr_end = 0, lsr_index = lsr_index tmp, lsr_flags = lsr_flags tmp\<rparr> c = Some (rc1, ctl1, out, c1)"
    and b: "rc = (if net c = Reply_lost then - EIO else rc1)"
      "c' = put_site 0 ((c_site c 0)\<lparr>ms_control_seq := Some ctl1\<rparr>) c1"
    using assms False ctl
    by (auto simp: serve_def seq_req_handle_def seq_server_handle_def split: Option.bind_splits prod.splits)
  note s = node_world.seq_server_alloc_super_R [OF a]
  note p = seq_server_alloc_super_post [OF a]
  show ?thesis using s p b by (auto simp: same_seqs_def put_site_def ctl_seq_def errno_defs split: if_splits)
qed

lemma seq_client_rpc_post:
  assumes "seq_client_rpc ops cli output opc w = Some (rc, out, w')"
  shows "w' = w \<and> rc \<noteq> 0 \<and> out = output \<or> (\<exists>portal inp rc1 out1. queue_wait ops portal opc inp w = Some (rc1, out1, w') \<and>
      (rc = 0 \<longrightarrow> rc1 = 0 \<and> out1 = out \<and> range_is_sane out \<and> \<not> range_is_exhausted out) \<and>
      (rc \<noteq> 0 \<longrightarrow> out = output \<or> rc1 = 0 \<and> out = out1 \<and> (range_is_sane out \<longrightarrow> range_is_exhausted out)))"
  using assms unfolding seq_client_rpc_def Let_def
  by (auto simp: errno_defs split: if_splits Option.bind_splits prod.splits)

lemma seq_client_alloc_super_post:
  assumes a: "seq_client_alloc_super (mdt_ops dops net i) (c_site c i) c = Some (rc, site', c')"
    and ok: "struct_ok c" and cli: "lss_cli (srv_seq c i)"
  shows "c_cli c' = c_cli c \<and> (\<forall>k. ms_server_seq (c_site (put_site i site' c') k) = ms_server_seq (c_site c k)) \<and>
     struct_ok (put_site i site' c') \<and> pool_set (put_site i site' c') PCtl \<subseteq> pool_set c PCtl \<and>
     (rc = 0 \<longrightarrow> range_is_sane (lcs_space (the (ms_client_seq site'))) \<and>
        moves [pool_set c PCtl] [pool_set (put_site i site' c') PCtl, rset (lcs_space (the (ms_client_seq site')))])"
proof -
  obtain cl where cl: "ms_client_seq (c_site c i) = Some cl" "lcs_srv cl \<longleftrightarrow> i = 0"
    using ok cli site_ok_srv [OF ok, of i] unfolding struct_ok_def site_ok_def by (metis option.sel)
  show ?thesis
  proof (cases "i = 0")
    case True
    obtain ctl1 sp where s: "seq_server_alloc_super (mdt_ops dops net i) (ctl_seq c) (lcs_space cl) c = Some (rc, ctl1, sp, c')"
      and st: "site' = (c_site c i)\<lparr>ms_control_seq := Some ctl1, ms_client_seq := Some (cl\<lparr>lcs_space := sp\<rparr>)\<rparr>"
      using a cl True site_ok_ctl [OF ok]
      by (auto simp: seq_client_alloc_super_def split: Option.bind_splits prod.splits)
    note r = mdt_world.seq_server_alloc_super_R [OF s]
    note p = seq_server_alloc_super_post [OF s]
    have "struct_ok (put_site i site' c')"
      using ok p(3) r cl by (auto simp: struct_ok_def site_ok_def put_site_def st same_seqs_def True)
    then show ?thesis using r p by (auto simp: st True put_site_def same_seqs_def ctl_seq_def)
  next
    case False
    obtain sp where s: "seq_client_rpc (mdt_ops dops net i) cl (lcs_space cl) SEQ_ALLOC_SUPER c = Some (rc, sp, c')"
      and st: "site' = (c_site c i)\<lparr>ms_client_seq := Some (cl\<lparr>lcs_space := sp\<rparr>)\<rparr>"
      using a cl False by (auto simp: seq_client_alloc_super_def split: Option.bind_splits prod.splits)
    have q: "queue_wait (mdt_ops dops net i) = serve (node_ops dops 0) 0 net" by (simp add: mdt_ops_def)
    consider "c' = c" "rc \<noteq> 0" | portal inp rc1 out1 where
        "serve (node_ops dops 0) 0 net portal SEQ_ALLOC_SUPER inp c = Some (rc1, out1, c')" 
        "rc = 0 \<longrightarrow> rc1 = 0 \<and> out1 = sp"
      using seq_client_rpc_post [OF s] q by metis
    then show ?thesis
    proof cases
      case 1
      have "struct_ok (put_site i site' c')"
        using ok cl False by (auto simp: struct_ok_def site_ok_def put_site_def st 1)
      then show ?thesis using 1 False by (auto simp: st put_site_def ctl_seq_def)
    next
      case 2
      note p = serve_super_post [OF 2(1) ok]
      have "site_ok k (c_site c' k)" for k
        using ok p by (cases "k = 0") (auto simp: struct_ok_def site_ok_def)
      then have "struct_ok (put_site i site' c')"
        using ok cl False p by (auto simp: struct_ok_def site_ok_def put_site_def st)
      moreover have "ms_server_seq (c_site c' k) = ms_server_seq (c_site c k)" for k
        using p by (cases "k = 0") auto
      ultimately show ?thesis using p 2(2) False by (auto simp: st put_site_def ctl_seq_def)
    qed
  qed
qed

lemma moves_Cons: "moves As Bs \<Longrightarrow> A \<inter> \<Union> (set As) = {} \<Longrightarrow> A' \<subseteq> A \<Longrightarrow> moves (A # As) (A' # Bs)"
  unfolding moves_def by (simp; blast)

lemma pools_disjointD: "pools_disjoint c \<Longrightarrow> p \<noteq> q \<Longrightarrow> pool_set c p \<inter> pool_set c q = {}"
  by (simp add: pools_disjoint_def)

lemma srv_pools:
  "map (pool_set c) [PCtl, PSpace i, PLow i, PHigh i] = rset (lss_space (ctl_seq c)) # srv_sets (srv_seq c i)"
  by (simp add: srv_sets_def)

lemma srv_pools_disjoint:
  assumes "pools_disjoint c"
  shows "pdisj (map (pool_set c) [PCtl, PSpace i, PLow i, PHigh i])"
  using pools_disjointD [OF assms] by (simp del: pool_set.simps)

lemma put_site_seqs [simp]:
  "srv_seq (put_site i site c) k = (if k = i then the (ms_server_seq site) else srv_seq c k)"
  "ctl_seq (put_site i site c) = (if i = 0 then the (ms_control_seq site) else ctl_seq c)"
  "c_cli (put_site i site c) = c_cli c"
  by (simp_all add: put_site_def srv_seq_def ctl_seq_def)

lemma same_seqs_simps: "same_seqs c c' \<Longrightarrow> srv_seq c' = srv_seq c \<and> ctl_seq c' = ctl_seq c \<and> c_cli c' = c_cli c \<and> c_site c' = c_site c"
  by (simp add: same_seqs_def srv_seq_def ctl_seq_def fun_eq_iff)

lemma struct_ok_put_site: "struct_ok (put_site i site c) \<longleftrightarrow>
    site_ok i site \<and> (\<forall>k. k \<noteq> i \<longrightarrow> site_ok k (c_site c k)) \<and> (\<forall>j. cli_ok (c_cli c j))"
proof -
  have "(\<forall>k. site_ok k (((c_site c)(i := site)) k)) \<longleftrightarrow> site_ok i site \<and> (\<forall>k. k \<noteq> i \<longrightarrow> site_ok k (c_site c k))"
    by (metis fun_upd_apply)
  then show ?thesis by (simp add: struct_ok_def put_site_def del: fun_upd_apply)
qed

lemma struct_ok_put_server:
  assumes "struct_ok (put_site i site c)" "srv_ok seq" "lss_cli seq = lss_cli (the (ms_server_seq site))"
  shows "struct_ok (put_site i (site\<lparr>ms_server_seq := Some seq\<rparr>) c)"
  using assms unfolding struct_ok_put_site by (auto simp: site_ok_def)

lemma seq_server_refill_cases:
  assumes "seq_server_refill ops site seq w = Some (rc, site1, seq1, w1)"
  shows "site1 = site \<and> seq1 = seq \<and> w1 = w \<and> (rc = 0 \<longrightarrow> \<not> range_is_exhausted (lss_space seq)) \<or>
    (lss_cli seq \<and> seq_client_alloc_super ops site w = Some (rc, site1, w1) \<and> range_is_exhausted (lss_space seq) \<and>
      seq1 = (if rc = 0 then seq\<lparr>lss_space := lcs_space (the (ms_client_seq site1))\<rparr> else seq))"
proof (cases "range_is_exhausted (lss_space seq) \<and> lss_cli seq")
  case True
  then show ?thesis using assms
    by (cases "seq_client_alloc_super ops site w")
      (auto simp: seq_server_refill_def Let_def split: if_splits Option.bind_split_asm)
next
  case False
  then show ?thesis using assms by (auto simp: seq_server_refill_def errno_defs split: if_splits)
qed

lemma moves_refill:
  "pdisj [C, {}, L, H] \<Longrightarrow> C' \<subseteq> C \<and> S' \<subseteq> C \<and> C' \<inter> S' = {} \<Longrightarrow> moves [C, {}, L, H] [C', S', L, H]"
  by (simp add: moves_def) blast

lemma seq_server_refill_post:
  assumes a: "seq_server_refill (mdt_ops dops net i) (c_site c i) (srv_seq c i) c = Some (rc, site1, seq1, c1)"
    and ok: "struct_ok c" and d: "pdisj (map (pool_set c) [PCtl, PSpace i, PLow i, PHigh i])"
  defines "c2 \<equiv> put_site i (site1\<lparr>ms_server_seq := Some seq1\<rparr>) c1"
  shows "struct_ok c2 \<and> c_cli c1 = c_cli c \<and> lss_cli seq1 = lss_cli (srv_seq c i) \<and> srv_ok seq1 \<and>
    (\<forall>k. k \<noteq> i \<longrightarrow> srv_seq c1 k = srv_seq c k) \<and>
    moves (map (pool_set c) [PCtl, PSpace i, PLow i, PHigh i]) (map (pool_set c2) [PCtl, PSpace i, PLow i, PHigh i])"
proof -
  define seq where "seq = srv_seq c i"
  have seq: "ms_server_seq (c_site c i) = Some seq" "srv_ok seq" using site_ok_srv [OF ok] by (simp_all add: seq_def)
  consider (same) "site1 = c_site c i" "seq1 = seq" "c1 = c"
    | (super) r where "lss_cli seq" "seq_client_alloc_super (mdt_ops dops net i) (c_site c i) c = Some (r, site1, c1)"
      "seq1 = (if r = 0 then seq\<lparr>lss_space := lcs_space (the (ms_client_seq site1))\<rparr> else seq)"
      "range_is_exhausted (lss_space seq)"
    using seq_server_refill_cases [OF a] unfolding seq_def [symmetric] by blast
  then show ?thesis
  proof cases
    case same
    have "(c_site c i)\<lparr>ms_server_seq := Some seq\<rparr> = c_site c i" using seq(1) by simp
    then have "c2 = c" using same by (simp add: c2_def put_site_def)
    then show ?thesis using same ok seq moves_refl [OF d] by (simp add: seq_def)
  next
    case super
    note p = seq_client_alloc_super_post [OF super(2) ok super(1) [unfolded seq_def]]
    have e: "rset (lss_space seq) = {}" using super(4) seq(2) rset_empty by (simp add: srv_ok_def)
    have s1: "srv_ok seq1" "lss_cli seq1 = lss_cli seq" using seq(2) p super(3) by (auto simp: srv_ok_def)
    have srvs: "ms_server_seq (c_site (put_site i site1 c1) k) = ms_server_seq (c_site c k)" for k using p by blast
    then have "ms_server_seq site1 = Some seq" using seq(1) srvs [of i] by (simp add: put_site_def)
    then have "struct_ok c2" unfolding c2_def using p s1 by (intro struct_ok_put_server) auto
    moreover have "srv_seq c1 k = srv_seq c k" if "k \<noteq> i" for k
      using srvs [of k] that by (simp add: put_site_def srv_seq_def)
    moreover have "moves (map (pool_set c) [PCtl, PSpace i, PLow i, PHigh i]) (map (pool_set c2) [PCtl, PSpace i, PLow i, PHigh i])"
    proof -
      have f: "srv_seq c2 i = seq1" "ctl_seq c2 = ctl_seq (put_site i site1 c1)" by (simp_all add: c2_def)
      have "pool_set c2 PCtl \<subseteq> pool_set c PCtl \<and> rset (lss_space seq1) \<subseteq> pool_set c PCtl \<and>
          pool_set c2 PCtl \<inter> rset (lss_space seq1) = {}"
        using p super(3) e by (cases "r = 0") (auto simp: f moves_def)
      note C = this
      have l: "map (pool_set c) [PCtl, PSpace i, PLow i, PHigh i] =
          [pool_set c PCtl, {}, rset (lss_lowater_set seq), rset (lss_hiwater_set seq)]"
        using e by (simp add: seq_def)
      have r: "map (pool_set c2) [PCtl, PSpace i, PLow i, PHigh i] =
          [pool_set c2 PCtl, rset (lss_space seq1), rset (lss_lowater_set seq), rset (lss_hiwater_set seq)]"
        using super(3) by (simp add: f(1))
      show ?thesis unfolding l r by (rule moves_refill [OF d [unfolded l] C])
    qed
    ultimately show ?thesis using p s1 by (simp add: seq_def)
  qed
qed

lemma seq_set_init_cli: "lss_cli (fst (snd (seq_set_init ops seq w))) = lss_cli seq"
  by (simp add: seq_set_init_def Let_def split: prod.splits)

lemma range_alloc_set_switch_cli: "range_alloc_set_switch ops seq w = (rc, seq', w') \<Longrightarrow> lss_cli seq' = lss_cli seq"
  by (auto simp: range_alloc_set_switch_def Let_def split: prod.splits)

lemma range_alloc_set_cli:
  "range_alloc_set ops seq out w = Some (rc, seq', out', w') \<Longrightarrow> lss_cli seq' = lss_cli seq"
  using seq_set_init_cli [of ops seq w] unfolding range_alloc_set_def Let_def
  by (auto split: if_splits prod.splits dest!: range_alloc_set_switch_cli)


abbreviation srv_pool_list :: "u32 \<Rightarrow> pool list" where
  "srv_pool_list i \<equiv> [PCtl, PSpace i, PLow i, PHigh i]"

lemma seq_server_alloc_meta_post:
  assumes a: "seq_server_alloc_meta (mdt_ops dops net i) (c_site c i) out c = Some (rc, site', out', c')"
    and ok: "struct_ok c" and d: "pdisj (map (pool_set c) (srv_pool_list i))"
  shows "struct_ok (put_site i site' c') \<and> c_cli c' = c_cli c \<and> (\<forall>k. k \<noteq> i \<longrightarrow> srv_seq c' k = srv_seq c k) \<and>
    moves (map (pool_set c) (srv_pool_list i))
      (map (pool_set (put_site i site' c')) (srv_pool_list i) @ [if rc = 0 then rset out' else {}]) \<and>
    (rc = 0 \<longrightarrow> range_is_sane out')"
proof -
  have seq: "ms_server_seq (c_site c i) = Some (srv_seq c i)" using site_ok_srv [OF ok] by simp
  obtain rc1 site1 seq1 c1 where
    r: "seq_server_refill (mdt_ops dops net i) (c_site c i) (srv_seq c i) c = Some (rc1, site1, seq1, c1)"
    and fin: "rc1 \<noteq> 0 \<and> rc = rc1 \<and> site' = site1\<lparr>ms_server_seq := Some seq1\<rparr> \<and> c' = c1 \<or>
      (\<exists>seq2. range_alloc_set (mdt_ops dops net i) seq1 out c1 = Some (rc, seq2, out', c') \<and>
         site' = site1\<lparr>ms_server_seq := Some seq2\<rparr>)"
    using a seq unfolding seq_server_alloc_meta_def
    by (auto split: if_splits Option.bind_split_asm)
  let ?c1 = "put_site i (site1\<lparr>ms_server_seq := Some seq1\<rparr>) c1"
  note p = seq_server_refill_post [OF r ok d]
  from fin show ?thesis
  proof (elim disjE exE conjE)
    assume "rc1 \<noteq> 0" "rc = rc1" "site' = site1\<lparr>ms_server_seq := Some seq1\<rparr>" "c' = c1"
    then show ?thesis using p by (auto simp: moves_def)
  next
    fix seq2
    assume s: "range_alloc_set (mdt_ops dops net i) seq1 out c1 = Some (rc, seq2, out', c')"
      and st: "site' = site1\<lparr>ms_server_seq := Some seq2\<rparr>"
    note same = same_seqs_simps [OF mdt_world.range_alloc_set_R [OF s]]
    let ?O = "if rc = 0 then rset out' else {}"
    have f: "srv_seq ?c1 i = seq1" "ctl_seq (put_site i site' c') = ctl_seq ?c1" "srv_seq (put_site i site' c') i = seq2"
      using same by (simp_all add: st)
    have m1: "moves (map (pool_set c) (srv_pool_list i)) (rset (lss_space (ctl_seq ?c1)) # srv_sets seq1)"
      using p unfolding srv_pools [of ?c1] f(1) by blast
    then have d1: "pdisj (srv_sets seq1)" "rset (lss_space (ctl_seq ?c1)) \<inter> \<Union> (set (srv_sets seq1)) = {}"
      using moves_pdisj [OF m1] unfolding pdisj.simps by blast+
    have q: "srv_ok seq2" "moves (srv_sets seq1) (srv_sets seq2 @ [?O])" "rc = 0 \<longrightarrow> range_is_sane out'"
      using range_alloc_set_post [OF s _ d1(1)] p by simp_all
    have "moves (rset (lss_space (ctl_seq ?c1)) # srv_sets seq1) (rset (lss_space (ctl_seq ?c1)) # srv_sets seq2 @ [?O])"
      by (rule moves_Cons [OF q(2) d1(2) subset_refl])
    then have m2: "moves (map (pool_set c) (srv_pool_list i)) (map (pool_set (put_site i site' c')) (srv_pool_list i) @ [?O])"
      using moves_trans [OF m1] unfolding srv_pools [of "put_site i site' c'"] f by simp
    have e: "put_site i site' c1 = put_site i ((site1\<lparr>ms_server_seq := Some seq1\<rparr>)\<lparr>ms_server_seq := Some seq2\<rparr>) c1"
      by (simp add: st)
    have "struct_ok (put_site i site' c1)" unfolding e
      by (rule struct_ok_put_server) (use p q(1) range_alloc_set_cli [OF s] in auto)
    then have "struct_ok (put_site i site' c')" using same by (simp add: struct_ok_def put_site_def)
    then show ?thesis using p q(3) same m2 by simp
  qed
qed

lemma pdisj_append: "pdisj (As @ Bs) \<longleftrightarrow> pdisj As \<and> pdisj Bs \<and> (\<Union> (set As)) \<inter> (\<Union> (set Bs)) = {}"
  by (induction As) auto

lemma moves_last: "moves As (Bs @ [X]) \<Longrightarrow> Y \<subseteq> X \<Longrightarrow> moves As (Bs @ [Y])"
  unfolding moves_def pdisj_append by auto

lemma moves_client:
  assumes "pdisj (As @ [A, K])" "moves As (As' @ [X])" "A' \<union> K' \<subseteq> X \<union> A \<union> K" "A' \<inter> K' = {}"
  shows "moves (As @ [A, K]) (As' @ [A', K'])"
proof -
  define U V where "U = \<Union> (set As)" and "V = \<Union> (set As')"
  have "pdisj As'" "V \<inter> X = {}" "V \<subseteq> U" "X \<subseteq> U" "U \<inter> (A \<union> K) = {}"
    using assms(1,2) by (auto simp: moves_def pdisj_append U_def V_def)
  then have "pdisj As'" "V \<inter> (A' \<union> K') = {}" "V \<union> (A' \<union> K') \<subseteq> U \<union> (A \<union> K)" using assms(3) by blast+
  then show ?thesis using assms(4) by (simp add: moves_def pdisj_append U_def V_def) blast
qed

lemma serve_meta_post:
  assumes a: "serve (mdt_ops dops net i) i net portal SEQ_ALLOC_META tmp c = Some (rc, out, c')"
    and ok: "struct_ok c" and d: "pdisj (map (pool_set c) (srv_pool_list i))"
  shows "struct_ok c' \<and> c_cli c' = c_cli c \<and> (\<forall>k. k \<noteq> i \<longrightarrow> srv_seq c' k = srv_seq c k) \<and>
    moves (map (pool_set c) (srv_pool_list i)) (map (pool_set c') (srv_pool_list i) @ [if rc = 0 then rset out else {}]) \<and>
    (rc = 0 \<longrightarrow> range_is_sane out)"
proof (cases "net c = Request_lost")
  case True
  then show ?thesis using a ok d by (auto simp: serve_def moves_def errno_defs)
next
  case False
  have "ms_server_seq (c_site c i) \<noteq> None" using site_ok_srv [OF ok] by simp
  then obtain rc1 site1 c1 where
    s: "seq_server_alloc_meta (mdt_ops dops net i) (c_site c i)
        \<lparr>lsr_start = 0, lsr_end = 0, lsr_index = lsr_index tmp, lsr_flags = lsr_flags tmp\<rparr> c = Some (rc1, site1, out, c1)"
    and b: "rc = (if net c = Reply_lost then - EIO else rc1)" "c' = put_site i site1 c1"
    using a False
    by (auto simp: serve_def seq_req_handle_def seq_server_handle_def split: Option.bind_split_asm)
  note post = seq_server_alloc_meta_post [OF s ok d]
  note p = post [THEN conjunct1] post [THEN conjunct2, THEN conjunct1]
    post [THEN conjunct2, THEN conjunct2, THEN conjunct1]
    post [THEN conjunct2, THEN conjunct2, THEN conjunct2, THEN conjunct1]
    post [THEN conjunct2, THEN conjunct2, THEN conjunct2, THEN conjunct2]
  have "rc = 0 \<longrightarrow> rc1 = 0" using b by (simp add: errno_defs)
  then have "moves (map (pool_set c) (srv_pool_list i)) (map (pool_set c') (srv_pool_list i) @ [if rc = 0 then rset out else {}])"
    unfolding b(2) using moves_last [OF p(4), of "if rc = 0 then rset out else {}"] by (simp del: pool_set.simps list.map)
  then show ?thesis using p \<open>rc = 0 \<longrightarrow> rc1 = 0\<close> unfolding b(2) by (simp del: pool_set.simps list.map)
qed

lemma range_take_first:
  assumes "range_is_sane r" "\<not> range_is_exhausted r"
  defines "r' \<equiv> r\<lparr>lsr_start := lsr_start r + 1\<rparr>"
  shows "range_is_sane r'" "lsr_start r \<in> rset r" "rset r' \<subseteq> rset r" "lsr_start r \<notin> rset r'"
proof -
  have lt: "lsr_start r < lsr_end r" using assms(1,2) by (auto simp: range_defs)
  then have "unat (lsr_start r) < unat (lsr_end r)" by (simp add: word_less_nat_alt)
  then have n: "unat (lsr_start r + 1) = unat (lsr_start r) + 1"
    using unat_lt_u64 [of "lsr_end r"] by (subst unat_add_nowrap; simp; linarith)
  show "range_is_sane r'" "lsr_start r \<in> rset r" "rset r' \<subseteq> rset r" "lsr_start r \<notin> rset r'"
    using lt n by (auto simp: r'_def range_is_sane_def rset_memb word_less_nat_alt word_le_nat_alt)
qed

text \<open>\<open>seq_client_alloc_seq\<close>: where the space of the client comes from, and what is taken of it.\<close>

lemma seq_client_alloc_seq_post:
  assumes "seq_client_alloc_seq ops cli w = Some (rc, seqnr, cli', w')"
  shows "cli' = cli\<lparr>lcs_space := lcs_space cli'\<rparr> \<and> (\<exists>sp.
     (w' = w \<and> sp = lcs_space cli \<and> rc = 0 \<or>
      range_is_exhausted (lcs_space cli) \<and> seq_client_rpc ops cli (lcs_space cli) SEQ_ALLOC_META w = Some (rc, sp, w')) \<and>
     (rc \<noteq> 0 \<longrightarrow> lcs_space cli' = sp) \<and>
     (rc = 0 \<longrightarrow> \<not> range_is_exhausted sp \<and> seqnr = lsr_start sp \<and> lcs_space cli' = sp\<lparr>lsr_start := lsr_start sp + 1\<rparr>))"
  using assms unfolding seq_client_alloc_seq_def seq_client_alloc_meta_def Let_def
  by (cases "range_is_exhausted (lcs_space cli)";
      auto split: if_splits Option.bind_split_asm; blast)

lemma cluster_alloc_seq_post:
  assumes a: "seq_client_alloc_seq (cli_ops dops net i) (c_cli c j) c = Some (rc, seqnr, cli', c1)"
    and ok: "struct_ok c" and d: "pdisj (map (pool_set c) (srv_pool_list i))"
  shows "struct_ok c1 \<and> c_cli c1 = c_cli c \<and> (\<forall>k. k \<noteq> i \<longrightarrow> srv_seq c1 k = srv_seq c k) \<and>
     cli' = (c_cli c j)\<lparr>lcs_space := lcs_space cli'\<rparr> \<and> range_is_sane (lcs_space cli') \<and>
     (\<exists>X. moves (map (pool_set c) (srv_pool_list i)) (map (pool_set c1) (srv_pool_list i) @ [X]) \<and>
       rset (lcs_space cli') \<subseteq> X \<union> pool_set c (PCli j) \<and>
       (rc = 0 \<longrightarrow> seqnr \<in> X \<union> pool_set c (PCli j) \<and> seqnr \<notin> rset (lcs_space cli')))"
proof -
  have cl: "range_is_sane (lcs_space (c_cli c j))" using ok by (simp add: struct_ok_def cli_ok_def)
  obtain sp where post: "cli' = (c_cli c j)\<lparr>lcs_space := lcs_space cli'\<rparr>"
      "rc \<noteq> 0 \<longrightarrow> lcs_space cli' = sp"
      "rc = 0 \<longrightarrow> \<not> range_is_exhausted sp \<and> seqnr = lsr_start sp \<and> lcs_space cli' = sp\<lparr>lsr_start := lsr_start sp + 1\<rparr>"
    and src: "c1 = c \<and> sp = lcs_space (c_cli c j) \<and> rc = 0 \<or>
      range_is_exhausted (lcs_space (c_cli c j)) \<and>
      seq_client_rpc (cli_ops dops net i) (c_cli c j) (lcs_space (c_cli c j)) SEQ_ALLOC_META c = Some (rc, sp, c1)"
    using seq_client_alloc_seq_post [OF a] by blast
  have q: "queue_wait (cli_ops dops net i) = serve (mdt_ops dops net i) i net" by (simp add: cli_ops_def)
  have "range_is_sane sp \<and> struct_ok c1 \<and> c_cli c1 = c_cli c \<and> (\<forall>k. k \<noteq> i \<longrightarrow> srv_seq c1 k = srv_seq c k) \<and>
    (\<exists>X. moves (map (pool_set c) (srv_pool_list i)) (map (pool_set c1) (srv_pool_list i) @ [X]) \<and> rset sp \<subseteq> X \<union> pool_set c (PCli j))"
    (is "?goal c1")
  proof -
    have emp: "moves As As' \<Longrightarrow> moves As (As' @ [{}])" for As As' :: "u64 set list"
      unfolding moves_def by (simp add: pdisj_append)
    have same: "?goal c" if "sp = lcs_space (c_cli c j)"
      using that cl ok emp [OF moves_refl [OF d]] by (auto simp del: pool_set.simps(1-4) list.map)
    from src seq_client_rpc_post consider "c1 = c" "sp = lcs_space (c_cli c j)"
      | portal inp rc1 out1 where "serve (mdt_ops dops net i) i net portal SEQ_ALLOC_META inp c = Some (rc1, out1, c1)"
         "rc = 0 \<longrightarrow> rc1 = 0 \<and> out1 = sp" "rc \<noteq> 0 \<longrightarrow> sp = lcs_space (c_cli c j) \<or> rc1 = 0 \<and> sp = out1"
      unfolding q [symmetric] by metis
    then show ?thesis
    proof cases
      case 1
      then show ?thesis using same by simp
    next
      case 2
      note p = serve_meta_post [OF 2(1) ok d]
      let ?X = "if rc1 = 0 then rset out1 else {}"
      have "range_is_sane sp" "rset sp \<subseteq> ?X \<union> pool_set c (PCli j)" using 2(2,3) p cl by (cases "rc = 0"; auto)+
      then show ?thesis using p by blast
    qed
  qed
  then obtain X where X: "range_is_sane sp" "struct_ok c1" "c_cli c1 = c_cli c" "\<forall>k. k \<noteq> i \<longrightarrow> srv_seq c1 k = srv_seq c k"
    "moves (map (pool_set c) (srv_pool_list i)) (map (pool_set c1) (srv_pool_list i) @ [X])" "rset sp \<subseteq> X \<union> pool_set c (PCli j)"
    by blast
  have "range_is_sane (lcs_space cli') \<and> rset (lcs_space cli') \<subseteq> rset sp \<and>
     (rc = 0 \<longrightarrow> seqnr \<in> rset sp \<and> seqnr \<notin> rset (lcs_space cli'))"
    using post(2,3) range_take_first [OF X(1)] X(1) by (cases "rc = 0") auto
  then show ?thesis using X post(1) by blast
qed


text \<open>The invariant of a run: structure, disjoint pools, and the FIDs issued so far.\<close>

definition cluster_inv :: "lu_fid list \<Rightarrow> 'd cluster \<Rightarrow> bool" where
  "cluster_inv fids c \<longleftrightarrow> struct_ok c \<and> pools_disjoint c \<and> distinct fids \<and>
     (\<forall>f \<in> set fids. (\<forall>p. f_seq f \<in> pool_set c p \<longrightarrow>
        (\<exists>j. p = PCur j \<and> f_oid f \<le> f_oid (lcs_fid (c_cli c j)))))"

lemma pools_disjoint_moves:
  assumes d: "pools_disjoint c" and m: "moves (map (pool_set c) ps) (map (pool_set c') ps)"
    and dist: "distinct ps" and same: "\<And>p. p \<notin> set ps \<Longrightarrow> pool_set c' p = pool_set c p"
  shows "pools_disjoint c'"
  unfolding pools_disjoint_def
proof (intro allI impI)
  have pd: "pdisj (map A qs) \<Longrightarrow> distinct qs \<Longrightarrow> p \<in> set qs \<Longrightarrow> q \<in> set qs \<Longrightarrow> p \<noteq> q \<Longrightarrow> A p \<inter> A q = {}"
    for A :: "pool \<Rightarrow> u64 set" and qs p q by (induction qs) auto
  have sub: "pool_set c' p \<inter> pool_set c q = {}" if "p \<in> set ps" "q \<notin> set ps" for p q
  proof -
    have "pool_set c' p \<subseteq> (\<Union>r \<in> set ps. pool_set c r)" using m that(1) by (auto simp: moves_def)
    moreover have "pool_set c r \<inter> pool_set c q = {}" if "r \<in> set ps" for r
      using pools_disjointD [OF d] that \<open>q \<notin> set ps\<close> by metis
    ultimately show ?thesis by blast
  qed
  fix p q :: pool assume "p \<noteq> q"
  then show "pool_set c' p \<inter> pool_set c' q = {}"
    using same sub pd [OF moves_pdisj [OF m] dist] pools_disjointD [OF d] by (metis Int_commute)
qed

lemma pools_disjoint_pdisj: "pools_disjoint c \<Longrightarrow> distinct ps \<Longrightarrow> pdisj (map (pool_set c) ps)"
  unfolding pools_disjoint_def by (induction ps) (simp_all del: pool_set.simps, metis)

lemma cluster_invD:
  "cluster_inv fids c \<Longrightarrow> f \<in> set fids \<Longrightarrow> f_seq f \<in> pool_set c p \<Longrightarrow>
   \<exists>j. p = PCur j \<and> f_oid f \<le> f_oid (lcs_fid (c_cli c j))"
  unfolding cluster_inv_def by blast

lemma cluster_inv_bump:
  assumes inv: "cluster_inv fids c" and nz: "\<not> fid_is_zero (lcs_fid (c_cli c j))"
    and lt: "ucast (fid_oid (lcs_fid (c_cli c j))) < lcs_width (c_cli c j)"
  defines "f \<equiv> lu_fid (f_seq (lcs_fid (c_cli c j))) (f_oid (lcs_fid (c_cli c j)) + 1) (f_ver (lcs_fid (c_cli c j)))"
  shows "cluster_inv (f # fids) (c\<lparr>c_cli := (c_cli c)(j := (c_cli c j)\<lparr>lcs_fid := f\<rparr>)\<rparr>)" (is "cluster_inv _ ?c")
proof -
  let ?l = "lcs_fid (c_cli c j)"
  have ok: "struct_ok c" "cli_ok (c_cli c j)" using inv by (simp_all add: cluster_inv_def struct_ok_def)
  have "unat (f_oid ?l) < unat (lcs_width (c_cli c j))" using lt by (simp add: word_less_nat_alt fid_oid_def)
  then have b: "unat (f_oid ?l) + 1 < 2 ^ 32" using ok(2) by (simp add: cli_ok_def)
  then have n: "unat (f_oid ?l + 1) = unat (f_oid ?l) + 1" by (simp add: unat_word_ariths)
  have gt: "f_oid ?l < f_oid ?l + 1" using n by (simp add: word_less_nat_alt)
  have cur: "pool_set c (PCur j) = {f_seq f}" using nz by (simp add: f_def)
  have "f_oid f \<noteq> 0" using n by (auto simp: f_def)
  then have same: "pool_set ?c p = pool_set c p" for p
    using nz by (cases p) (auto simp: srv_seq_def ctl_seq_def fid_is_zero_def fid_seq_def fid_oid_def f_def)
  have uniq: "p = PCur j" if "f_seq f \<in> pool_set c p" for p
    using that cur pools_disjointD [of c p "PCur j"] inv by (cases "p = PCur j") (auto simp: cluster_inv_def)
  have "f \<notin> set fids"
  proof
    assume "f \<in> set fids"
    then have "f_oid f \<le> f_oid ?l" using cluster_invD [OF inv, of f "PCur j"] cur by auto
    then show False using gt by (simp add: f_def)
  qed
  moreover have "struct_ok ?c" using ok by (auto simp: struct_ok_def cli_ok_def)
  moreover have "pools_disjoint ?c" using inv same by (simp add: cluster_inv_def pools_disjoint_def)
  moreover have "\<exists>k. p = PCur k \<and> f_oid g \<le> f_oid (lcs_fid (c_cli ?c k))" if g: "g \<in> set (f # fids)" "f_seq g \<in> pool_set ?c p" for g p
  proof (cases "g = f")
    case True
    then show ?thesis using g same uniq by auto
  next
    case False
    then obtain k where k: "p = PCur k" "f_oid g \<le> f_oid (lcs_fid (c_cli c k))"
      using g same [of p] cluster_invD [OF inv, of g p] by (auto simp del: pool_set.simps)
    then show ?thesis using gt by (cases "k = j") (auto simp: f_def)
  qed
  ultimately show ?thesis using inv by (simp add: cluster_inv_def del: pool_set.simps)
qed

text \<open>
  The pools after a client took a new sequence, or failed to: they are disjoint, and all but
  the current sequence of a client come from the pools of the server and of the client.
\<close>

abbreviation put_cli :: "nat \<Rightarrow> lu_client_seq \<Rightarrow> 'd cluster \<Rightarrow> 'd cluster" where
  "put_cli j cl c \<equiv> c\<lparr>c_cli := (c_cli c)(j := cl)\<rparr>"

definition free_pools :: "'d cluster \<Rightarrow> u32 \<Rightarrow> nat \<Rightarrow> u64 set" where
  "free_pools c i j = \<Union> (set (map (pool_set c) (srv_pool_list i))) \<union> pool_set c (PCli j)"

lemma cluster_switch_pools:
  assumes ok: "struct_ok c" "pools_disjoint c"
    and a: "seq_client_alloc_seq (cli_ops dops net i) (c_cli c j) c = Some (rc, seqnr, cli', c1)"
    and cl: "cl = cli' \<or> rc = 0 \<and> cl = cli'\<lparr>lcs_fid := lu_fid seqnr 1 0\<rparr>"
  shows "struct_ok (put_cli j cl c1)" "pools_disjoint (put_cli j cl c1)"
    "\<And>q. q \<notin> set (srv_pool_list i @ [PCli j, PCur j]) \<Longrightarrow> pool_set (put_cli j cl c1) q = pool_set c q"
    "\<And>q. q \<in> set (srv_pool_list i @ [PCli j]) \<Longrightarrow> pool_set (put_cli j cl c1) q \<subseteq> free_pools c i j"
    "c_cli c1 = c_cli c" "rc = 0 \<longrightarrow> seqnr \<in> free_pools c i j" "lcs_fid cli' = lcs_fid (c_cli c j)"
proof -
  let ?ps = "srv_pool_list i" and ?c = "put_cli j cl c1"
  have dist: "distinct (?ps @ [PCli j, PCur j])" by simp
  have d: "pdisj (map (pool_set c) ?ps)" by (rule pools_disjoint_pdisj [OF ok(2)]) simp
  have le: "map (pool_set c) (?ps @ [PCli j, PCur j]) = map (pool_set c) ?ps @ [pool_set c (PCli j), pool_set c (PCur j)]"
    by (simp del: pool_set.simps)
  have d2: "pdisj (map (pool_set c) ?ps @ [pool_set c (PCli j), pool_set c (PCur j)])"
    using pools_disjoint_pdisj [OF ok(2) dist] by (simp del: pool_set.simps)
  obtain X where p: "struct_ok c1" "c_cli c1 = c_cli c" "\<forall>k. k \<noteq> i \<longrightarrow> srv_seq c1 k = srv_seq c k"
     "cli' = (c_cli c j)\<lparr>lcs_space := lcs_space cli'\<rparr>" "range_is_sane (lcs_space cli')"
     "moves (map (pool_set c) ?ps) (map (pool_set c1) ?ps @ [X])"
     "rset (lcs_space cli') \<subseteq> X \<union> pool_set c (PCli j)"
     "rc = 0 \<longrightarrow> seqnr \<in> X \<union> pool_set c (PCli j) \<and> seqnr \<notin> rset (lcs_space cli')"
    using cluster_alloc_seq_post [OF a ok(1) d] by blast
  define U where "U = free_pools c i j"
  have XU: "X \<subseteq> U" using p(6) by (auto simp: moves_def U_def free_pools_def)
  have KU: "pool_set c (PCur j) \<inter> U = {}"
    using d2 unfolding U_def free_pools_def pdisj_append by (auto simp del: pool_set.simps)
  have AU: "rset (lcs_space cli') \<subseteq> U" using p(7) XU by (auto simp: U_def free_pools_def)
  show fid: "lcs_fid cli' = lcs_fid (c_cli c j)" by (subst p(4)) simp
  show "c_cli c1 = c_cli c" by (rule p(2))
  show "rc = 0 \<longrightarrow> seqnr \<in> free_pools c i j" using p(8) XU by (auto simp: U_def free_pools_def)
  have "cli_ok cli'" using p(5) ok(1) by (subst p(4)) (simp add: struct_ok_def cli_ok_def)
  then have "cli_ok cl" using cl by (auto simp: cli_ok_def)
  then show "struct_ok ?c" using p(1) by (simp add: struct_ok_def)
  have sp: "lcs_space cl = lcs_space cli'" using cl by auto
  have pe: "map (pool_set ?c) (?ps @ [PCli j, PCur j]) = map (pool_set c1) ?ps @ [rset (lcs_space cli'), pool_set ?c (PCur j)]"
    using sp by (auto simp: srv_seq_def ctl_seq_def)
  have cur: "pool_set ?c (PCur j) = pool_set c (PCur j) \<or> rc = 0 \<and> pool_set ?c (PCur j) = {seqnr}"
    using cl fid by (auto simp: fid_is_zero_def fid_oid_def)
  have ck: "rset (lcs_space cli') \<inter> pool_set ?c (PCur j) = {}"
    using cur KU AU p(8) by (auto simp del: pool_set.simps)
  have cs: "rset (lcs_space cli') \<union> pool_set ?c (PCur j) \<subseteq> X \<union> pool_set c (PCli j) \<union> pool_set c (PCur j)"
    using cur p(7,8) by (auto simp del: pool_set.simps)
  have m: "moves (map (pool_set c) (?ps @ [PCli j, PCur j])) (map (pool_set ?c) (?ps @ [PCli j, PCur j]))"
    unfolding pe le by (rule moves_client [OF d2 p(6) cs ck])
  show same: "pool_set ?c q = pool_set c q" if "q \<notin> set (?ps @ [PCli j, PCur j])" for q
    using that p(2,3) by (cases q) (auto simp: srv_seq_def ctl_seq_def)
  show "pools_disjoint ?c" by (rule pools_disjoint_moves [OF ok(2) m dist same])
  show "pool_set ?c q \<subseteq> free_pools c i j" if "q \<in> set (?ps @ [PCli j])" for q
  proof (cases "q = PCli j")
    case True
    then show ?thesis using AU sp by (simp add: U_def)
  next
    case False
    then have "pool_set ?c q \<subseteq> \<Union> (set (map (pool_set c1) ?ps))"
      using that by (cases q) (auto simp: srv_seq_def ctl_seq_def)
    also have "\<dots> \<subseteq> \<Union> (set (map (pool_set c) ?ps))" using p(6) unfolding moves_def set_append by blast
    finally show ?thesis by (auto simp: free_pools_def)
  qed
qed

lemma free_pools_fresh:
  assumes "cluster_inv fids c" "g \<in> set fids"
  shows "f_seq g \<notin> free_pools c i j"
proof
  assume "f_seq g \<in> free_pools c i j"
  then obtain p where "f_seq g \<in> pool_set c p" "p \<in> set (srv_pool_list i) \<or> p = PCli j"
    unfolding free_pools_def by (auto simp del: pool_set.simps)
  then show False using cluster_invD [OF assms] by fastforce
qed

lemma cluster_switch_old:
  assumes inv: "cluster_inv fids c"
    and a: "seq_client_alloc_seq (cli_ops dops net i) (c_cli c j) c = Some (rc, seqnr, cli', c1)"
    and cl: "cl = cli' \<or> rc = 0 \<and> cl = cli'\<lparr>lcs_fid := lu_fid seqnr 1 0\<rparr>"
    and h: "h \<in> set fids" "f_seq h \<in> pool_set (put_cli j cl c1) q"
  shows "\<exists>k. q = PCur k \<and> f_oid h \<le> f_oid (lcs_fid (c_cli (put_cli j cl c1) k))"
proof -
  have ok: "struct_ok c" "pools_disjoint c" using inv by (simp_all add: cluster_inv_def)
  note p = cluster_switch_pools [OF ok a cl]
  note fresh = free_pools_fresh [OF inv h(1), of i j]
  consider "q \<in> set (srv_pool_list i @ [PCli j])" | "q = PCur j" | "q \<notin> set (srv_pool_list i @ [PCli j, PCur j])" by auto
  then show ?thesis
  proof cases
    case 1
    then show ?thesis using p(4) h fresh by blast
  next
    case 2
    then show ?thesis using cluster_invD [OF inv h(1), of "PCur j"] h(2) fresh cl p(6,7)
      by (auto simp: fid_is_zero_def fid_oid_def split: if_splits)
  next
    case 3
    then show ?thesis using cluster_invD [OF inv h(1), of q] p(3) [OF 3] h p(5) by (auto simp del: pool_set.simps)
  qed
qed

lemma cluster_inv_switch:
  assumes inv: "cluster_inv fids c"
    and a: "seq_client_alloc_seq (cli_ops dops net i) (c_cli c j) c = Some (rc, seqnr, cli', c1)"
  shows "rc = 0 \<Longrightarrow> cluster_inv (lu_fid seqnr 1 0 # fids) (put_cli j (cli'\<lparr>lcs_fid := lu_fid seqnr 1 0\<rparr>) c1)"
    and "rc \<noteq> 0 \<Longrightarrow> cluster_inv fids (put_cli j cli' c1)"
proof -
  have ok: "struct_ok c" "pools_disjoint c" using inv by (simp_all add: cluster_inv_def)
  show "cluster_inv fids (put_cli j cli' c1)"
    using cluster_switch_pools(1,2) [OF ok a disjI1 [OF refl]] cluster_switch_old [OF inv a disjI1 [OF refl]] inv
    unfolding cluster_inv_def by blast
  assume rc: "rc = 0"
  let ?f = "lu_fid seqnr 1 0" and ?cl = "cli'\<lparr>lcs_fid := lu_fid seqnr 1 0\<rparr>"
  have cl: "rc = 0 \<and> ?cl = cli'\<lparr>lcs_fid := ?f\<rparr>" using rc by simp
  note p = cluster_switch_pools [OF ok a disjI2 [OF cl]]
  have new: "q = PCur j" if "seqnr \<in> pool_set (put_cli j ?cl c1) q" for q
    using that pools_disjointD [OF p(2), of q "PCur j"] by (cases "q = PCur j") (auto simp: fid_is_zero_def fid_oid_def)
  have "?f \<notin> set fids" using free_pools_fresh [OF inv, of ?f i j] p(6) rc by auto
  then show "cluster_inv (?f # fids) (put_cli j ?cl c1)"
    using p(1,2) cluster_switch_old [OF inv a disjI2 [OF cl]] new inv
    unfolding cluster_inv_def by (auto simp del: pool_set.simps)
qed

section \<open>No step stops the system\<close>

lemma serve_super_total:
  assumes "struct_ok c"
  shows "\<exists>r. serve (node_ops dops 0) 0 net portal SEQ_ALLOC_SUPER tmp c = Some r"
proof -
  note ctl = site_ok_ctl [OF assms]
  obtain rc ctl1 out1 c1 where "seq_server_alloc_super (node_ops dops 0) (ctl_seq c)
      \<lparr>lsr_start = 0, lsr_end = 0, lsr_index = lsr_index tmp, lsr_flags = lsr_flags tmp\<rparr> c = Some (rc, ctl1, out1, c1)"
    using seq_server_alloc_super_total [OF conjunct2 [OF ctl]] by (metis prod_cases4)
  then show ?thesis using ctl by (simp add: serve_def seq_req_handle_def seq_server_handle_def)
qed

lemma seq_client_rpc_total:
  assumes "\<And>portal inp. \<exists>r. queue_wait ops portal opc inp w = Some r" "opc = SEQ_ALLOC_SUPER \<or> opc = SEQ_ALLOC_META"
  shows "\<exists>r. seq_client_rpc ops cli output opc w = Some r"
proof -
  obtain f where "\<And>portal inp. queue_wait ops portal opc inp w = Some (f portal inp)"
    using assms(1) by metis
  then show ?thesis using assms(2) by (simp add: seq_client_rpc_def Let_def split: prod.split)
qed

lemma seq_client_alloc_super_total:
  assumes ok: "struct_ok c" and cli: "lss_cli (srv_seq c i)"
  shows "\<exists>r. seq_client_alloc_super (mdt_ops dops net i) (c_site c i) c = Some r"
proof -
  obtain cl where cl: "ms_client_seq (c_site c i) = Some cl" "lcs_srv cl \<longleftrightarrow> i = 0"
    using ok cli site_ok_srv [OF ok, of i] unfolding struct_ok_def site_ok_def by (metis option.sel)
  have q: "queue_wait (mdt_ops dops net i) = serve (node_ops dops 0) 0 net" by (simp add: mdt_ops_def)
  show ?thesis
  proof (cases "i = 0")
    case True
    then show ?thesis
      using cl site_ok_ctl [OF ok] seq_server_alloc_super_total [of "ctl_seq c" "mdt_ops dops net 0" "lcs_space cl" c]
      by (auto simp: seq_client_alloc_super_def)
  next
    case False
    obtain r where "seq_client_rpc (mdt_ops dops net i) cl (lcs_space cl) SEQ_ALLOC_SUPER c = Some r"
      using seq_client_rpc_total [of "mdt_ops dops net i" SEQ_ALLOC_SUPER c cl "lcs_space cl"]
        serve_super_total [OF ok] unfolding q by blast
    then show ?thesis using cl False by (cases r) (auto simp: seq_client_alloc_super_def)
  qed
qed

lemma seq_server_refill_total:
  assumes ok: "struct_ok c"
  shows "\<exists>r. seq_server_refill (mdt_ops dops net i) (c_site c i) (srv_seq c i) c = Some r"
proof (cases "range_is_exhausted (lss_space (srv_seq c i)) \<and> lss_cli (srv_seq c i)")
  case True
  obtain rc site1 c1 where s: "seq_client_alloc_super (mdt_ops dops net i) (c_site c i) c = Some (rc, site1, c1)"
    using seq_client_alloc_super_total [OF ok] True by (metis prod_cases3)
  note p = seq_client_alloc_super_post [OF s ok conjunct2 [OF True]]
  have "site_ok i site1" using p unfolding struct_ok_put_site by blast
  moreover have "ms_server_seq site1 = Some (srv_seq c i)"
  proof -
    have "ms_server_seq (c_site (put_site i site1 c1) i) = ms_server_seq (c_site c i)" using p by blast
    then show ?thesis using site_ok_srv [OF ok, of i] by (simp add: put_site_def)
  qed
  ultimately obtain cl where "ms_client_seq site1 = Some cl" using True by (auto simp: site_ok_def)
  then show ?thesis using True s p by (auto simp: seq_server_refill_def)
next
  case False
  then show ?thesis by (auto simp: seq_server_refill_def)
qed

lemma serve_meta_total:
  assumes ok: "struct_ok c"
  shows "\<exists>r. serve (mdt_ops dops net i) i net portal SEQ_ALLOC_META tmp c = Some r"
proof -
  have seq: "ms_server_seq (c_site c i) = Some (srv_seq c i)" "range_is_sane (lss_space (srv_seq c i))"
    using site_ok_srv [OF ok] by (simp_all add: srv_ok_def)
  obtain rc site1 seq1 c1 where
    "seq_server_refill (mdt_ops dops net i) (c_site c i) (srv_seq c i) c = Some (rc, site1, seq1, c1)"
    using seq_server_refill_total [OF ok] by (metis prod_cases4)
  then have "\<exists>r. seq_server_alloc_meta (mdt_ops dops net i) (c_site c i) out c = Some r" for out
    using seq range_alloc_set_total [of "mdt_ops dops net i" seq1 out c1] by (auto simp: seq_server_alloc_meta_def)
  then obtain rc1 site2 out1 c2 where "seq_server_alloc_meta (mdt_ops dops net i) (c_site c i)
      \<lparr>lsr_start = 0, lsr_end = 0, lsr_index = lsr_index tmp, lsr_flags = lsr_flags tmp\<rparr> c = Some (rc1, site2, out1, c2)"
    by (metis prod_cases4)
  then show ?thesis using seq by (simp add: serve_def seq_req_handle_def seq_server_handle_def)
qed

lemma seq_client_alloc_seq_total:
  assumes ok: "struct_ok c"
  shows "\<exists>r. seq_client_alloc_seq (cli_ops dops net i) (c_cli c j) c = Some r"
proof -
  have cl: "\<not> lcs_srv (c_cli c j)" "range_is_sane (lcs_space (c_cli c j))"
    using ok by (simp_all add: struct_ok_def cli_ok_def)
  have q: "queue_wait (cli_ops dops net i) = serve (mdt_ops dops net i) i net" by (simp add: cli_ops_def)
  obtain rc sp c1 where r: "seq_client_rpc (cli_ops dops net i) (c_cli c j) (lcs_space (c_cli c j)) SEQ_ALLOC_META c = Some (rc, sp, c1)"
    using seq_client_rpc_total [of "cli_ops dops net i" SEQ_ALLOC_META c "c_cli c j" "lcs_space (c_cli c j)"]
      serve_meta_total [OF ok] unfolding q by (metis prod_cases3)
  then have "rc = 0 \<longrightarrow> \<not> range_is_exhausted sp" using seq_client_rpc_post [OF r] by auto
  then show ?thesis using cl r by (auto simp: seq_client_alloc_seq_def seq_client_alloc_meta_def)
qed

section \<open>Runs of the cluster\<close>

lemma cluster_inv_flush: "cluster_inv fids c \<Longrightarrow> cluster_inv fids (put_cli j (seq_client_flush (c_cli c j)) c)"
proof -
  assume inv: "cluster_inv fids c"
  let ?c = "put_cli j (seq_client_flush (c_cli c j)) c"
  have sub: "pool_set ?c p \<subseteq> pool_set c p" for p
    by (cases p) (auto simp: srv_seq_def ctl_seq_def seq_client_flush_def Let_def range_init_def rset_memb
        fid_zero_def fid_is_zero_def fid_seq_def fid_oid_def)
  have "struct_ok ?c" using inv
    by (auto simp: cluster_inv_def struct_ok_def cli_ok_def seq_client_flush_def Let_def range_init_def range_is_sane_def)
  moreover have "pools_disjoint ?c" using inv sub unfolding cluster_inv_def pools_disjoint_def by blast
  moreover have "\<exists>k. q = PCur k \<and> f_oid f \<le> f_oid (lcs_fid (c_cli ?c k))" if f: "f \<in> set fids" "f_seq f \<in> pool_set ?c q" for f q
  proof -
    obtain k where k: "q = PCur k" "f_oid f \<le> f_oid (lcs_fid (c_cli c k))" using cluster_invD [OF inv f(1)] f(2) sub by blast
    moreover have "k \<noteq> j" using f(2) k(1)
      by (auto simp: seq_client_flush_def Let_def fid_zero_def fid_is_zero_def fid_seq_def fid_oid_def)
    ultimately show ?thesis by auto
  qed
  ultimately show ?thesis using inv unfolding cluster_inv_def by blast
qed

lemma fid_bump_nonzero:
  assumes "ucast (fid_oid f) < w" "unat (w :: u64) < 2 ^ 32"
  shows "unat (f_oid f + 1) = unat (f_oid f) + 1" "f_oid f + 1 \<noteq> 0"
proof -
  have "unat (f_oid f) < unat w" using assms(1) by (simp add: word_less_nat_alt fid_oid_def)
  then have "unat (f_oid f) + 1 < 2 ^ 32" using assms(2) by simp
  then show n: "unat (f_oid f + 1) = unat (f_oid f) + 1" by (simp add: unat_word_ariths)
  then show "f_oid f + 1 \<noteq> 0" by auto
qed

lemma cluster_step_inv:
  assumes "cluster_inv fids c"
  shows "\<exists>fids' c'. cluster_step dops net ev (fids, c) = Some (fids', c') \<and> cluster_inv fids' c'"
proof (cases ev)
  case (Alloc j i)
  have ok: "struct_ok c" using assms by (simp add: cluster_inv_def)
  show ?thesis
  proof (cases "fid_is_zero (lcs_fid (c_cli c j)) \<or> ucast (fid_oid (lcs_fid (c_cli c j))) \<ge> lcs_width (c_cli c j)")
    case True
    obtain rc seqnr cli' c1 where s: "seq_client_alloc_seq (cli_ops dops net i) (c_cli c j) c = Some (rc, seqnr, cli', c1)"
      using seq_client_alloc_seq_total [OF ok] by (metis prod_cases4)
    show ?thesis
    proof (cases "rc = 0")
      case z: True
      then have "cluster_step dops net ev (fids, c) = Some (lu_fid seqnr 1 0 # fids, put_cli j (cli'\<lparr>lcs_fid := lu_fid seqnr 1 0\<rparr>) c1)"
        using True s by (simp add: Alloc seq_client_alloc_fid_def Let_def fid_zero_def)
      then show ?thesis using cluster_inv_switch(1) [OF assms s z] by blast
    next
      case nz: False
      then have "cluster_step dops net ev (fids, c) = Some (fids, put_cli j cli' c1)"
        using True s by (simp add: Alloc seq_client_alloc_fid_def)
      then show ?thesis using cluster_inv_switch(2) [OF assms s nz] by blast
    qed
  next
    case False
    let ?l = "lcs_fid (c_cli c j)" let ?f = "lu_fid (f_seq ?l) (f_oid ?l + 1) (f_ver ?l)"
    have lt: "ucast (fid_oid ?l) < lcs_width (c_cli c j)" using False by (simp add: not_le)
    have "?f \<noteq> fid_zero" using fid_bump_nonzero [OF lt] ok by (simp add: fid_zero_def struct_ok_def cli_ok_def)
    then have "cluster_step dops net ev (fids, c) = Some (?f # fids, put_cli j ((c_cli c j)\<lparr>lcs_fid := ?f\<rparr>) c)"
      using False lt by (simp add: Alloc seq_client_alloc_fid_def Let_def)
    then show ?thesis using cluster_inv_bump [OF assms _ lt] False by blast
  qed
next
  case (Flush j)
  then show ?thesis using cluster_inv_flush [OF assms] by simp
next
  case (Env d)
  have "pool_set (c\<lparr>c_dev := d\<rparr>) = pool_set c" 
    by (rule ext, rename_tac p, case_tac p) (simp_all add: srv_seq_def ctl_seq_def)
  then show ?thesis using Env assms by (simp add: cluster_inv_def struct_ok_def pools_disjoint_def)
qed

lemma cluster_run_inv:
  "cluster_inv fids c \<Longrightarrow> \<exists>fids' c'. cluster_run dops net evs (fids, c) = Some (fids', c') \<and> cluster_inv fids' c'"
proof (induction evs arbitrary: fids c)
  case (Cons ev evs)
  then show ?case using cluster_step_inv [OF Cons.prems, of dops net ev] by (fastforce simp: cluster_run_def)
qed (simp add: cluster_run_def)
section \<open>A fresh cluster\<close>

text \<open>
  What the start-up code leaves behind on an empty file system: the controller owns the whole
  space, the servers own nothing and know whom to ask, the clients own nothing.
\<close>

definition fresh_server :: "lu_server_seq \<Rightarrow> bool" where
  "fresh_server seq \<longleftrightarrow> range_is_zero (lss_space seq) \<and> range_is_zero (lss_lowater_set seq) \<and>
     range_is_zero (lss_hiwater_set seq) \<and> lss_width seq = LUSTRE_SEQ_META_WIDTH \<and>
     lss_set_width seq = LUSTRE_SEQ_BATCH_WIDTH \<and> lss_cli seq"

definition fresh_controller :: "lu_server_seq \<Rightarrow> bool" where
  "fresh_controller seq \<longleftrightarrow> lsr_start (lss_space seq) = FID_SEQ_NORMAL \<and> lsr_end (lss_space seq) = NOT 0 \<and>
     lss_width seq = LUSTRE_SEQ_SUPER_WIDTH"

definition fresh_client :: "lu_client_seq \<Rightarrow> bool" where
  "fresh_client cli \<longleftrightarrow> range_is_zero (lcs_space cli) \<and> lcs_fid cli = fid_zero \<and>
     lcs_width cli = LUSTRE_SEQ_MAX_WIDTH"

definition fresh_site :: "u32 \<Rightarrow> md_site \<Rightarrow> bool" where
  "fresh_site i ms \<longleftrightarrow>
     (case ms_server_seq ms of None \<Rightarrow> False | Some seq \<Rightarrow> fresh_server seq) \<and>
     (case ms_client_seq ms of None \<Rightarrow> False | Some cli \<Rightarrow> fresh_client cli \<and> (lcs_srv cli \<longleftrightarrow> i = 0)) \<and>
     (i = 0 \<longrightarrow> (case ms_control_seq ms of None \<Rightarrow> False | Some ctl \<Rightarrow> fresh_controller ctl))"

text \<open>The start-up code establishes it.\<close>

lemma seq_server_init_fresh:
  assumes "seq_server_init ops server_seq_alloc type node w = Some (0, seq, w')" "\<And>w. fst (dbo_read ops type w) = 0"
  shows "if type = LUSTRE_SEQ_SERVER then fresh_server (seq\<lparr>lss_cli := True\<rparr>) \<and> \<not> lss_cli seq else fresh_controller seq"
proof -
  have rd: "seq_store_read ops s v = (- ENODATA, s)" if "lss_type s = type" for s v
    using assms(2) [of v] that by (auto simp: seq_store_read_def split: prod.splits)
  show ?thesis
    using assms(1)
    by (auto simp: seq_server_init_def seq_store_init_def rd Let_def server_seq_alloc_def range_init_def
        fresh_server_def fresh_controller_def range_is_zero_def LUSTRE_SEQ_ZERO_RANGE_def LUSTRE_SEQ_SPACE_RANGE_def
        split: prod.splits if_splits)
qed

lemma seq_client_init_fresh:
  "seq_client_init ops client_seq_alloc exp type srv w = Some (0, cli) \<Longrightarrow> fresh_client cli \<and> lcs_srv cli = srv"
  by (auto simp: seq_client_init_def seq_client_flush_def client_seq_alloc_def Let_def fresh_client_def
      range_is_zero_def range_init_def split: if_splits)

lemma seq_server_set_cli_fresh:
  assumes "seq_server_set_cli ms True = Some (0, ms')" "ms_server_seq ms = Some seq" "\<not> lss_cli seq"
    "fresh_server (seq\<lparr>lss_cli := True\<rparr>)" "ms_client_seq ms = Some cli" "fresh_client cli" "lcs_srv cli \<longleftrightarrow> i = 0"
    "i = 0 \<longrightarrow> (\<exists>ctl. ms_control_seq ms = Some ctl \<and> fresh_controller ctl)"
  shows "fresh_site i ms'"
  using assms by (auto simp: seq_server_set_cli_def fresh_site_def fresh_client_def range_is_zero_def split: option.splits)

lemma mdt_seq_init_fresh_ctl:
  assumes a: "mdt_seq_init ops alloc ms w = Some (0, ms', w')" and "ms_node_id ms = 0"
    and e: "\<And>type w. fst (dbo_read ops type w) = 0"
  shows "fresh_site 0 ms'"
proof -
  obtain ms1 w1 where c: "mdt_seq_init_ctl ops alloc ms w = Some (0, ms1, w1)"
    and r: "\<exists>srv w2. seq_server_init ops server_seq_alloc LUSTRE_SEQ_SERVER (ms_node_id ms1) w1 = Some (0, srv, w2) \<and>
      ms_node_id ms1 = 0 \<and> seq_server_set_cli (ms1\<lparr>ms_server_seq := Some srv\<rparr>) True = Some (0, ms')"
  proof -
    obtain rc1 ms1 w1 where c: "mdt_seq_init_ctl ops alloc ms w = Some (rc1, ms1, w1)"
      using a assms(2) by (auto simp: mdt_seq_init_def split: Option.bind_split_asm)
    have "rc1 = 0" using a assms(2) c by (auto simp: mdt_seq_init_def split: if_splits)
    moreover have "ms_node_id ms1 = 0" using c assms(2)
      by (auto simp: mdt_seq_init_ctl_def mdt_seq_fini_def split: if_splits Option.bind_split_asm)
    ultimately show ?thesis using a assms(2) c that
      by (auto simp: mdt_seq_init_def Let_def errno_defs split: if_splits Option.bind_split_asm)
  qed
  obtain ctl w2 cli where k: "seq_server_init ops server_seq_alloc LUSTRE_SEQ_CONTROLLER (ms_node_id ms) w = Some (0, ctl, w2)"
    "seq_client_init ops client_seq_alloc False LUSTRE_SEQ_METADATA True w2 = Some (0, cli)"
    "ms1 = ms\<lparr>ms_control_seq := Some ctl, ms_client_seq := Some cli\<rparr>"
    using c by (auto simp: mdt_seq_init_ctl_def errno_defs split: if_splits Option.bind_split_asm)
  obtain srv w3 where s: "seq_server_init ops server_seq_alloc LUSTRE_SEQ_SERVER (ms_node_id ms1) w1 = Some (0, srv, w3)"
      "seq_server_set_cli (ms1\<lparr>ms_server_seq := Some srv\<rparr>) True = Some (0, ms')" using r by blast
  show ?thesis
    using seq_server_set_cli_fresh [OF s(2), of srv cli 0] seq_server_init_fresh [OF s(1) e]
      seq_server_init_fresh [OF k(1) e] seq_client_init_fresh [OF k(2)] by (simp add: k(3))
qed

lemma mdt_seq_init_fresh_srv:
  assumes a: "mdt_seq_init ops alloc ms w = Some (0, ms1, w1)" "ms_node_id ms \<noteq> 0" "ms_client_seq ms = None"
    and b: "mdt_seq_init_cli ops alloc' (Some 0) (Some True) exp ms1 w1 = Some (0, ms2)"
    and e: "\<And>type w. fst (dbo_read ops type w) = 0"
  shows "fresh_site (ms_node_id ms) ms2"
proof -
  obtain srv where s: "seq_server_init ops server_seq_alloc LUSTRE_SEQ_SERVER (ms_node_id ms) w = Some (0, srv, w1)"
      "ms1 = ms\<lparr>ms_server_seq := Some srv\<rparr>"
    using a(1,2) by (auto simp: mdt_seq_init_def Let_def errno_defs split: if_splits Option.bind_split_asm)
  obtain cli where c: "seq_client_init ops client_seq_alloc True LUSTRE_SEQ_METADATA False w1 = Some (0, cli)"
      "seq_server_set_cli (ms1\<lparr>ms_client_seq := Some cli\<rparr>) True = Some (0, ms2)"
    using b a(3) by (auto simp: s(2) mdt_seq_init_cli_def Let_def errno_defs split: if_splits Option.bind_split_asm)
  show ?thesis
    using seq_server_set_cli_fresh [OF c(2), of srv cli "ms_node_id ms"] seq_server_init_fresh [OF s(1) e]
      seq_client_init_fresh [OF c(1)] a(2) by (simp add: s(2))
qed

definition fresh_cluster :: "'d cluster \<Rightarrow> bool" where
  "fresh_cluster c \<longleftrightarrow> (\<forall>i. fresh_site i (c_site c i)) \<and> (\<forall>j. fresh_client (c_cli c j) \<and> \<not> lcs_srv (c_cli c j))"

lemma fresh_cluster_inv:
  assumes "fresh_cluster c"
  shows "cluster_inv [] c"
proof -
  have z: "range_is_zero r \<Longrightarrow> rset r = {} \<and> range_is_sane r" for r
    by (auto simp: range_is_zero_def rset_memb range_is_sane_def)
  have s: "\<exists>seq cli. ms_server_seq (c_site c i) = Some seq \<and> fresh_server seq \<and> ms_client_seq (c_site c i) = Some cli \<and>
      (lcs_srv cli \<longleftrightarrow> i = 0) \<and> (i = 0 \<longrightarrow> (\<exists>ctl. ms_control_seq (c_site c i) = Some ctl \<and> fresh_controller ctl))" for i
  proof -
    have "fresh_site i (c_site c i)" using assms by (simp add: fresh_cluster_def)
    then show ?thesis by (auto simp: fresh_site_def split: option.splits)
  qed
  have cl: "fresh_client (c_cli c j)" "\<not> lcs_srv (c_cli c j)" for j using assms by (simp_all add: fresh_cluster_def)
  have "site_ok i (c_site c i)" for i
    using s [of i] z by (auto simp: site_ok_def fresh_server_def srv_ok_def fresh_controller_def range_is_sane_def)
  moreover have "cli_ok (c_cli c j)" for j using cl [of j] z by (simp add: cli_ok_def fresh_client_def)
  ultimately have "struct_ok c" by (simp add: struct_ok_def)
  moreover have "pool_set c p = {}" if "p \<noteq> PCtl" for p
  proof -
    have "fresh_server (srv_seq c i)" for i using s [of i] by (auto simp: srv_seq_def)
    then show ?thesis using that cl z
      by (cases p) (simp_all add: fresh_server_def fresh_client_def fid_is_zero_def fid_zero_def fid_seq_def fid_oid_def)
  qed
  then have "pools_disjoint c" unfolding pools_disjoint_def by (metis Int_empty_left Int_empty_right)
  ultimately show ?thesis by (simp add: cluster_inv_def)
qed

section \<open>Uniqueness of FIDs\<close>

text \<open>
  (C1) FIDs are unique in the cluster: from the state the start-up code leaves on an empty
  file system, every sequence of allocations by any clients on any servers, of disconnects and
  of changes of the devices, with requests and replies lost and the storage failing at any
  point, runs without tripping an assertion, and no two FIDs it hands out are equal.
\<close>

theorem cluster_fids_unique:
  assumes "fresh_cluster c"
  shows "\<exists>fids c'. cluster_run dops net evs ([], c) = Some (fids, c') \<and> distinct fids"
  using cluster_run_inv [OF fresh_cluster_inv [OF assms], of dops net evs] unfolding cluster_inv_def by blast

definition ops_ex :: "unit seq_ops" where
  "ops_ex = \<lparr>host_be = False, trans_start = (\<lambda>_ _ d. (0, d)), trans_stop = (\<lambda>d. d),
     dbo_write = (\<lambda>_ _ d. (24, d)), dbo_read = (\<lambda>_ _. (0, LUSTRE_SEQ_ZERO_RANGE)),
     dt_store_open = (\<lambda>_ d. (0, d)), fld_server_create = (\<lambda>_ d. (0, d)), seq_proc_init = (\<lambda>_. 0),
     obd_num_exports = (\<lambda>_. 2), obd_last_committed = (\<lambda>_. 0), lut_last_transno = (\<lambda>_. 0),
     obd_fail_seq_alloc = (\<lambda>_. False), request_alloc_pack = (\<lambda>_. True), queue_wait = (\<lambda>_ _ _ _. None)\<rparr>"

definition site_ex :: "u32 \<Rightarrow> md_site" where
  "site_ex i = (let ms = \<lparr>ms_node_id = i, ms_server_seq = None, ms_control_seq = None, ms_client_seq = None\<rparr>;
      ms1 = fst (snd (the (mdt_seq_init ops_ex (\<lambda>_. True) ms ())))
    in if i = 0 then ms1
       else snd (the (mdt_seq_init_cli ops_ex (\<lambda>_. True) (Some 0) (Some True) True ms1 ())))"

definition cluster_ex :: "unit cluster" where
  "cluster_ex = \<lparr>c_site = site_ex,
     c_cli = (\<lambda>_. snd (the (seq_client_init ops_ex client_seq_alloc True LUSTRE_SEQ_METADATA False ()))),
     c_dev = (\<lambda>_. ())\<rparr>"

lemmas seq_init_defs = mdt_seq_init_def mdt_seq_init_ctl_def mdt_seq_init_cli_def seq_server_init_def
  seq_client_init_def seq_client_flush_def seq_server_set_cli_def seq_store_init_def seq_store_read_def
  seq_store_update_def seq_store_write_def server_seq_alloc_def client_seq_alloc_def range_init_def
  LUSTRE_SEQ_ZERO_RANGE_def LUSTRE_SEQ_SPACE_RANGE_def Let_def

lemma fresh_site_ex: "fresh_site i (site_ex i)"
  by (simp add: site_ex_def ops_ex_def seq_init_defs fresh_site_def fresh_server_def fresh_client_def
      fresh_controller_def range_is_zero_def range_is_sane_def errno_defs)

lemma fresh_cluster_ex: "fresh_cluster cluster_ex"
  by (simp add: fresh_cluster_def cluster_ex_def fresh_site_ex ops_ex_def seq_init_defs fresh_client_def range_is_zero_def)

theorem cluster_fids_unique_witness:
  "fresh_cluster cluster_ex \<and>
   (\<exists>fids c'. cluster_run ops_ex (\<lambda>_. Delivered) [Alloc 0 0, Alloc 0 0, Alloc 1 7, Flush 0, Alloc 0 3] ([], cluster_ex) = Some (fids, c') \<and>
      distinct fids)"
  using cluster_fids_unique [OF fresh_cluster_ex] fresh_cluster_ex by blast

end
