(* ===== verification/SeqCrash.thy ===== *)
theory SeqCrash
  imports SeqAlloc
begin

text \<open>
  What happens to the sequences when a node crashes, and when a server or the network
  misbehaves. The controller writes its space synchronously before it returns a super
  sequence: no super sequence is handed out twice, whatever crashes come between. The two
  other theorems record defects of the source: the high-water set that a metadata server
  never switches to, and the reply that makes a client stop at its next allocation.
\<close>

section \<open>Crashes of the controller\<close>

text \<open>
  \<open>durable w\<close> is the content of the controller's file that survives a crash (\<open>None\<close> for an
  empty file). What the code relies on in the storage stack: opening the file and starting a
  transaction do not change it; a synchronous transaction that wrote the whole range makes it durable;
  any other transaction leaves the old or the new range; reading returns the content.
\<close>

definition ctl_store_ok :: "'w seq_ops \<Rightarrow> ('w \<Rightarrow> lu_seq_range option) \<Rightarrow> bool" where
  "ctl_store_ok ops durable \<longleftrightarrow>
     (\<forall>credits sync w rc w'. trans_start ops credits sync w = (rc, w') \<longrightarrow> durable w' = durable w) \<and>
     (\<forall>type w rc w'. dt_store_open ops type w = (rc, w') \<longrightarrow> durable w' = durable w) \<and>
     (\<forall>credits sync w w1 r n w2 w3 x rc.
        trans_start ops credits sync w = (0, w1) \<longrightarrow> dbo_write ops LUSTRE_SEQ_CONTROLLER r w1 = (n, w2) \<longrightarrow>
        w3 = w2 \<or> fld_server_create ops x w2 = (rc, w3) \<longrightarrow>
        (durable (trans_stop ops w3) = Some r \<or> durable (trans_stop ops w3) = durable w \<and> \<not> (sync \<and> n = 24))) \<and>
     (\<forall>w. dbo_read ops LUSTRE_SEQ_CONTROLLER w =
        (case durable w of None \<Rightarrow> (0, LUSTRE_SEQ_ZERO_RANGE) | Some r \<Rightarrow> (24, r)))"

text \<open>
  The life of a controller: it starts on the store as it is, it allocates, the rest of the
  node works, it crashes and starts again. The last argument lists the ranges it returned
  with success.
\<close>

inductive ctl_reach :: "'w seq_ops \<Rightarrow> ('w \<Rightarrow> lu_seq_range option) \<Rightarrow> lu_server_seq \<Rightarrow> 'w \<Rightarrow> lu_seq_range list \<Rightarrow> bool"
  for ops durable where
  start: "durable w = None \<Longrightarrow>
    seq_server_init ops server_seq_alloc LUSTRE_SEQ_CONTROLLER node w = Some (0, seq, w') \<Longrightarrow>
    ctl_reach ops durable seq w' []"
| alloc: "ctl_reach ops durable seq w rs \<Longrightarrow>
    seq_server_alloc_super ops seq out w = Some (rc, seq', out', w') \<Longrightarrow>
    ctl_reach ops durable seq' w' (if rc = 0 then out' # rs else rs)"
| env: "ctl_reach ops durable seq w rs \<Longrightarrow> durable w' = durable w \<Longrightarrow> ctl_reach ops durable seq w' rs"
| crash: "ctl_reach ops durable seq w rs \<Longrightarrow> durable w' = durable w \<Longrightarrow>
    seq_server_init ops server_seq_alloc LUSTRE_SEQ_CONTROLLER node w' = Some (0, seq', w'') \<Longrightarrow>
    ctl_reach ops durable seq' w'' rs"

definition ctl_inv :: "'w seq_ops \<Rightarrow> ('w \<Rightarrow> lu_seq_range option) \<Rightarrow> lu_server_seq \<Rightarrow> 'w \<Rightarrow> lu_seq_range list \<Rightarrow> bool" where
  "ctl_inv ops durable seq w rs \<longleftrightarrow> lss_type seq = LUSTRE_SEQ_CONTROLLER \<and> pdisj (map rset rs) \<and>
     (\<forall>r \<in> set rs. rset r \<inter> rset (lss_space seq) = {}) \<and>
     (case durable w of None \<Rightarrow> rs = [] | Some d \<Rightarrow> \<forall>r \<in> set rs. rset r \<inter> rset (range_le_to_cpu (host_be ops) d) = {})"

lemma ctl_storeD:
  assumes "ctl_store_ok ops durable"
  shows "trans_start ops credits sync w = (rc, w') \<Longrightarrow> durable w' = durable w"
    "dt_store_open ops type w = (rc, w') \<Longrightarrow> durable w' = durable w"
    "trans_start ops credits sync w = (0, w1) \<Longrightarrow> dbo_write ops LUSTRE_SEQ_CONTROLLER r w1 = (n, w2) \<Longrightarrow>
       w3 = w2 \<or> fld_server_create ops x w2 = (rc, w3) \<Longrightarrow>
       durable (trans_stop ops w3) = Some r \<or> durable (trans_stop ops w3) = durable w \<and> \<not> (sync \<and> n = 24)"
    "dbo_read ops LUSTRE_SEQ_CONTROLLER w =
       (case durable w of None \<Rightarrow> (0, LUSTRE_SEQ_ZERO_RANGE) | Some r \<Rightarrow> (24, r))"
proof -
  note c = assms [unfolded ctl_store_ok_def]
  note c2 = c [THEN conjunct2]
  show "trans_start ops credits sync w = (rc, w') \<Longrightarrow> durable w' = durable w"
    by (rule c [THEN conjunct1, rule_format])
  show "dt_store_open ops type w = (rc, w') \<Longrightarrow> durable w' = durable w"
    by (rule c2 [THEN conjunct1, rule_format])
  show "trans_start ops credits sync w = (0, w1) \<Longrightarrow> dbo_write ops LUSTRE_SEQ_CONTROLLER r w1 = (n, w2) \<Longrightarrow>
       w3 = w2 \<or> fld_server_create ops x w2 = (rc, w3) \<Longrightarrow>
       durable (trans_stop ops w3) = Some r \<or> durable (trans_stop ops w3) = durable w \<and> \<not> (sync \<and> n = 24)"
    by (rule c2 [THEN conjunct2, THEN conjunct1, rule_format])
  show "dbo_read ops LUSTRE_SEQ_CONTROLLER w =
       (case durable w of None \<Rightarrow> (0, LUSTRE_SEQ_ZERO_RANGE) | Some r \<Rightarrow> (24, r))"
    by (rule c2 [THEN conjunct2, THEN conjunct2, rule_format])
qed

lemma seq_store_update_durable:
  assumes ok: "ctl_store_ok ops durable" and "lss_type seq = LUSTRE_SEQ_CONTROLLER"
    and u: "seq_store_update ops seq out sync w = (rc, w')"
  shows "durable w' = Some (range_cpu_to_le (host_be ops) (lss_space seq)) \<or> durable w' = durable w \<and> \<not> (sync \<and> rc = 0)"
proof -
  obtain rc1 w1 where 1: "trans_start ops (SEQ_TXN_STORE_CREDITS + (if out \<noteq> None then FLD_TXN_INDEX_INSERT_CREDITS else 0)) sync w = (rc1, w1)"
    by fastforce
  obtain n w2 where 2: "dbo_write ops LUSTRE_SEQ_CONTROLLER (range_cpu_to_le (host_be ops) (lss_space seq)) w1 = (n, w2)" by fastforce
  show ?thesis
  proof (cases "rc1 = 0")
    case False
    then have "w' = w1 \<and> rc \<noteq> 0" using u 1 by (auto simp: seq_store_update_def Let_def split: if_splits)
    then show ?thesis using ctl_storeD(1) [OF ok 1] by simp
  next
    case True
    have st: "seq_store_write ops seq w1 = (if n = 24 then 0 else if n \<ge> 0 then - EIO else n, w2)"
      using 2 assms(2) by (simp add: seq_store_write_def)
    obtain w3 where 3: "w' = trans_stop ops w3" "w3 = w2 \<or> (\<exists>x r. fld_server_create ops x w2 = (r, w3))" "rc = 0 \<longrightarrow> n = 24"
    proof -
      show ?thesis
      proof (cases "n = 24 \<and> out \<noteq> None")
        case True
        then obtain x rx w3 where "out = Some x" "fld_server_create ops x w2 = (rx, w3)" "n = 24" by fastforce
        then show ?thesis using that u 1 st \<open>rc1 = 0\<close> by (auto simp: seq_store_update_def Let_def)
      next
        case False
        have "w' = trans_stop ops w2 \<and> (rc = 0 \<longrightarrow> n = 24)"
          using False u 1 st \<open>rc1 = 0\<close> by (auto simp: seq_store_update_def Let_def errno_defs split: if_splits option.splits)
        then show ?thesis using that by blast
      qed
    qed
    have "durable (trans_stop ops w3) = Some (range_cpu_to_le (host_be ops) (lss_space seq)) \<or>
        durable (trans_stop ops w3) = durable w \<and> \<not> (sync \<and> n = 24)"
      using ctl_storeD(3) [OF ok 1 [unfolded True] 2] 3(2) by blast
    then show ?thesis using 3 by blast
  qed
qed

lemma seq_server_init_durable:
  assumes ok: "ctl_store_ok ops durable"
    and i: "seq_server_init ops server_seq_alloc LUSTRE_SEQ_CONTROLLER node w = Some (0, seq, w')"
  shows "lss_type seq = LUSTRE_SEQ_CONTROLLER"
    "durable w = Some d \<Longrightarrow> durable w' = Some d \<and> lss_space seq = range_le_to_cpu (host_be ops) d"
proof -
  let ?s = "server_seq_alloc\<lparr>lss_cli := False, lss_type := LUSTRE_SEQ_CONTROLLER,
      lss_space := range_init (lss_space server_seq_alloc), lss_lowater_set := range_init (lss_lowater_set server_seq_alloc),
      lss_hiwater_set := range_init (lss_hiwater_set server_seq_alloc), lss_set_width := LUSTRE_SEQ_BATCH_WIDTH,
      lss_width := LUSTRE_SEQ_SUPER_WIDTH\<rparr>"
  obtain rc1 w1 where o: "dt_store_open ops LUSTRE_SEQ_CONTROLLER w = (rc1, w1)" by fastforce
  have rc1: "rc1 = 0" using i o by (auto simp: seq_server_init_def seq_store_init_def Let_def split: if_splits)
  note r = ctl_storeD(4) [OF ok, of w1] and d1 = ctl_storeD(2) [OF ok o]
  have ini: "seq_store_init ops ?s w = (0, ?s\<lparr>lss_obj := True\<rparr>, w1)" using o rc1 by (simp add: seq_store_init_def)
  show "lss_type seq = LUSTRE_SEQ_CONTROLLER"
    using i r ini by (cases "durable w1") (auto simp: seq_server_init_def seq_store_read_def Let_def errno_defs split: if_splits prod.splits)
  show "durable w = Some d \<Longrightarrow> durable w' = Some d \<and> lss_space seq = range_le_to_cpu (host_be ops) d"
    using i r ini d1 by (auto simp: seq_server_init_def seq_store_read_def Let_def errno_defs split: if_splits)
qed

lemma ctl_reach_inv:
  assumes ok: "ctl_store_ok ops durable" and "ctl_reach ops durable seq w rs"
  shows "ctl_inv ops durable seq w rs"
  using assms(2)
proof induction
  case (start w node seq w')
  then show ?case using seq_server_init_durable(1) [OF ok start(2)] by (simp add: ctl_inv_def split: option.split)
next
  case (alloc seq w rs out rc seq' out' w')
  note p = seq_server_alloc_super_post [OF alloc(2)]
  have inv: "lss_type seq = LUSTRE_SEQ_CONTROLLER" "pdisj (map rset rs)" "\<forall>r \<in> set rs. rset r \<inter> rset (lss_space seq) = {}"
    using alloc(3) by (simp_all add: ctl_inv_def)
  have ty: "lss_type seq' = LUSTRE_SEQ_CONTROLLER" using inv(1) by (subst p(2)) simp
  have "\<forall>r \<in> set rs. rset r \<inter> rset (lss_space seq') = {}" using inv(3) p(5) by blast
  moreover have "rc = 0 \<Longrightarrow> rset out' \<inter> rset (lss_space seq') = {} \<and> (\<forall>r \<in> set rs. rset out' \<inter> rset r = {})"
    using p(4) inv(3) by (simp add: moves_def) blast
  ultimately have dis: "pdisj (map rset (if rc = 0 then out' # rs else rs))"
      "\<forall>r \<in> set (if rc = 0 then out' # rs else rs). rset r \<inter> rset (lss_space seq') = {}"
    using inv(2) by simp_all
  have "w' = w \<and> rc \<noteq> 0 \<or> seq_store_update ops seq' (Some out') True w = (rc, w')"
    using alloc(2) by (auto simp: seq_server_alloc_super_def Let_def errno_defs split: if_splits prod.splits)
  then have "durable w' = durable w \<and> rc \<noteq> 0 \<or> durable w' = Some (range_cpu_to_le (host_be ops) (lss_space seq'))"
    using seq_store_update_durable [OF ok ty] by metis
  then show ?case
  proof
    assume "durable w' = durable w \<and> rc \<noteq> 0"
    then show ?case using alloc(3) ty dis by (simp add: ctl_inv_def)
  next
    assume "durable w' = Some (range_cpu_to_le (host_be ops) (lss_space seq'))"
    then show ?case using ty dis by (simp add: ctl_inv_def)
  qed
next
  case (env seq w rs w')
  then show ?case by (simp add: ctl_inv_def)
next
  case (crash seq w rs w' node seq' w'')
  show ?case
  proof (cases "durable w")
    case None
    then show ?thesis using crash seq_server_init_durable(1) [OF ok crash(3)] by (simp add: ctl_inv_def split: option.split)
  next
    case (Some d)
    then show ?thesis using crash seq_server_init_durable(1) [OF ok crash(3)]
        seq_server_init_durable(2) [OF ok crash(3), of d] by (simp add: ctl_inv_def)
  qed
qed

text \<open>
  (C11) Super sequences survive crashes: whatever sequence of allocations, failed writes,
  crashes and restarts a controller goes through on a store that keeps what a synchronous
  transaction wrote, the ranges it returned with success are pairwise disjoint.
\<close>

theorem seq_server_alloc_super_crash_safe:
  assumes "ctl_store_ok ops durable" "ctl_reach ops durable seq w rs"
  shows "pdisj (map rset rs)"
  using ctl_reach_inv [OF assms] by (simp add: ctl_inv_def)

definition disk_ops_ex :: "(lu_seq_range option \<times> lu_seq_range option) seq_ops" where
  "disk_ops_ex = \<lparr>host_be = False, trans_start = (\<lambda>_ _ (d, p). (0, (d, None))),
     trans_stop = (\<lambda>(d, p). (if p = None then d else p, None)),
     dbo_write = (\<lambda>type r (d, p). (24, (d, if type = LUSTRE_SEQ_CONTROLLER then Some r else p))),
     dbo_read = (\<lambda>_ (d, p). case d of None \<Rightarrow> (0, LUSTRE_SEQ_ZERO_RANGE) | Some r \<Rightarrow> (24, r)),
     dt_store_open = (\<lambda>_ w. (0, w)), fld_server_create = (\<lambda>_ w. (0, w)), seq_proc_init = (\<lambda>_. 0),
     obd_num_exports = (\<lambda>_. 2), obd_last_committed = (\<lambda>_. 0), lut_last_transno = (\<lambda>_. 0),
     obd_fail_seq_alloc = (\<lambda>_. False), request_alloc_pack = (\<lambda>_. True), queue_wait = (\<lambda>_ _ _ _. None)\<rparr>"

lemma disk_ops_ex_ok: "ctl_store_ok disk_ops_ex fst"
  by (auto simp: ctl_store_ok_def disk_ops_ex_def split: option.split if_splits)

text \<open>A controller that starts on an empty store, allocates, crashes, and allocates again.\<close>

definition ctl_range_ex :: "u64 \<Rightarrow> u64 \<Rightarrow> lu_seq_range" where
  "ctl_range_ex a b = \<lparr>lsr_start = a, lsr_end = b, lsr_index = 0, lsr_flags = 0\<rparr>"

definition ctl_ex :: "u64 \<Rightarrow> lu_server_seq" where
  "ctl_ex s = server_seq_alloc\<lparr>lss_space := ctl_range_ex s (- 1), lss_obj := True, lss_type := LUSTRE_SEQ_CONTROLLER,
     lss_width := LUSTRE_SEQ_SUPER_WIDTH, lss_set_width := LUSTRE_SEQ_BATCH_WIDTH\<rparr>"

lemma ctl_life_ex:
  "ctl_reach disk_ops_ex fst (ctl_ex 0x280000400) (Some (ctl_range_ex 0x280000400 (- 1)), None)
     [ctl_range_ex 0x240000400 0x280000400, ctl_range_ex 0x200000400 0x240000400]"
proof -
  note defs = ctl_ex_def ctl_range_ex_def disk_ops_ex_def seq_server_init_def seq_store_init_def seq_store_read_def
    seq_store_update_def seq_store_write_def server_seq_alloc_def range_init_def LUSTRE_SEQ_ZERO_RANGE_def
    LUSTRE_SEQ_SPACE_RANGE_def Let_def range_cpu_to_le_def range_le_to_cpu_def cpu_to_le64_def cpu_to_le32_def
    range_is_zero_def range_is_sane_def errno_defs seq_server_alloc_super_def range_is_exhausted_def range_space_def range_alloc_def
  have 1: "seq_server_init disk_ops_ex server_seq_alloc LUSTRE_SEQ_CONTROLLER 0 (None, None) =
      Some (0, ctl_ex 0x200000400, (Some (ctl_range_ex 0x200000400 (- 1)), None))" by (simp add: defs)
  have 2: "seq_server_alloc_super disk_ops_ex (ctl_ex 0x200000400) LUSTRE_SEQ_ZERO_RANGE (Some (ctl_range_ex 0x200000400 (- 1)), None) =
      Some (0, ctl_ex 0x240000400, ctl_range_ex 0x200000400 0x240000400, (Some (ctl_range_ex 0x240000400 (- 1)), None))" by (simp add: defs)
  have 3: "seq_server_init disk_ops_ex server_seq_alloc LUSTRE_SEQ_CONTROLLER 0 (Some (ctl_range_ex 0x240000400 (- 1)), None) =
      Some (0, ctl_ex 0x240000400, (Some (ctl_range_ex 0x240000400 (- 1)), None))" by (simp add: defs)
  have 4: "seq_server_alloc_super disk_ops_ex (ctl_ex 0x240000400) LUSTRE_SEQ_ZERO_RANGE (Some (ctl_range_ex 0x240000400 (- 1)), None) =
      Some (0, ctl_ex 0x280000400, ctl_range_ex 0x240000400 0x280000400, (Some (ctl_range_ex 0x280000400 (- 1)), None))" by (simp add: defs)
  have r1: "ctl_reach disk_ops_ex fst (ctl_ex 0x200000400) (Some (ctl_range_ex 0x200000400 (- 1)), None) []"
    by (rule ctl_reach.start [OF _ 1]) simp
  note r2 = ctl_reach.alloc [OF r1 2, simplified]
  note r3 = ctl_reach.crash [OF r2 refl 3]
  show ?thesis using ctl_reach.alloc [OF r3 4] by simp
qed

theorem seq_server_alloc_super_crash_safe_witness:
  "ctl_store_ok disk_ops_ex fst \<and>
   pdisj (map rset [ctl_range_ex 0x240000400 0x280000400, ctl_range_ex 0x200000400 0x240000400])"
  using seq_server_alloc_super_crash_safe [OF disk_ops_ex_ok ctl_life_ex] disk_ops_ex_ok by blast

section \<open>The high-water set\<close>

text \<open>
  (C12) The low-water set of a metadata server is never replaced by its high-water set. When
  it is exhausted, \<open>range_alloc_set\<close> drops the whole high-water set that was reserved for this
  moment (none of its sequences is kept or returned), returns sequences cut from \<open>lss_space\<close> as
  it was before the write of this call, and leaves the low-water set exhausted, so that the
  next call does the same again.
\<close>

theorem range_alloc_set_drops_hiwater:
  assumes a: "range_alloc_set ops seq out w = Some (0, seq', out', w')"
    and x: "range_is_exhausted (lss_lowater_set seq)" "\<not> range_is_zero (lss_lowater_set seq)"
    and nf: "\<not> obd_fail_seq_alloc ops w"
    and ok: "srv_ok seq" and d: "pdisj (srv_sets seq)"
  shows "lss_lowater_set seq' = lss_lowater_set seq \<and>
    rset out' \<subseteq> rset (lss_space seq) \<and> lsr_start out' = lsr_start (lss_space seq) \<and>
    rset (lss_hiwater_set seq) \<inter> (\<Union> (set (srv_sets seq')) \<union> rset out') = {}"
proof -
  obtain rc1 seq1 w1 where 1: "range_alloc_set_switch ops seq w = (rc1, seq1, w1)" by (metis prod_cases3)
  obtain hi s1 sz where h: "range_alloc (lss_hiwater_set seq) (lss_space seq) sz = (hi, s1)"
    "lss_lowater_set seq1 = lss_lowater_set seq" "lss_hiwater_set seq1 = hi" "lss_space seq1 = s1"
    using 1 by (auto simp: range_alloc_set_switch_def Let_def split: prod.splits)
  obtain o2 h2 where 2: "range_alloc out hi (lss_width seq1) = (o2, h2)" by fastforce
  have e: "out' = o2" "seq' = seq1\<lparr>lss_hiwater_set := h2\<rparr>"
    using a x nf 1 2 h(3) by (auto simp: range_alloc_set_def split: if_splits)
  have s: "range_is_sane (lss_space seq)" using ok by (simp add: srv_ok_def)
  note r1 = range_alloc_split [OF h(1) s]
  note r2 = range_alloc_split [OF 2 r1(1)]
  have dd: "rset (lss_hiwater_set seq) \<inter> rset (lss_space seq) = {}" "rset (lss_hiwater_set seq) \<inter> rset (lss_lowater_set seq) = {}"
    using d by (auto simp: srv_sets_def)
  have "rset o2 \<union> rset h2 \<union> rset s1 \<subseteq> rset (lss_space seq)" using r1(3) r2(3) by blast
  moreover have "\<Union> (set (srv_sets seq')) = rset s1 \<union> rset (lss_lowater_set seq) \<union> rset h2"
    using h by (auto simp: e srv_sets_def)
  ultimately have "rset (lss_hiwater_set seq) \<inter> (\<Union> (set (srv_sets seq')) \<union> rset out') = {}" "rset out' \<subseteq> rset (lss_space seq)"
    using dd by (auto simp: e(1))
  then show ?thesis using r1(6) r2(6) h(2) by (simp add: e)
qed

definition srv_low_ex :: lu_server_seq where
  "srv_low_ex = server_seq_alloc\<lparr>lss_space := ctl_range_ex 3000 9000, lss_lowater_set := ctl_range_ex 2000 2000,
     lss_hiwater_set := ctl_range_ex 2000 3000, lss_width := 1, lss_set_width := 1000\<rparr>"

theorem range_alloc_set_drops_hiwater_witness:
  "\<exists>seq' out'. range_alloc_set disk_ops_ex srv_low_ex LUSTRE_SEQ_ZERO_RANGE (None, None) = Some (0, seq', out', (None, None)) \<and>
     lss_lowater_set seq' = ctl_range_ex 2000 2000 \<and> lsr_start out' = 3000 \<and>
     rset (ctl_range_ex 2000 3000) \<inter> (\<Union> (set (srv_sets seq')) \<union> rset out') = {}"
proof -
  let ?s = "srv_low_ex\<lparr>lss_space := ctl_range_ex 4000 9000, lss_hiwater_set := ctl_range_ex 3001 4000\<rparr>"
  have a: "range_alloc_set disk_ops_ex srv_low_ex LUSTRE_SEQ_ZERO_RANGE (None, None) = Some (0, ?s, ctl_range_ex 3000 3001, (None, None))"
    by (simp add: range_alloc_set_def range_alloc_set_switch_def srv_low_ex_def ctl_range_ex_def disk_ops_ex_def range_defs
        range_alloc_def seq_store_update_def seq_store_write_def server_seq_alloc_def LUSTRE_SEQ_ZERO_RANGE_def Let_def)
  have "srv_ok srv_low_ex" "pdisj (srv_sets srv_low_ex)"
    by (auto simp: srv_ok_def srv_sets_def srv_low_ex_def ctl_range_ex_def range_is_sane_def rset_memb)
  then show ?thesis
    using range_alloc_set_drops_hiwater [OF a] a
    by (simp add: srv_low_ex_def ctl_range_ex_def disk_ops_ex_def range_defs)
qed

section \<open>A bad reply\<close>

text \<open>
  (C13) A client stores the range of a reply before it validates it. If a server answers with a
  range that ends before it starts, \<open>seq_client_alloc_fid\<close> returns \<open>-EINVAL\<close>, as it should, but
  the next call on that client stops the node at its first assertion, whatever the state of
  the network then.
\<close>

theorem seq_client_bad_reply_stops:
  assumes "fid_is_zero (lcs_fid seq)" "\<not> lcs_srv seq" "range_is_exhausted (lcs_space seq)" "range_is_sane (lcs_space seq)"
    and "request_alloc_pack ops w" "lcs_type seq = LUSTRE_SEQ_METADATA"
    and "queue_wait ops SEQ_METADATA_PORTAL SEQ_ALLOC_META LUSTRE_SEQ_ZERO_RANGE w = Some (0, r, w')" "\<not> range_is_sane r"
  shows "\<exists>seq'. seq_client_alloc_fid ops seq fid w = Some (- EINVAL, fid, seq', w') \<and>
     (\<forall>ops' fid' w2. seq_client_alloc_fid (ops' :: 'v seq_ops) seq' fid' w2 = None)"
proof -
  have "seq_client_rpc ops seq (lcs_space seq) SEQ_ALLOC_META w = Some (- EINVAL, r, w')"
    using assms(5-8) by (simp add: seq_client_rpc_def LUSTRE_SEQ_ZERO_RANGE_def)
  then have "seq_client_alloc_fid ops seq fid w = Some (- EINVAL, fid, seq\<lparr>lcs_space := r\<rparr>, w')"
    using assms(1-4) by (simp add: seq_client_alloc_fid_def seq_client_alloc_seq_def seq_client_alloc_meta_def errno_defs)
  moreover have "seq_client_alloc_fid ops' (seq\<lparr>lcs_space := r\<rparr>) fid' w2 = None" for ops' :: "'v seq_ops" and fid' w2
    using assms(1,8) by (simp add: seq_client_alloc_fid_def seq_client_alloc_seq_def)
  ultimately show ?thesis by blast
qed

theorem seq_client_bad_reply_stops_witness:
  "\<exists>seq'. seq_client_alloc_fid (disk_ops_ex\<lparr>queue_wait := \<lambda>_ _ _ w. Some (0, ctl_range_ex 8 4, w)\<rparr>) client_seq_alloc fid_zero (None, None)
      = Some (- EINVAL, fid_zero, seq', (None, None)) \<and>
     (\<forall>ops' fid' w2. seq_client_alloc_fid (ops' :: unit seq_ops) seq' fid' w2 = None)"
  by (rule seq_client_bad_reply_stops [where r = "ctl_range_ex 8 4"])
    (simp_all add: client_seq_alloc_def LUSTRE_SEQ_ZERO_RANGE_def range_defs disk_ops_ex_def ctl_range_ex_def
      fid_zero_def fid_is_zero_def fid_seq_def fid_oid_def)

end
