(* ===== verification/FldCache.thy ===== *)
theory FldCache
  imports Fid "HOL-Library.Sublist"
begin

text \<open>
  The cache of the FID location database, \<open>lustre/fld/fld_cache.c\<close>: which metadata server
  holds which range of sequences, as a list of ranges sorted by their start, with a list of
  the entries in the order of their last use beside it.

  An entry is its address and its range. Addresses stand for the identity of the allocated
  structures: the same address occurs in the sorted list and in the LRU list, and the
  functions below find an entry by its address where the code follows a pointer. The
  addresses of new entries are arguments, \<open>None\<close> when the allocation fails.

  The lemmas show that the list stays sorted and disjoint, that the fix-up loop with its
  restarts ends, that an insertion overrides exactly the new range, and for which insertions
  an assertion of the overlap handling fails.
\<close>

section \<open>State\<close>

datatype fld_cache_entry = Fce (fce_addr: nat) (fce_range: lu_seq_range)

record fld_cache =
  fci_threshold :: int
  fci_cache_size :: int
  fci_cache_count :: int
  fci_lru :: "nat list"
  fci_entries_head :: "fld_cache_entry list"
  fst_count :: u64
  fst_cache :: u64

section \<open>Operations\<close>

text \<open>\<open>Inl\<close> is the error pointer that the function returns.\<close>

definition fld_cache_init :: "bool \<Rightarrow> int \<Rightarrow> int \<Rightarrow> (int + fld_cache) option" where
  "fld_cache_init alloc cache_size cache_threshold = do {
     lassert (cache_threshold < cache_size);
     if \<not> alloc then Some (Inl (- ENOMEM))
     else Some (Inr \<lparr>fci_threshold = cache_threshold, fci_cache_size = cache_size, fci_cache_count = 0,
                     fci_lru = [], fci_entries_head = [], fst_count = 0, fst_cache = 0\<rparr>)
   }"

definition fld_cache_entry_delete :: "fld_cache \<Rightarrow> nat \<Rightarrow> fld_cache" where
  "fld_cache_entry_delete cache node =
     cache\<lparr>fci_entries_head := filter (\<lambda>e. fce_addr e \<noteq> node) (fci_entries_head cache),
           fci_lru := filter (\<lambda>a. a \<noteq> node) (fci_lru cache),
           fci_cache_count := fci_cache_count cache - 1\<rparr>"

text \<open>
  One pass of \<open>fld_fix_new_list\<close> over the list: it reaches the end, or asks for a restart, or
  fails an assertion. The entries before the current one are kept in reverse.
\<close>

datatype fix_result = Fix_done "fld_cache_entry list" | Fix_restart "fld_cache_entry list" | Fix_bug

fun fld_fix_pass :: "fld_cache_entry list \<Rightarrow> fld_cache_entry list \<Rightarrow> fix_result" where
  "fld_fix_pass before [] = Fix_done (rev before)"
| "fld_fix_pass before [f_curr] =
     (if range_is_sane (fce_range f_curr) then Fix_done (rev before @ [f_curr]) else Fix_bug)"
| "fld_fix_pass before (f_curr # f_next # rest) =
    (let c_range = fce_range f_curr; n_range = fce_range f_next in
     if \<not> range_is_sane c_range then Fix_bug
     else if \<not> lsr_start c_range \<le> lsr_start n_range then Fix_bug
     else if lsr_end c_range = lsr_start n_range then
       if lsr_index c_range \<noteq> lsr_index n_range then fld_fix_pass (f_curr # before) (f_next # rest)
       else fld_fix_pass before ((Fce (fce_addr f_next) (n_range\<lparr>lsr_start := lsr_start c_range\<rparr>)) # rest)
     else if lsr_start n_range < lsr_end c_range then
       Fix_restart (rev before @
         (if lsr_index c_range = lsr_index n_range then
            (Fce (fce_addr f_next) (n_range\<lparr>lsr_start := lsr_start c_range,
                                 lsr_end := max (lsr_end c_range) (lsr_end n_range)\<rparr>)) # rest
          else if lsr_end n_range \<le> lsr_end c_range then Fce (fce_addr f_next) c_range # rest
          else f_curr # (Fce (fce_addr f_next) (n_range\<lparr>lsr_start := lsr_end c_range\<rparr>)) # rest))
     else if lsr_start c_range = lsr_start n_range \<and> lsr_end c_range = lsr_end n_range then
       fld_fix_pass before (f_next # rest)
     else fld_fix_pass (f_curr # before) (f_next # rest))"

text \<open>The size of the list and of its ranges, which every restart decreases.\<close>

definition fix_measure :: "fld_cache_entry list \<Rightarrow> nat" where
  "fix_measure es = (\<Sum>e \<leftarrow> es. Suc (unat (lsr_end (fce_range e)) - unat (lsr_start (fce_range e))))"

lemma fix_measure_simps [simp]:
  "fix_measure [] = 0"
  "fix_measure (e # es) = Suc (unat (lsr_end (fce_range e)) - unat (lsr_start (fce_range e))) + fix_measure es"
  "fix_measure (es @ fs) = fix_measure es + fix_measure fs"
  by (simp_all add: fix_measure_def)

lemma fix_measure_rev [simp]: "fix_measure (rev es) = fix_measure es"
  by (simp add: fix_measure_def rev_map [symmetric] sum_list_rev)

lemma fix_pass_restart_measure:
  "fld_fix_pass before es = Fix_restart es' \<Longrightarrow> fix_measure es' < fix_measure before + fix_measure es"
proof (induction before es rule: fld_fix_pass.induct)
  case (3 before f_curr f_next rest)
  let ?c = "fce_range f_curr" and ?n = "fce_range f_next"
  have s: "range_is_sane ?c" "lsr_start ?c \<le> lsr_start ?n"
    using 3(5) by (auto simp: Let_def split: if_splits)
  note le = s [unfolded range_is_sane_def word_le_nat_alt]
  consider "lsr_end ?c = lsr_start ?n" "lsr_index ?c \<noteq> lsr_index ?n"
    | "lsr_end ?c = lsr_start ?n" "lsr_index ?c = lsr_index ?n"
    | "lsr_end ?c \<noteq> lsr_start ?n" "lsr_start ?n < lsr_end ?c"
    | "lsr_end ?c \<noteq> lsr_start ?n" "\<not> lsr_start ?n < lsr_end ?c" by blast
  then show ?case
  proof cases
    case 1
    then show ?thesis using 3(1) [OF refl refl] 3(5) s by simp
  next
    case 2
    then show ?thesis using 3(2) [OF refl refl] 3(5) s le by simp
  next
    case c: 3
    then show ?thesis using 3(5) s le
      by (auto simp: Let_def word_le_nat_alt word_less_nat_alt max_def split: if_splits)
  next
    case 4
    then show ?thesis using 3(3) [OF refl refl] 3(4) [OF refl refl] 3(5) s
      by (auto simp: Let_def split: if_splits)
  qed
qed (auto split: if_splits)

function fld_fix_entries :: "fld_cache_entry list \<Rightarrow> fld_cache_entry list option" where
  "fld_fix_entries es =
    (case fld_fix_pass [] es of
       Fix_bug \<Rightarrow> None
     | Fix_done es' \<Rightarrow> Some es'
     | Fix_restart es' \<Rightarrow> fld_fix_entries es')"
  by pat_completeness auto
termination
  by (relation "measure fix_measure") (auto dest: fix_pass_restart_measure)

declare fld_fix_entries.simps [simp del]

text \<open>
  \<open>fld_fix_new_list\<close>: every entry that leaves the sorted list leaves the LRU list and the count
  with it (\<open>fld_cache_entry_delete\<close>).
\<close>

definition fld_fix_new_list :: "fld_cache \<Rightarrow> fld_cache option" where
  "fld_fix_new_list cache = do {
     es \<leftarrow> fld_fix_entries (fci_entries_head cache);
     Some (cache\<lparr>fci_entries_head := es,
                 fci_lru := filter (\<lambda>a. a \<in> set (map fce_addr es)) (fci_lru cache),
                 fci_cache_count := fci_cache_count cache -
                   (int (length (fci_entries_head cache)) - int (length es))\<rparr>)
   }"

text \<open>\<open>cfs_list_add\<close>: insert behind the entry with address \<open>pos\<close>, or at the front for the head.\<close>

fun list_add_after :: "fld_cache_entry \<Rightarrow> nat option \<Rightarrow> fld_cache_entry list \<Rightarrow> fld_cache_entry list" where
  "list_add_after f_new None es = f_new # es"
| "list_add_after f_new (Some pos) [] = []"
| "list_add_after f_new (Some pos) (e # es) =
     (if fce_addr e = pos then e # f_new # es else e # list_add_after f_new (Some pos) es)"

definition fld_cache_entry_add :: "fld_cache \<Rightarrow> fld_cache_entry \<Rightarrow> nat option \<Rightarrow> fld_cache option" where
  "fld_cache_entry_add cache f_new pos =
     fld_fix_new_list (cache\<lparr>fci_entries_head := list_add_after f_new pos (fci_entries_head cache),
                             fci_lru := fce_addr f_new # fci_lru cache,
                             fci_cache_count := fci_cache_count cache + 1\<rparr>)"

text \<open>The loop of \<open>fld_cache_shrink\<close> walks the LRU list from its end; the argument is the list in reverse.\<close>

fun fld_cache_shrink_loop :: "nat list \<Rightarrow> fld_cache \<Rightarrow> fld_cache" where
  "fld_cache_shrink_loop [] cache = cache"
| "fld_cache_shrink_loop (flde # rest) cache =
    (if fci_cache_count cache + fci_threshold cache > fci_cache_size cache
     then fld_cache_shrink_loop rest (fld_cache_entry_delete cache flde)
     else cache)"

definition fld_cache_shrink :: "fld_cache \<Rightarrow> fld_cache" where
  "fld_cache_shrink cache =
    (if fci_cache_count cache < fci_cache_size cache then cache
     else fld_cache_shrink_loop (rev (fci_lru cache)) cache)"

definition fld_cache_flush :: "fld_cache \<Rightarrow> fld_cache" where
  "fld_cache_flush cache = fld_cache_shrink (cache\<lparr>fci_cache_size := 0\<rparr>)"

definition set_fce_range :: "nat \<Rightarrow> lu_seq_range \<Rightarrow> fld_cache \<Rightarrow> fld_cache" where
  "set_fce_range a r cache =
     cache\<lparr>fci_entries_head := map (\<lambda>e. if fce_addr e = a then Fce a r else e) (fci_entries_head cache)\<rparr>"

text \<open>The fields of \<open>fldt\<close> that are not assigned are clear.\<close>

definition fld_cache_punch_hole ::
  "fld_cache \<Rightarrow> fld_cache_entry \<Rightarrow> fld_cache_entry \<Rightarrow> nat option \<Rightarrow> fld_cache option" where
  "fld_cache_punch_hole cache f_curr f_new alloc =
    (case alloc of None \<Rightarrow> Some cache
     | Some a \<Rightarrow>
         let range_new = fce_range f_new;
             fldt = Fce a \<lparr>lsr_start = lsr_end range_new, lsr_end = lsr_end (fce_range f_curr),
                        lsr_index = lsr_index (fce_range f_curr), lsr_flags = 0\<rparr>;
             cache = set_fce_range (fce_addr f_curr) ((fce_range f_curr)\<lparr>lsr_end := lsr_start range_new\<rparr>) cache
         in do {
           cache \<leftarrow> fld_cache_entry_add cache f_new (Some (fce_addr f_curr));
           fld_cache_entry_add cache fldt (Some (fce_addr f_new))
         })"

text \<open>\<open>f_curr->fce_list.prev\<close>: the address before an entry, \<open>None\<close> for the head of the list.\<close>

fun list_prev :: "nat \<Rightarrow> nat option \<Rightarrow> fld_cache_entry list \<Rightarrow> nat option" where
  "list_prev a prev [] = None"
| "list_prev a prev (e # es) = (if fce_addr e = a then prev else list_prev a (Some (fce_addr e)) es)"

definition fld_cache_overlap_handle ::
  "fld_cache \<Rightarrow> fld_cache_entry \<Rightarrow> fld_cache_entry \<Rightarrow> nat option \<Rightarrow> fld_cache option" where
  "fld_cache_overlap_handle cache f_curr f_new alloc =
    (let range_new = fce_range f_new; new_start = lsr_start range_new; new_end = lsr_end range_new;
         mdt = lsr_index range_new; c = fce_range f_curr
     in if lsr_index c = mdt then
          fld_fix_new_list (set_fce_range (fce_addr f_curr)
            (c\<lparr>lsr_start := min (lsr_start c) new_start, lsr_end := max (lsr_end c) new_end\<rparr>) cache)
        else if new_start \<le> lsr_start c \<and> lsr_end c \<le> new_end then
          fld_fix_new_list (set_fce_range (fce_addr f_curr) range_new cache)
        else if lsr_start c < new_start \<and> new_end < lsr_end c then
          fld_cache_punch_hole cache f_curr f_new alloc
        else if new_end \<le> lsr_end c then do {
          lassert (new_start \<le> lsr_start c);
          fld_cache_entry_add (set_fce_range (fce_addr f_curr) (c\<lparr>lsr_start := new_end\<rparr>) cache) f_new
            (list_prev (fce_addr f_curr) None (fci_entries_head cache))
        }
        else if lsr_start c \<le> new_start then do {
          lassert (lsr_end c \<le> new_end);
          fld_cache_entry_add (set_fce_range (fce_addr f_curr) (c\<lparr>lsr_end := new_start\<rparr>) cache) f_new (Some (fce_addr f_curr))
        }
        else Some cache)"

text \<open>
  The search loop of \<open>fld_cache_insert\<close>: the entry that overlaps the new range, if any, and
  otherwise the entry to insert behind.
\<close>

fun fld_insert_scan :: "lu_seq_range \<Rightarrow> nat option \<Rightarrow> fld_cache_entry list \<Rightarrow> nat option + fld_cache_entry" where
  "fld_insert_scan r prev [] = Inl prev"
| "fld_insert_scan r prev (f_curr # es) =
    (if lsr_end r < lsr_start (fce_range f_curr) then Inl prev
     else if lsr_start r < lsr_end (fce_range f_curr) then Inr f_curr
     else fld_insert_scan r (Some (fce_addr f_curr)) es)"

text \<open>\<open>a1\<close> and \<open>a2\<close> are the addresses the two allocations return.\<close>

definition fld_cache_insert :: "fld_cache \<Rightarrow> lu_seq_range \<Rightarrow> nat option \<Rightarrow> nat option \<Rightarrow> fld_cache option" where
  "fld_cache_insert cache r a1 a2 = do {
     lassert (range_is_sane r);
     case a1 of None \<Rightarrow> Some cache
     | Some a \<Rightarrow>
         let cache = fld_cache_shrink cache
         in case fld_insert_scan r None (fci_entries_head cache) of
              Inr f_curr \<Rightarrow> fld_cache_overlap_handle cache f_curr (Fce a r) a2
            | Inl prev \<Rightarrow> fld_cache_entry_add cache (Fce a r) prev
   }"

fun fld_lookup_scan :: "u64 \<Rightarrow> fld_cache_entry list \<Rightarrow> fld_cache_entry option" where
  "fld_lookup_scan seq [] = None"
| "fld_lookup_scan seq (flde # es) =
    (if lsr_start (fce_range flde) > seq then None
     else if range_within (fce_range flde) seq then Some flde
     else fld_lookup_scan seq es)"

definition fld_cache_lookup :: "fld_cache \<Rightarrow> u64 \<Rightarrow> (int + lu_seq_range) \<times> fld_cache" where
  "fld_cache_lookup cache seq =
    (let cache = cache\<lparr>fst_count := fst_count cache + 1\<rparr>
     in case fld_lookup_scan seq (fci_entries_head cache) of
          None \<Rightarrow> (Inl (- ENOENT), cache)
        | Some flde \<Rightarrow>
            (Inr (fce_range flde),
             cache\<lparr>fci_lru := fce_addr flde # remove1 (fce_addr flde) (fci_lru cache), fst_cache := fst_cache cache + 1\<rparr>))"

text \<open>\<open>fld_cache_fini\<close>: the percentage of hits that it reports before it frees the cache.\<close>

definition fld_cache_fini :: "fld_cache \<Rightarrow> u64" where
  "fld_cache_fini cache =
    (let cache = fld_cache_flush cache
     in if fst_count cache > 0 then (fst_cache cache * 100) div fst_count cache else 0)"

section \<open>The sorted list\<close>

text \<open>
  \<open>canon\<close> is the invariant of the list: ranges that are not empty, in order, disjoint and
  merged. \<open>almost\<close> allows one entry that reaches over its successors, as an insertion leaves it.
\<close>

definition ne :: "fld_cache_entry \<Rightarrow> bool" where
  "ne e \<longleftrightarrow> lsr_start (fce_range e) < lsr_end (fce_range e)"

definition sep :: "fld_cache_entry \<Rightarrow> fld_cache_entry \<Rightarrow> bool" where
  "sep e f \<longleftrightarrow> lsr_end (fce_range e) < lsr_start (fce_range f)
             \<or> lsr_end (fce_range e) = lsr_start (fce_range f) \<and> lsr_index (fce_range e) \<noteq> lsr_index (fce_range f)"

definition canon :: "fld_cache_entry list \<Rightarrow> bool" where
  "canon es \<longleftrightarrow> (\<forall>e \<in> set es. ne e) \<and> sorted_wrt sep es"

definition disj :: "fld_cache_entry list \<Rightarrow> bool" where
  "disj es \<longleftrightarrow> (\<forall>e \<in> set es. ne e) \<and> sorted_wrt (\<lambda>e f. lsr_end (fce_range e) \<le> lsr_start (fce_range f)) es"

fun almost :: "fld_cache_entry list \<Rightarrow> bool" where
  "almost [] \<longleftrightarrow> True"
| "almost (c # es) \<longleftrightarrow> ne c \<and>
     (disj es \<and> (\<forall>y \<in> set es. lsr_start (fce_range c) \<le> lsr_start (fce_range y))
      \<or> almost es \<and> (\<forall>y \<in> set es. lsr_end (fce_range c) \<le> lsr_start (fce_range y)))"

definition fld_find :: "fld_cache_entry list \<Rightarrow> u64 \<Rightarrow> u32 option" where
  "fld_find es s = map_option (\<lambda>e. lsr_index (fce_range e)) (find (\<lambda>e. range_within (fce_range e) s) es)"

lemma fld_find_simps [simp]:
  "fld_find [] s = None"
  "fld_find (e # es) s = (if range_within (fce_range e) s then Some (lsr_index (fce_range e)) else fld_find es s)"
  by (simp_all add: fld_find_def)

lemma fld_find_append [simp]:
  "fld_find (es @ fs) s = (case fld_find es s of None \<Rightarrow> fld_find fs s | Some i \<Rightarrow> Some i)"
  by (induction es) auto

lemma disj_Cons [simp]:
  "disj (e # es) \<longleftrightarrow> ne e \<and> (\<forall>f \<in> set es. lsr_end (fce_range e) \<le> lsr_start (fce_range f)) \<and> disj es"
  "disj []"
  by (auto simp: disj_def)

lemma canon_Cons [simp]:
  "canon (e # es) \<longleftrightarrow> ne e \<and> (\<forall>f \<in> set es. sep e f) \<and> canon es"
  "canon []"
  by (auto simp: canon_def)

lemma canon_append [simp]:
  "canon (es @ fs) \<longleftrightarrow> canon es \<and> canon fs \<and> (\<forall>e \<in> set es. \<forall>f \<in> set fs. sep e f)"
  by (induction es) auto

lemma disj_append [simp]:
  "disj (es @ fs) \<longleftrightarrow> disj es \<and> disj fs \<and> (\<forall>e \<in> set es. \<forall>f \<in> set fs. lsr_end (fce_range e) \<le> lsr_start (fce_range f))"
  by (induction es) auto

lemma disj_almost: "disj es \<Longrightarrow> almost es"
  by (induction es) (auto simp: ne_def)

lemma canon_disj: "canon es \<Longrightarrow> disj es"
  by (induction es) (auto simp: sep_def)

lemma almost_appendI:
  "\<lbrakk>disj xs; almost ys; \<forall>x \<in> set xs. \<forall>y \<in> set ys. lsr_end (fce_range x) \<le> lsr_start (fce_range y)\<rbrakk>
   \<Longrightarrow> almost (xs @ ys)"
  by (induction xs) auto

lemma almost_starts: "almost (c # es) \<Longrightarrow> \<forall>y \<in> set es. lsr_start (fce_range c) \<le> lsr_start (fce_range y)"
  by (auto simp: ne_def)

lemma almost_tl: "almost (c # es) \<Longrightarrow> almost es"
  by (auto dest: disj_almost)

lemma almost_merge:
  assumes "almost (c # n # es)" "lsr_end (fce_range c) = lsr_start (fce_range n)"
  shows "almost (Fce a ((fce_range n)\<lparr>lsr_start := lsr_start (fce_range c)\<rparr>) # es)"
  using assms almost_starts [OF assms(1)] by (auto simp: ne_def)

lemma canon_rev_sep:
  assumes "canon (rev before)" "\<forall>b \<in> set before. sep b c" "ne c" "sep c n"
  shows "canon (rev (c # before)) \<and> (\<forall>b \<in> set (c # before). sep b n)"
  using assms by (auto simp: ne_def sep_def)

lemma fld_fix_pass_ok:
  "\<lbrakk>canon (rev before); almost es; es \<noteq> [] \<longrightarrow> (\<forall>b \<in> set before. sep b (hd es))\<rbrakk>
   \<Longrightarrow> case fld_fix_pass before es of Fix_bug \<Rightarrow> False | Fix_done es' \<Rightarrow> canon es' | Fix_restart es' \<Rightarrow> almost es'"
proof (induction before es rule: fld_fix_pass.induct)
  case (2 before f_curr)
  then show ?case by (auto simp: ne_def range_is_sane_def)
next
  case (3 before c n rest)
  have nec: "ne c" "lsr_start (fce_range c) \<le> lsr_start (fce_range n)" "range_is_sane (fce_range c)" using 3(6)
    by (auto simp: ne_def range_is_sane_def)
  have b: "\<forall>b \<in> set before. sep b c" using 3(7) by simp
  have rb: "disj (rev before)" using 3(5) by (rule canon_disj)
  have be: "\<forall>b \<in> set before. \<forall>y \<in> set (c # n # rest). lsr_end (fce_range b) \<le> lsr_start (fce_range y)"
    using b almost_starts [OF 3(6)] by (fastforce simp: sep_def)
  consider (adj) "lsr_end (fce_range c) = lsr_start (fce_range n)" "lsr_index (fce_range c) \<noteq> lsr_index (fce_range n)"
    | (merge) "lsr_end (fce_range c) = lsr_start (fce_range n)" "lsr_index (fce_range c) = lsr_index (fce_range n)"
    | (over) "lsr_start (fce_range n) < lsr_end (fce_range c)"
    | (gap) "lsr_end (fce_range c) < lsr_start (fce_range n)" by (meson linorder_less_linear)
  then show ?case
  proof cases
    case adj
    have "sep c n" using adj by (simp add: sep_def)
    then show ?thesis
      using canon_rev_sep [OF 3(5) b nec(1)] 3(1) [OF refl refl] nec adj almost_tl [OF 3(6)] by simp
  next
    case merge
    have "\<forall>x \<in> set before. sep x (Fce (fce_addr n) ((fce_range n)\<lparr>lsr_start := lsr_start (fce_range c)\<rparr>))"
      using b merge by (auto simp: sep_def)
    then show ?thesis
      using 3(2) [OF refl refl] 3(5) nec merge almost_merge [OF 3(6) merge(1)] by simp
  next
    case over
    have d: "disj (n # rest)" using 3(6) over by auto
    have "\<forall>y \<in> set rest. lsr_start (fce_range c) \<le> lsr_start (fce_range y)"
      using almost_starts [OF 3(6)] by simp
    moreover have "\<forall>b \<in> set before. lsr_end (fce_range b) \<le> lsr_end (fce_range c)"
      using be nec by (auto simp: ne_def)
    ultimately show ?thesis
      using over nec d be rb
      by (auto simp: Let_def ne_def max_def intro!: almost_appendI)
  next
    case gap
    have "sep c n" using gap by (simp add: sep_def)
    moreover have "lsr_start (fce_range c) \<noteq> lsr_start (fce_range n)"
      "lsr_end (fce_range c) \<noteq> lsr_start (fce_range n)" "\<not> lsr_start (fce_range n) < lsr_end (fce_range c)"
      using gap nec by (auto simp: ne_def)
    ultimately show ?thesis
      using canon_rev_sep [OF 3(5) b nec(1)] 3(4) [OF refl refl] nec gap almost_tl [OF 3(6)]
      by (simp add: Let_def)
  qed
qed auto

lemma subseq_skip: "subseq (xs @ b # ys) (xs @ a # b # ys)"
  by (metis list_emb_Cons subseq_append' subseq_order.refl)

lemma fld_find_rev_cong:
  "fld_find es s = fld_find fs s \<Longrightarrow> fld_find (xs @ es) s = fld_find (xs @ fs) s"
  by (simp split: option.splits)

lemma fld_find_overlap:
  assumes "ne c" "ne n" "lsr_start (fce_range c) \<le> lsr_start (fce_range n)"
    "lsr_start (fce_range n) < lsr_end (fce_range c)"
  shows "lsr_index (fce_range c) = lsr_index (fce_range n) \<Longrightarrow>
      fld_find (Fce a ((fce_range n)\<lparr>lsr_start := lsr_start (fce_range c),
        lsr_end := max (lsr_end (fce_range c)) (lsr_end (fce_range n))\<rparr>) # es) s = fld_find (c # n # es) s"
    and "lsr_end (fce_range n) \<le> lsr_end (fce_range c) \<Longrightarrow>
      fld_find (Fce a (fce_range c) # es) s = fld_find (c # n # es) s"
    and "fld_find (c # Fce a ((fce_range n)\<lparr>lsr_start := lsr_end (fce_range c)\<rparr>) # es) s = fld_find (c # n # es) s"
  using assms by (auto simp: range_within_def ne_def max_def)

lemma fld_fix_pass_find:
  "\<lbrakk>\<forall>e \<in> set es. ne e; fld_fix_pass before es = Fix_done es' \<or> fld_fix_pass before es = Fix_restart es'\<rbrakk>
   \<Longrightarrow> fld_find es' s = fld_find (rev before @ es) s \<and> subseq (map fce_addr es') (map fce_addr (rev before @ es))"
proof (induction before es rule: fld_fix_pass.induct)
  case (2 before f_curr)
  then show ?case by (auto split: if_splits)
next
  case (3 before c n rest)
  have s: "range_is_sane (fce_range c)" "lsr_start (fce_range c) \<le> lsr_start (fce_range n)"
    using 3(6) by (auto simp: Let_def split: if_splits)
  have ne: "ne c" "ne n" "\<forall>e \<in> set rest. ne e" using 3(5) by auto
  consider (adj) "lsr_end (fce_range c) = lsr_start (fce_range n)" "lsr_index (fce_range c) \<noteq> lsr_index (fce_range n)"
    | (merge) "lsr_end (fce_range c) = lsr_start (fce_range n)" "lsr_index (fce_range c) = lsr_index (fce_range n)"
    | (over) "lsr_start (fce_range n) < lsr_end (fce_range c)"
    | (gap) "lsr_end (fce_range c) < lsr_start (fce_range n)" by (meson linorder_less_linear)
  then show ?case
  proof cases
    case adj
    then show ?thesis using 3(1) [OF refl refl] 3(5,6) s by simp
  next
    case merge
    let ?n = "Fce (fce_addr n) ((fce_range n)\<lparr>lsr_start := lsr_start (fce_range c)\<rparr>)"
    have "ne ?n" using ne merge by (auto simp: ne_def)
    then have ih: "fld_find es' s = fld_find (rev before @ ?n # rest) s
        \<and> subseq (map fce_addr es') (map fce_addr (rev before @ ?n # rest))"
      using 3(2) [OF refl refl] 3(6) s merge ne by simp
    moreover have "fld_find (?n # rest) s = fld_find (c # n # rest) s"
      using merge ne by (auto simp: range_within_def ne_def)
    moreover have "subseq (map fce_addr (rev before @ ?n # rest)) (map fce_addr (rev before @ c # n # rest))"
      by (simp add: subseq_skip)
    ultimately show ?thesis by (auto intro: subseq_order.trans split: option.splits)
  next
    case over
    note f = fld_find_overlap [OF ne(1,2) s(2) over, THEN fld_find_rev_cong]
    have "es' = rev before @
         (if lsr_index (fce_range c) = lsr_index (fce_range n) then
            Fce (fce_addr n) ((fce_range n)\<lparr>lsr_start := lsr_start (fce_range c),
              lsr_end := max (lsr_end (fce_range c)) (lsr_end (fce_range n))\<rparr>) # rest
          else if lsr_end (fce_range n) \<le> lsr_end (fce_range c) then Fce (fce_addr n) (fce_range c) # rest
          else c # Fce (fce_addr n) ((fce_range n)\<lparr>lsr_start := lsr_end (fce_range c)\<rparr>) # rest)"
      using 3(6) s over less_imp_neq [OF over] by (simp add: Let_def)
    then show ?thesis
      by (cases "lsr_index (fce_range c) = lsr_index (fce_range n)";
          cases "lsr_end (fce_range n) \<le> lsr_end (fce_range c)")
        (simp_all only: f map_append list.map fld_cache_entry.sel subseq_skip subseq_order.refl if_True if_False simp_thms)
  next
    case gap
    moreover have "lsr_start (fce_range c) \<noteq> lsr_start (fce_range n)"
      "lsr_end (fce_range c) \<noteq> lsr_start (fce_range n)" "\<not> lsr_start (fce_range n) < lsr_end (fce_range c)"
      using gap ne by (auto simp: ne_def)
    ultimately show ?thesis
      using 3(4) [OF refl refl] 3(5,6) s by (auto simp: Let_def)
  qed
qed auto

lemma fld_fix_pass_canon:
  "canon (rev before @ es) \<Longrightarrow> fld_fix_pass before es = Fix_done (rev before @ es)"
proof (induction before es rule: fld_fix_pass.induct)
  case (3 before c n rest)
  then show ?case by (auto simp: Let_def sep_def ne_def range_is_sane_def)
qed (auto simp: ne_def range_is_sane_def)

lemma almost_ne: "almost es \<Longrightarrow> \<forall>e \<in> set es. ne e"
  by (induction es) (auto simp: disj_def)

lemma fld_fix_entries_ok:
  "almost es \<Longrightarrow> \<exists>es'. fld_fix_entries es = Some es' \<and> canon es' \<and> fld_find es' = fld_find es
     \<and> subseq (map fce_addr es') (map fce_addr es)"
proof (induction es rule: fld_fix_entries.induct)
  case (1 es)
  have p: "case fld_fix_pass [] es of Fix_bug \<Rightarrow> False | Fix_done es' \<Rightarrow> canon es' | Fix_restart es' \<Rightarrow> almost es'"
    using fld_fix_pass_ok [of "[]" es] 1(2) by simp
  note f = fld_fix_pass_find [OF almost_ne [OF 1(2)], of "[]", simplified]
  show ?case
  proof (cases "fld_fix_pass [] es")
    case (Fix_done es')
    then show ?thesis using p f by (auto simp: fld_fix_entries.simps [of es])
  next
    case (Fix_restart es')
    have "fld_find es' = fld_find es" "subseq (map fce_addr es') (map fce_addr es)"
      using f Fix_restart by auto
    then show ?thesis using 1(1) [OF Fix_restart] p Fix_restart
      by (auto simp: fld_fix_entries.simps [of es] intro: subseq_order.trans)
  next
    case Fix_bug
    then show ?thesis using p by simp
  qed
qed

lemma fld_fix_entries_canon: "canon es \<Longrightarrow> fld_fix_entries es = Some es"
  using fld_fix_pass_canon [of "[]" es] by (simp add: fld_fix_entries.simps)

section \<open>Fixing the list\<close>

definition linked :: "fld_cache \<Rightarrow> bool" where
  "linked cache \<longleftrightarrow> distinct (map fce_addr (fci_entries_head cache)) \<and> distinct (fci_lru cache)
     \<and> set (fci_lru cache) = fce_addr ` set (fci_entries_head cache)
     \<and> fci_cache_count cache = int (length (fci_entries_head cache))"

definition fld_ok :: "fld_cache \<Rightarrow> bool" where
  "fld_ok cache \<longleftrightarrow> canon (fci_entries_head cache) \<and> linked cache"

definition same_config :: "fld_cache \<Rightarrow> fld_cache \<Rightarrow> bool" where
  "same_config c c' \<longleftrightarrow> fci_threshold c' = fci_threshold c \<and> fci_cache_size c' = fci_cache_size c
     \<and> fst_count c' = fst_count c \<and> fst_cache c' = fst_cache c"

lemma same_config_simps [simp]:
  "same_config c c"
  "same_config c (c'\<lparr>fci_entries_head := x\<rparr>) = same_config c c'"
  "same_config c (c'\<lparr>fci_lru := y\<rparr>) = same_config c c'"
  "same_config c (c'\<lparr>fci_cache_count := z\<rparr>) = same_config c c'"
  "same_config (c\<lparr>fci_entries_head := x\<rparr>) c' = same_config c c'"
  "same_config (c\<lparr>fci_lru := y\<rparr>) c' = same_config c c'"
  "same_config (c\<lparr>fci_cache_count := z\<rparr>) c' = same_config c c'"
  by (simp_all add: same_config_def)

lemma subseq_facts:
  "subseq xs ys \<Longrightarrow> set xs \<subseteq> set ys \<and> length xs \<le> length ys \<and> (distinct ys \<longrightarrow> distinct xs)"
  using list_emb_length [of "(=)" xs ys]
  by (auto simp: subseq_conv_nths dest: in_set_nthsD intro: distinct_nthsI)

lemma fld_fix_new_list_ok:
  assumes "almost (fci_entries_head cache)" "linked cache"
  shows "\<exists>cache'. fld_fix_new_list cache = Some cache' \<and> fld_ok cache' \<and> same_config cache cache'
    \<and> fld_find (fci_entries_head cache') = fld_find (fci_entries_head cache)
    \<and> fci_cache_count cache' \<le> fci_cache_count cache"
proof -
  obtain es where es: "fld_fix_entries (fci_entries_head cache) = Some es" "canon es"
    "fld_find es = fld_find (fci_entries_head cache)"
    "subseq (map fce_addr es) (map fce_addr (fci_entries_head cache))"
    using fld_fix_entries_ok [OF assms(1)] by blast
  have "set (map fce_addr es) \<subseteq> set (map fce_addr (fci_entries_head cache))"
    "length es \<le> length (fci_entries_head cache)" "distinct (map fce_addr es)"
    using subseq_facts [OF es(4)] assms(2) by (auto simp: linked_def)
  then show ?thesis
    using es assms(2) by (auto simp: fld_fix_new_list_def fld_ok_def linked_def)
qed

lemma fld_fix_new_list_canon:
  assumes "canon (fci_entries_head cache)" "linked cache"
  shows "fld_fix_new_list cache = Some cache"
  using assms fld_fix_entries_canon [OF assms(1)]
  by (auto simp: fld_fix_new_list_def linked_def filter_id_conv)

lemma list_add_after_Some:
  "fce_addr x \<notin> fce_addr ` set xs \<Longrightarrow> list_add_after f (Some (fce_addr x)) (xs @ x # ys) = xs @ x # f # ys"
  by (induction xs) auto

lemma set_fce_range_split:
  assumes "distinct (map fce_addr (fci_entries_head cache))" "fci_entries_head cache = xs @ c # ys"
  shows "set_fce_range (fce_addr c) r cache = cache\<lparr>fci_entries_head := xs @ Fce (fce_addr c) r # ys\<rparr>"
proof -
  have "map (\<lambda>e. if fce_addr e = fce_addr c then Fce (fce_addr c) r else e) zs = zs"
    if "fce_addr c \<notin> fce_addr ` set zs" for zs
    using that by (induction zs) auto
  then show ?thesis using assms by (simp add: set_fce_range_def)
qed

lemma list_prev_split:
  "fce_addr c \<notin> fce_addr ` set xs \<Longrightarrow>
   list_prev (fce_addr c) p (xs @ c # ys) = (if xs = [] then p else Some (fce_addr (last xs)))"
  by (induction xs arbitrary: p) auto

lemma list_add_after_last:
  "distinct (map fce_addr xs) \<Longrightarrow>
   list_add_after f (if xs = [] then None else Some (fce_addr (last xs))) (xs @ ys) = xs @ f # ys"
proof (cases xs rule: rev_cases)
  case (snoc zs z)
  then show "distinct (map fce_addr xs) \<Longrightarrow> ?thesis" using list_add_after_Some [of z zs f ys] by auto
qed simp

lemma fld_cache_entry_add_ok:
  assumes "linked cache" "fce_addr f \<notin> fce_addr ` set (fci_entries_head cache)"
    "fci_entries_head cache = xs @ ys" "list_add_after f pos (xs @ ys) = xs @ f # ys"
    "almost (xs @ f # ys)"
  shows "\<exists>cache'. fld_cache_entry_add cache f pos = Some cache' \<and> fld_ok cache' \<and> same_config cache cache'
    \<and> fld_find (fci_entries_head cache') = fld_find (xs @ f # ys)
    \<and> fci_cache_count cache' \<le> fci_cache_count cache + 1"
proof -
  let ?c = "cache\<lparr>fci_entries_head := xs @ f # ys, fci_lru := fce_addr f # fci_lru cache,
    fci_cache_count := fci_cache_count cache + 1\<rparr>"
  have "linked ?c" using assms(1-3) by (auto simp: linked_def)
  then show ?thesis using fld_fix_new_list_ok [of ?c] assms by (simp add: fld_cache_entry_add_def)
qed

lemma fld_cache_entry_add_canon:
  assumes "linked cache" "fce_addr f \<notin> fce_addr ` set (fci_entries_head cache)"
    "fci_entries_head cache = xs @ ys" "list_add_after f pos (xs @ ys) = xs @ f # ys"
    "canon (xs @ f # ys)"
  shows "fld_cache_entry_add cache f pos = Some (cache\<lparr>fci_entries_head := xs @ f # ys,
    fci_lru := fce_addr f # fci_lru cache, fci_cache_count := fci_cache_count cache + 1\<rparr>)"
proof -
  let ?c = "cache\<lparr>fci_entries_head := xs @ f # ys, fci_lru := fce_addr f # fci_lru cache,
    fci_cache_count := fci_cache_count cache + 1\<rparr>"
  have "linked ?c" using assms(1-3) by (auto simp: linked_def)
  then show ?thesis using fld_fix_new_list_canon [of ?c] assms by (simp add: fld_cache_entry_add_def)
qed

section \<open>Overlaps\<close>

definition overriding :: "lu_seq_range \<Rightarrow> (u64 \<Rightarrow> u32 option) \<Rightarrow> u64 \<Rightarrow> u32 option" where
  "overriding r m s = (if range_within r s then Some (lsr_index r) else m s)"

text \<open>The overlap for which the assertion of case 3 fails.\<close>

definition tail_overlap :: "lu_seq_range \<Rightarrow> lu_seq_range \<Rightarrow> bool" where
  "tail_overlap r c \<longleftrightarrow> lsr_index c \<noteq> lsr_index r \<and> lsr_start c < lsr_start r \<and> lsr_end c = lsr_end r"

lemma canon_Fce_cong:
  assumes "canon (xs @ c # ys)" "lsr_start r = lsr_start (fce_range c)" "lsr_index r = lsr_index (fce_range c)"
    "lsr_end r \<le> lsr_end (fce_range c)" "lsr_start r < lsr_end r"
  shows "canon (xs @ Fce a r # ys)"
  using assms by (auto simp: sep_def ne_def)

lemma fld_find_none:
  "\<forall>x \<in> set xs. lsr_end (fce_range x) \<le> s \<Longrightarrow> fld_find xs s = None"
  by (induction xs) (auto simp: range_within_def)

lemma fld_find_before:
  "\<forall>y \<in> set ys. s < lsr_start (fce_range y) \<Longrightarrow> fld_find ys s = None"
  by (induction ys) (auto simp: range_within_def)

text \<open>Changing the entries behind a prefix that ends before \<open>r\<close>.\<close>

lemma overriding_behind:
  assumes "\<forall>x \<in> set xs. lsr_end (fce_range x) \<le> lsr_start r"
    "\<And>s. fld_find es' s = overriding r (fld_find es) s"
  shows "fld_find (xs @ es') = overriding r (fld_find (xs @ es))"
proof
  fix s
  show "fld_find (xs @ es') s = overriding r (fld_find (xs @ es)) s"
  proof (cases "range_within r s")
    case True
    have "\<forall>x \<in> set xs. lsr_end (fce_range x) \<le> s" 
      using assms(1) True by (auto simp: range_within_def)
    then show ?thesis using assms(2) [of s] fld_find_none [of xs s] True by (simp add: overriding_def)
  qed (use assms(2) [of s] in \<open>simp add: overriding_def split: option.splits\<close>)
qed

definition inserted :: "fld_cache \<Rightarrow> lu_seq_range \<Rightarrow> fld_cache \<Rightarrow> bool" where
  "inserted cache r cache' \<longleftrightarrow> fld_ok cache' \<and> same_config cache cache'
     \<and> fld_find (fci_entries_head cache') = overriding r (fld_find (fci_entries_head cache))
     \<and> fci_cache_count cache' \<le> fci_cache_count cache + 2"

lemma linked_replace:
  assumes "linked cache" "fci_entries_head cache = xs @ c # ys"
  shows "linked (cache\<lparr>fci_entries_head := xs @ Fce (fce_addr c) r # ys\<rparr>)"
  using assms by (auto simp: linked_def)

lemma overlap_replace:
  assumes "fld_ok cache" "fci_entries_head cache = xs @ c # ys"
    "\<forall>x \<in> set xs. lsr_end (fce_range x) \<le> lsr_start r"
    "lsr_start c' \<le> lsr_start (fce_range c)" "lsr_start r \<le> lsr_start c' \<or> lsr_start c' = lsr_start (fce_range c)"
    "lsr_start c' < lsr_end c'"
    "\<And>s. fld_find (Fce (fce_addr c) c' # ys) s = overriding r (fld_find (c # ys)) s"
  shows "\<exists>cache'. fld_fix_new_list (set_fce_range (fce_addr c) c' cache) = Some cache' \<and> inserted cache r cache'"
proof -
  let ?c = "cache\<lparr>fci_entries_head := xs @ Fce (fce_addr c) c' # ys\<rparr>"
  have can: "canon (xs @ c # ys)" and l: "linked cache" using assms(1,2) by (auto simp: fld_ok_def)
  have "disj xs" "disj ys" "\<forall>x \<in> set xs. lsr_end (fce_range x) \<le> lsr_start c'"
    "\<forall>y \<in> set ys. lsr_start c' \<le> lsr_start (fce_range y)"
    "\<forall>x \<in> set xs. \<forall>y \<in> set ys. lsr_end (fce_range x) \<le> lsr_start (fce_range y)"
    using canon_disj [OF can] assms(3-5) by (fastforce simp: ne_def)+
  then have "almost (xs @ Fce (fce_addr c) c' # ys)"
    using assms(6) by (intro almost_appendI) (auto simp: ne_def)
  moreover have "set_fce_range (fce_addr c) c' cache = ?c"
    using l assms(2) by (simp add: set_fce_range_split linked_def)
  moreover have "fld_find (xs @ Fce (fce_addr c) c' # ys) = overriding r (fld_find (xs @ c # ys))"
    using assms(3,7) by (rule overriding_behind)
  ultimately show ?thesis
    using fld_fix_new_list_ok [of ?c] linked_replace [OF l assms(2)] assms(2) by (auto simp: inserted_def)
qed

lemma overlap_add:
  assumes "fld_ok cache" "fci_entries_head cache = xs @ c # ys"
    "\<forall>x \<in> set xs. lsr_end (fce_range x) \<le> lsr_start r"
    "a \<notin> fce_addr ` set (fci_entries_head cache)" 
    "xs' @ ys' = xs @ Fce (fce_addr c) c' # ys"
    "list_add_after (Fce a r) pos (xs' @ ys') = xs' @ Fce a r # ys'"
    "almost (xs' @ Fce a r # ys')"
    "fld_find (xs' @ Fce a r # ys') = overriding r (fld_find (xs @ c # ys))"
  shows "\<exists>cache'. fld_cache_entry_add (set_fce_range (fce_addr c) c' cache) (Fce a r) pos = Some cache'
    \<and> inserted cache r cache'"
proof -
  let ?c = "cache\<lparr>fci_entries_head := xs' @ ys'\<rparr>"
  have l: "linked cache" using assms(1) by (auto simp: fld_ok_def)
  have "set_fce_range (fce_addr c) c' cache = ?c"
    using l assms(2,5) by (simp add: set_fce_range_split linked_def)
  moreover have "linked ?c" using linked_replace [OF l assms(2)] assms(5) by simp
  moreover have "a \<notin> fce_addr ` set (xs' @ ys')" using assms(2,4) unfolding assms(5) by auto
  ultimately show ?thesis
    using fld_cache_entry_add_ok [of ?c "Fce a r" xs' ys' pos] assms(2,6,7,8)
    by (auto simp: inserted_def)
qed

text \<open>The disjointness facts of a list split at an entry.\<close>

lemma canon_split:
  assumes "canon (xs @ c # ys)"
  shows "disj xs" "disj ys" "ne c" "\<forall>x \<in> set xs. lsr_end (fce_range x) \<le> lsr_start (fce_range c)"
    "\<forall>y \<in> set ys. lsr_end (fce_range c) \<le> lsr_start (fce_range y)"
    "\<forall>x \<in> set xs. \<forall>y \<in> set ys. lsr_end (fce_range x) \<le> lsr_start (fce_range y)"
  using canon_disj [OF assms] by auto

lemma overlap_case3:
  assumes "fld_ok cache" "fci_entries_head cache = xs @ c # ys"
    "\<forall>x \<in> set xs. lsr_end (fce_range x) \<le> lsr_start r" "lsr_start r < lsr_end r"
    "a \<notin> fce_addr ` set (fci_entries_head cache)" 
    "lsr_start r \<le> lsr_start (fce_range c)" "lsr_start (fce_range c) \<le> lsr_end r" "lsr_end r < lsr_end (fce_range c)"
  shows "\<exists>cache'. fld_cache_entry_add (set_fce_range (fce_addr c) ((fce_range c)\<lparr>lsr_start := lsr_end r\<rparr>) cache)
      (Fce a r) (list_prev (fce_addr c) None (fci_entries_head cache)) = Some cache'
    \<and> inserted cache r cache'"
proof -
  let ?c = "(fce_range c)\<lparr>lsr_start := lsr_end r\<rparr>"
  have can: "canon (xs @ c # ys)" and l: "linked cache" using assms(1,2) by (auto simp: fld_ok_def)
  note s = canon_split [OF can]
  have d: "distinct (map fce_addr xs)" "fce_addr c \<notin> fce_addr ` set xs" using l assms(2) by (auto simp: linked_def)
  have "\<forall>y \<in> set ys. lsr_end r \<le> lsr_start (fce_range y)" using s(5) assms(8) by auto
  then have "almost (xs @ Fce a r # Fce (fce_addr c) ?c # ys)"
    using s assms(3,4,8) by (intro almost_appendI disj_almost) (auto simp: ne_def)
  moreover have "fld_find (xs @ Fce a r # Fce (fce_addr c) ?c # ys) = overriding r (fld_find (xs @ c # ys))"
    using assms(4-8) by (intro overriding_behind [OF assms(3)]) (auto simp: overriding_def range_within_def)
  ultimately show ?thesis
    using overlap_add [OF assms(1-3,5), of xs "Fce (fce_addr c) ?c # ys" ?c]
      list_add_after_last [OF d(1)] list_prev_split [OF d(2)] assms(2) by simp
qed

lemma overlap_case4:
  assumes "fld_ok cache" "fci_entries_head cache = xs @ c # ys"
    "\<forall>x \<in> set xs. lsr_end (fce_range x) \<le> lsr_start r" "lsr_start r < lsr_end r"
    "a \<notin> fce_addr ` set (fci_entries_head cache)" 
    "lsr_start (fce_range c) < lsr_start r" "lsr_start r < lsr_end (fce_range c)" "lsr_end (fce_range c) \<le> lsr_end r"
  shows "\<exists>cache'. fld_cache_entry_add (set_fce_range (fce_addr c) ((fce_range c)\<lparr>lsr_end := lsr_start r\<rparr>) cache)
      (Fce a r) (Some (fce_addr c)) = Some cache'
    \<and> inserted cache r cache'"
proof -
  let ?c = "Fce (fce_addr c) ((fce_range c)\<lparr>lsr_end := lsr_start r\<rparr>)"
  have can: "canon (xs @ c # ys)" and l: "linked cache" using assms(1,2) by (auto simp: fld_ok_def)
  note s = canon_split [OF can]
  have d: "fce_addr c \<notin> fce_addr ` set xs" using l assms(2) by (auto simp: linked_def)
  have st: "\<forall>y \<in> set ys. lsr_start r \<le> lsr_start (fce_range y)" using s(5) assms(7) by auto
  have "almost (?c # Fce a r # ys)" using s st assms(4,6) by (auto simp: ne_def)
  then have "almost ((xs @ [?c]) @ Fce a r # ys)"
    using s assms(3) by (simp, intro almost_appendI) (auto simp: ne_def)
  moreover have "fld_find (xs @ ?c # Fce a r # ys) = overriding r (fld_find (xs @ c # ys))"
    using assms(4-8) by (intro overriding_behind [OF assms(3)]) (auto simp: overriding_def range_within_def)
  ultimately show ?thesis
    using overlap_add [OF assms(1-3,5), of "xs @ [?c]" ys] list_add_after_Some [of ?c xs] d assms(2) by simp
qed

lemma punch_hole_ok:
  assumes "fld_ok cache" "fci_entries_head cache = xs @ c # ys"
    "\<forall>x \<in> set xs. lsr_end (fce_range x) \<le> lsr_start r" "lsr_start r < lsr_end r"
    "lsr_start (fce_range c) < lsr_start r" "lsr_end r < lsr_end (fce_range c)"
    "lsr_index (fce_range c) \<noteq> lsr_index r"
    "a \<notin> fce_addr ` set (fci_entries_head cache)" "b \<notin> insert a (fce_addr ` set (fci_entries_head cache))"
  shows "\<exists>cache'. fld_cache_punch_hole cache c (Fce a r) (Some b) = Some cache' \<and> inserted cache r cache'"
proof -
  let ?c = "Fce (fce_addr c) ((fce_range c)\<lparr>lsr_end := lsr_start r\<rparr>)"
  let ?t = "Fce b \<lparr>lsr_start = lsr_end r, lsr_end = lsr_end (fce_range c),
                   lsr_index = lsr_index (fce_range c), lsr_flags = 0\<rparr>"
  let ?k = "cache\<lparr>fci_entries_head := xs @ ?c # ys\<rparr>"
  let ?l = "cache\<lparr>fci_entries_head := xs @ ?c # Fce a r # ys, fci_lru := a # fci_lru cache,
                   fci_cache_count := fci_cache_count cache + 1\<rparr>"
  let ?m = "cache\<lparr>fci_entries_head := xs @ ?c # Fce a r # ?t # ys, fci_lru := b # a # fci_lru cache,
                   fci_cache_count := fci_cache_count cache + 2\<rparr>"
  have can: "canon (xs @ c # ys)" and l: "linked cache" using assms(1,2) by (auto simp: fld_ok_def)
  have d: "fce_addr c \<notin> fce_addr ` set xs" "a \<notin> fce_addr ` set (xs @ [c])" "b \<notin> fce_addr ` set (xs @ [c])"
    "a \<noteq> b" using l assms(2,8,9) by (auto simp: linked_def)
  have "\<forall>y \<in> set ys. sep (Fce a r) y" using can assms(6) by (auto simp: sep_def)
  moreover have "\<forall>x \<in> set xs. sep x ?t" "\<forall>x \<in> set xs. sep x (Fce a r)" "\<forall>y \<in> set ys. sep ?c y" "\<forall>y \<in> set ys. sep ?t y"
    using can assms(4,5,6) by (fastforce simp: sep_def)+
  moreover have "sep ?c (Fce a r)" "sep (Fce a r) ?t" "sep ?c ?t" "\<forall>x \<in> set xs. sep x ?c"
    using can assms(4,5,7) by (auto simp: sep_def)
  ultimately have c1: "canon (xs @ ?c # Fce a r # ys)" and c2: "canon (xs @ ?c # Fce a r # ?t # ys)"
    using can assms(4,5,6) by (auto simp: ne_def)
  have "linked ?k" using linked_replace [OF l assms(2)] .
  then have "fld_cache_entry_add ?k (Fce a r) (Some (fce_addr c)) = Some ?l"
    using fld_cache_entry_add_canon [of ?k "Fce a r" "xs @ [?c]" ys "Some (fce_addr c)"]
      list_add_after_Some [of ?c xs] d c1 assms(2,8) by auto
  moreover have l1: "linked ?l" using l assms(2,8) by (auto simp: linked_def)
  then have "fld_cache_entry_add ?l ?t (Some a) = Some ?m"
    using fld_cache_entry_add_canon [of ?l ?t "xs @ [?c, Fce a r]" ys "Some a"]
      list_add_after_Some [of "Fce a r" "xs @ [?c]"] d c2 assms(2,9) by auto
  moreover have "linked ?m" using l assms(2,8,9) by (auto simp: linked_def)
  moreover have "fld_find (xs @ ?c # Fce a r # ?t # ys) = overriding r (fld_find (xs @ c # ys))"
    using assms(4-6) by (intro overriding_behind [OF assms(3)]) (auto simp: overriding_def range_within_def)
  moreover have "set_fce_range (fce_addr c) ((fce_range c)\<lparr>lsr_end := lsr_start r\<rparr>) cache = ?k"
    using l assms(2) by (simp add: set_fce_range_split linked_def)
  ultimately show ?thesis using c2 assms(2)
    by (auto simp: fld_cache_punch_hole_def Let_def inserted_def fld_ok_def)
qed

lemma overlap_handle_ok:
  assumes "fld_ok cache" "fci_entries_head cache = xs @ c # ys"
    "\<forall>x \<in> set xs. lsr_end (fce_range x) \<le> lsr_start r" "lsr_start r < lsr_end r"
    "lsr_start r < lsr_end (fce_range c)" "lsr_start (fce_range c) \<le> lsr_end r"
    "a \<notin> fce_addr ` set (fci_entries_head cache)"
    "\<forall>b. a2 = Some b \<longrightarrow> b \<notin> insert a (fce_addr ` set (fci_entries_head cache))"
    "\<not> tail_overlap r (fce_range c)"
  shows "\<exists>cache'. fld_cache_overlap_handle cache c (Fce a r) a2 = Some cache'
     \<and> (inserted cache r cache' \<or> a2 = None \<and> cache' = cache)"
proof -
  let ?c = "fce_range c"
  have nec: "lsr_start ?c < lsr_end ?c" using assms(1,2) by (auto simp: fld_ok_def ne_def)
  consider (same) "lsr_index ?c = lsr_index r"
    | (shadow) "lsr_index ?c \<noteq> lsr_index r" "lsr_start r \<le> lsr_start ?c" "lsr_end ?c \<le> lsr_end r"
    | (hole) "lsr_index ?c \<noteq> lsr_index r" "lsr_start ?c < lsr_start r" "lsr_end r < lsr_end ?c"
    | (left) "lsr_index ?c \<noteq> lsr_index r" "lsr_start r \<le> lsr_start ?c" "lsr_end r < lsr_end ?c"
    | (right) "lsr_index ?c \<noteq> lsr_index r" "lsr_start ?c < lsr_start r" "lsr_end ?c < lsr_end r"
    using assms(9) unfolding tail_overlap_def by (meson linorder_less_linear not_le)
  then show ?thesis
  proof cases
    case same
    let ?n = "?c\<lparr>lsr_start := min (lsr_start ?c) (lsr_start r), lsr_end := max (lsr_end ?c) (lsr_end r)\<rparr>"
    have f: "fld_find (Fce (fce_addr c) ?n # ys) s = overriding r (fld_find (c # ys)) s" for s
      using assms(4-6) nec same
      by (auto simp: overriding_def range_within_def min_def max_def)
    have "lsr_start ?n < lsr_end ?n" "lsr_start r \<le> lsr_start ?n \<or> lsr_start ?n = lsr_start ?c"
      using nec assms(4) by (auto simp: min_def max_def)
    then show ?thesis
      using overlap_replace [OF assms(1-3) _ _ _ f] same by (auto simp: fld_cache_overlap_handle_def Let_def)
  next
    case shadow
    have f: "fld_find (Fce (fce_addr c) r # ys) s = overriding r (fld_find (c # ys)) s" for s
      using shadow by (auto simp: overriding_def range_within_def)
    show ?thesis
      using overlap_replace [OF assms(1-3) _ _ _ f] assms(4) shadow
      by (auto simp: fld_cache_overlap_handle_def Let_def)
  next
    case hole
    then show ?thesis
    proof (cases a2)
      case None
      then show ?thesis using hole by (auto simp: fld_cache_overlap_handle_def Let_def fld_cache_punch_hole_def)
    next
      case (Some b)
      then show ?thesis
        using punch_hole_ok [OF assms(1-4) hole(2,3,1) assms(7)] assms(8) hole
        by (auto simp: fld_cache_overlap_handle_def Let_def lassert_def)
    qed
  next
    case left
    then show ?thesis
      using overlap_case3 [OF assms(1-4,7) left(2) assms(6) left(3)] nec
      by (auto simp: fld_cache_overlap_handle_def Let_def lassert_def)
  next
    case right
    then show ?thesis
      using overlap_case4 [OF assms(1-4,7) right(2) assms(5)] nec
      by (auto simp: fld_cache_overlap_handle_def Let_def lassert_def)
  qed
qed

section \<open>Searching and shrinking\<close>

lemma fld_insert_scan_Inr:
  "fld_insert_scan r prev es = Inr c \<Longrightarrow> \<exists>xs ys. es = xs @ c # ys
     \<and> (\<forall>x \<in> set xs. lsr_end (fce_range x) \<le> lsr_start r)
     \<and> lsr_start r < lsr_end (fce_range c) \<and> lsr_start (fce_range c) \<le> lsr_end r"
proof (induction es arbitrary: prev)
  case (Cons e es)
  consider "e = c" "lsr_start r < lsr_end (fce_range e)" "lsr_start (fce_range e) \<le> lsr_end r"
    | "fld_insert_scan r (Some (fce_addr e)) es = Inr c" "lsr_end (fce_range e) \<le> lsr_start r"
    using Cons(2) by (simp add: not_less split: if_splits)
  then show ?case
  proof cases
    case 1
    then show ?thesis by (intro exI [of _ "[]"] exI [of _ es]) simp
  next
    case 2
    then obtain xs ys where "es = xs @ c # ys" "\<forall>x \<in> set xs. lsr_end (fce_range x) \<le> lsr_start r"
      "lsr_start r < lsr_end (fce_range c)" "lsr_start (fce_range c) \<le> lsr_end r" using Cons(1) by blast
    then show ?thesis using 2(2) by (intro exI [of _ "e # xs"] exI [of _ ys]) simp
  qed
qed simp

lemma fld_insert_scan_Inl:
  "fld_insert_scan r prev es = Inl p \<Longrightarrow> \<exists>xs ys. es = xs @ ys
     \<and> (\<forall>x \<in> set xs. lsr_end (fce_range x) \<le> lsr_start r)
     \<and> (ys \<noteq> [] \<longrightarrow> lsr_end r < lsr_start (fce_range (hd ys)))
     \<and> p = (if xs = [] then prev else Some (fce_addr (last xs)))"
proof (induction es arbitrary: prev)
  case (Cons e es)
  show ?case
  proof (cases "lsr_end r < lsr_start (fce_range e)")
    case True
    then show ?thesis using Cons(2) by (intro exI [of _ "[]"] exI [of _ "e # es"]) simp
  next
    case False
    then have 2: "fld_insert_scan r (Some (fce_addr e)) es = Inl p" "lsr_end (fce_range e) \<le> lsr_start r"
      using Cons(2) by (simp_all add: not_less split: if_split_asm)
    obtain xs ys where *: "es = xs @ ys" "\<forall>x \<in> set xs. lsr_end (fce_range x) \<le> lsr_start r"
      "ys \<noteq> [] \<longrightarrow> lsr_end r < lsr_start (fce_range (hd ys))"
      "p = (if xs = [] then Some (fce_addr e) else Some (fce_addr (last xs)))"
      using Cons(1) [OF 2(1)] by (elim exE conjE)
    have "p = Some (fce_addr (last (e # xs)))" using *(4) by simp
    then show ?thesis using *(1-3) 2(2) by (intro exI [of _ "e # xs"] exI [of _ ys]) simp
  qed
qed simp

text \<open>Evictions.\<close>

definition evicted :: "fld_cache \<Rightarrow> fld_cache \<Rightarrow> bool" where
  "evicted cache cache' \<longleftrightarrow> fld_ok cache' \<and> same_config cache cache'
     \<and> set (fci_entries_head cache') \<subseteq> set (fci_entries_head cache)"

lemma canon_filter: "canon es \<Longrightarrow> canon (filter P es)"
  by (simp add: canon_def sorted_wrt_filter)

lemma fld_cache_entry_delete_ok:
  assumes "fld_ok cache" "fci_lru cache = l @ [x]"
  shows "evicted cache (fld_cache_entry_delete cache x)" "fci_lru (fld_cache_entry_delete cache x) = l"
proof -
  let ?es = "fci_entries_head cache"
  have l: "linked cache" "canon ?es" using assms(1) by (auto simp: fld_ok_def)
  have "x \<in> fce_addr ` set ?es" using l(1) assms(2) by (auto simp: linked_def)
  then obtain e xs ys where e: "?es = xs @ e # ys" "fce_addr e = x" by (auto dest: split_list)
  have "x \<notin> fce_addr ` (set xs \<union> set ys)" using l(1) e by (auto simp: linked_def)
  then have "\<forall>f \<in> set xs \<union> set ys. fce_addr f \<noteq> x" by blast
  then have f: "filter (\<lambda>e. fce_addr e \<noteq> x) ?es = xs @ ys" using e by (auto simp: filter_id_conv)
  have lru: "filter (\<lambda>a. a \<noteq> x) (fci_lru cache) = l" using l(1) assms(2)
    by (auto simp: linked_def filter_id_conv)
  have s: "insert x (set l) = insert x (fce_addr ` (set xs \<union> set ys))" "x \<notin> set l"
    "x \<notin> fce_addr ` (set xs \<union> set ys)"
    using l(1) e assms(2) by (auto simp: linked_def)
  have "set l = fce_addr ` (set xs \<union> set ys)" by (rule iffD1 [OF insert_ident [OF s(2,3)] s(1)])
  then have "linked (fld_cache_entry_delete cache x)"
    using l(1) e assms(2) f lru by (auto simp: linked_def fld_cache_entry_delete_def)
  moreover have "canon (fci_entries_head (fld_cache_entry_delete cache x))"
    using l(2) by (simp add: fld_cache_entry_delete_def canon_filter)
  ultimately show "evicted cache (fld_cache_entry_delete cache x)"
    by (auto simp: evicted_def fld_ok_def fld_cache_entry_delete_def)
  show "fci_lru (fld_cache_entry_delete cache x) = l" using lru by (simp add: fld_cache_entry_delete_def)
qed

lemma evicted_trans: "evicted a b \<Longrightarrow> evicted b c \<Longrightarrow> evicted a c"
  by (auto simp: evicted_def same_config_def)

lemma shrink_loop_ok:
  "\<lbrakk>fld_ok cache; rest = rev (fci_lru cache)\<rbrakk> \<Longrightarrow> evicted cache (fld_cache_shrink_loop rest cache)
    \<and> (fci_cache_count (fld_cache_shrink_loop rest cache) + fci_threshold cache \<le> fci_cache_size cache
       \<or> fci_entries_head (fld_cache_shrink_loop rest cache) = [])"
proof (induction rest cache rule: fld_cache_shrink_loop.induct)
  case (1 cache)
  then show ?case by (auto simp: evicted_def fld_ok_def linked_def)
next
  case (2 x rest cache)
  have lru: "fci_lru cache = rev rest @ [x]" using 2(3) by (metis rev.simps(2) rev_rev_ident)
  note d = fld_cache_entry_delete_ok [OF 2(2) lru]
  show ?case
  proof (cases "fci_cache_count cache + fci_threshold cache > fci_cache_size cache")
    case True
    then show ?thesis using 2(1) [OF True] d evicted_trans [OF d(1)]
      by (auto simp: evicted_def same_config_def)
  next
    case False
    then show ?thesis using 2(2) by (simp add: evicted_def)
  qed
qed

lemma fld_cache_shrink_ok:
  assumes "fld_ok cache"
  shows "evicted cache (fld_cache_shrink cache)"
    "fci_cache_count (fld_cache_shrink cache) < fci_cache_size cache
     \<or> fci_cache_count (fld_cache_shrink cache) + fci_threshold cache \<le> fci_cache_size cache
     \<or> fci_entries_head (fld_cache_shrink cache) = []"
  using shrink_loop_ok [OF assms refl] assms by (auto simp: fld_cache_shrink_def evicted_def)

section \<open>Insertion and lookup\<close>

lemma fld_lookup_scan_find:
  "canon es \<Longrightarrow> fld_lookup_scan s es = find (\<lambda>e. range_within (fce_range e) s) es"
proof (induction es)
  case (Cons e es)
  have "find (\<lambda>e. range_within (fce_range e) s) es = None" if "s < lsr_start (fce_range e)"
    using that canon_split(5) [of "[]" e es] Cons(2) by (fastforce simp: find_None_iff range_within_def ne_def)
  then show ?case using Cons by (auto simp: range_within_def)
qed simp

definition fld_mdt :: "fld_cache \<Rightarrow> u64 \<Rightarrow> u32 option" where
  "fld_mdt cache s = (case fst (fld_cache_lookup cache s) of Inl rc \<Rightarrow> None | Inr r \<Rightarrow> Some (lsr_index r))"

lemma fld_mdt_find: "fld_ok cache \<Longrightarrow> fld_mdt cache = fld_find (fci_entries_head cache)"
  by (rule ext) (auto simp: fld_mdt_def fld_cache_lookup_def Let_def fld_ok_def fld_lookup_scan_find fld_find_def
      split: option.splits)

lemma canon_hd_starts:
  "\<lbrakk>canon ys; ys \<noteq> [] \<longrightarrow> s < lsr_start (fce_range (hd ys))\<rbrakk> \<Longrightarrow> \<forall>y \<in> set ys. s < lsr_start (fce_range y)"
  by (cases ys) (fastforce simp: sep_def ne_def)+

definition fresh :: "fld_cache \<Rightarrow> nat option \<Rightarrow> nat option \<Rightarrow> bool" where
  "fresh cache a1 a2 \<longleftrightarrow> a1 \<notin> Some ` fce_addr ` set (fci_entries_head cache)
     \<and> a2 \<notin> Some ` fce_addr ` set (fci_entries_head cache) \<and> (a1 = None \<or> a1 \<noteq> a2)"

lemma fresh_evicted: "evicted cache cache' \<Longrightarrow> fresh cache a1 a2 \<Longrightarrow> fresh cache' a1 a2"
  by (auto simp: evicted_def fresh_def)

lemma fresh_SomeD:
  assumes "fresh cache (Some a) a2"
  shows "a \<notin> fce_addr ` set (fci_entries_head cache)"
    "\<forall>b. a2 = Some b \<longrightarrow> b \<notin> insert a (fce_addr ` set (fci_entries_head cache))"
  using assms by (auto simp: fresh_def)

lemma insert_nothing_overlaps:
  assumes ok: "fld_ok cache" and fr: "fresh cache (Some a) a2" and r: "lsr_start r < lsr_end r"
    and scan: "fld_insert_scan r None (fci_entries_head cache) = Inl prev"
  shows "\<exists>cache'. fld_cache_entry_add cache (Fce a r) prev = Some cache' \<and> inserted cache r cache'"
proof -
  obtain xs ys where s: "fci_entries_head cache = xs @ ys" "\<forall>x \<in> set xs. lsr_end (fce_range x) \<le> lsr_start r"
    "ys \<noteq> [] \<longrightarrow> lsr_end r < lsr_start (fce_range (hd ys))"
    "prev = (if xs = [] then None else Some (fce_addr (last xs)))"
    using fld_insert_scan_Inl [OF scan] by (elim exE conjE)
  have can: "canon (xs @ ys)" and l: "linked cache" using ok s(1) by (auto simp: fld_ok_def)
  have ys: "\<forall>y \<in> set ys. lsr_end r < lsr_start (fce_range y)" using canon_hd_starts [OF _ s(3)] can by simp
  have "disj (xs @ ys)" using can by (rule canon_disj)
  then have "almost (xs @ Fce a r # ys)"
    using s(2) ys r by (intro almost_appendI disj_almost) (fastforce simp: ne_def)+
  moreover have "fld_find (xs @ Fce a r # ys) = overriding r (fld_find (xs @ ys))"
    by (intro overriding_behind [OF s(2)]) (simp add: overriding_def)
  moreover have "list_add_after (Fce a r) prev (xs @ ys) = xs @ Fce a r # ys"
    using l s(1) unfolding s(4) by (intro list_add_after_last) (simp add: linked_def)
  ultimately show ?thesis
    using fld_cache_entry_add_ok [OF l, of "Fce a r" xs ys prev] fresh_SomeD(1) [OF fr] s(1) by (auto simp: inserted_def)
qed

lemma fld_cache_insert_ok:
  assumes ok: "fld_ok cache" and fr: "fresh cache (Some a) a2" and r: "lsr_start r < lsr_end r"
    and t: "\<forall>c \<in> set (fci_entries_head (fld_cache_shrink cache)). \<not> tail_overlap r (fce_range c)"
  shows "\<exists>cache'. fld_cache_insert cache r (Some a) a2 = Some cache'
     \<and> (inserted (fld_cache_shrink cache) r cache' \<or> a2 = None \<and> cache' = fld_cache_shrink cache)"
proof -
  let ?k = "fld_cache_shrink cache"
  have e: "evicted cache ?k" using fld_cache_shrink_ok [OF ok] by simp
  then have ok': "fld_ok ?k" by (simp add: evicted_def)
  have fr': "fresh ?k (Some a) a2" using e fr by (rule fresh_evicted)
  have sane: "range_is_sane r" using r by (simp add: range_is_sane_def)
  show ?thesis
  proof (cases "fld_insert_scan r None (fci_entries_head ?k)")
    case (Inl prev)
    then show ?thesis using insert_nothing_overlaps [OF ok' fr' r Inl] sane
      by (auto simp: fld_cache_insert_def Let_def)
  next
    case (Inr c)
    obtain xs ys where s: "fci_entries_head ?k = xs @ c # ys" "\<forall>x \<in> set xs. lsr_end (fce_range x) \<le> lsr_start r"
      "lsr_start r < lsr_end (fce_range c)" "lsr_start (fce_range c) \<le> lsr_end r"
      using fld_insert_scan_Inr [OF Inr] by (elim exE conjE)
    have "\<not> tail_overlap r (fce_range c)" using t s(1) by simp
    then show ?thesis
      using overlap_handle_ok [OF ok' s(1,2) r s(3,4) fresh_SomeD [OF fr']] sane Inr
      by (simp add: fld_cache_insert_def Let_def)
  qed
qed

lemma fld_insert_scan_finds:
  "\<lbrakk>canon es; e \<in> set es; lsr_start (fce_range e) < lsr_start r; lsr_end r = lsr_end (fce_range e);
    lsr_start r < lsr_end r\<rbrakk> \<Longrightarrow> fld_insert_scan r prev es = Inr e"
proof (induction es arbitrary: prev)
  case (Cons d es)
  show ?case
  proof (cases "d = e")
    case True
    then show ?thesis using Cons(4-6) by (auto simp: not_less)
  next
    case False
    then have "lsr_end (fce_range d) \<le> lsr_start (fce_range e)" "ne d" "ne e" using Cons(2,3)
      by (auto simp: sep_def canon_def)
    then have "\<not> lsr_end r < lsr_start (fce_range d)" "\<not> lsr_start r < lsr_end (fce_range d)"
      using Cons(4-6) by (auto simp: ne_def)
    then show ?thesis using Cons False by simp
  qed
qed simp

lemma fld_cache_insert_None:
  assumes "fld_ok cache" "fresh cache (Some a) a2" "lsr_start r < lsr_end r"
  shows "fld_cache_insert cache r (Some a) a2 = None \<longleftrightarrow>
     (\<exists>c \<in> set (fci_entries_head (fld_cache_shrink cache)). tail_overlap r (fce_range c))"
proof
  show "fld_cache_insert cache r (Some a) a2 = None \<Longrightarrow>
    \<exists>c \<in> set (fci_entries_head (fld_cache_shrink cache)). tail_overlap r (fce_range c)"
    using fld_cache_insert_ok [OF assms] by auto
next
  assume "\<exists>c \<in> set (fci_entries_head (fld_cache_shrink cache)). tail_overlap r (fce_range c)"
  then obtain c where c: "c \<in> set (fci_entries_head (fld_cache_shrink cache))" "tail_overlap r (fce_range c)"
    by blast
  have "canon (fci_entries_head (fld_cache_shrink cache))"
    using fld_cache_shrink_ok [OF assms(1)] by (simp add: evicted_def fld_ok_def)
  then have "fld_insert_scan r None (fci_entries_head (fld_cache_shrink cache)) = Inr c"
    using c assms(3) by (intro fld_insert_scan_finds) (auto simp: tail_overlap_def)
  then show "fld_cache_insert cache r (Some a) a2 = None"
    using c(2) by (auto simp: fld_cache_insert_def Let_def fld_cache_overlap_handle_def tail_overlap_def)
qed

lemma find_split:
  "\<lbrakk>canon es; find (\<lambda>e. range_within (fce_range e) s) es = Some e; range_within (fce_range e) s'\<rbrakk>
   \<Longrightarrow> fld_find es s' = Some (lsr_index (fce_range e)) \<and> e \<in> set es \<and> range_within (fce_range e) s"
proof (induction es)
  case (Cons d es)
  show ?case
  proof (cases "range_within (fce_range d) s")
    case False
    then have f: "find (\<lambda>e. range_within (fce_range e) s) es = Some e" using Cons(3) by simp
    then have "sep d e" using Cons by auto
    then have "\<not> range_within (fce_range d) s'" using Cons(4) by (auto simp: range_within_def sep_def)
    then show ?thesis using Cons f by simp
  qed (use Cons in auto)
qed simp

lemma fld_cache_lookup_Inr:
  assumes "fld_ok cache" "fst (fld_cache_lookup cache s) = Inr r"
  shows "range_within r s" "range_within r s' \<Longrightarrow> fld_find (fci_entries_head cache) s' = Some (lsr_index r)"
proof -
  have can: "canon (fci_entries_head cache)" using assms(1) by (simp add: fld_ok_def)
  then obtain e where e: "find (\<lambda>e. range_within (fce_range e) s) (fci_entries_head cache) = Some e" "r = fce_range e"
    using assms(2) by (auto simp: fld_cache_lookup_def Let_def fld_lookup_scan_find split: option.splits)
  show "range_within r s" using e by (auto simp: find_Some_iff)
  show "range_within r s' \<Longrightarrow> fld_find (fci_entries_head cache) s' = Some (lsr_index r)"
    using find_split [OF can e(1)] e(2) by simp
qed

lemma fld_cache_lookup_ok:
  assumes "fld_ok cache"
  shows "fld_ok (snd (fld_cache_lookup cache s))"
    "fci_entries_head (snd (fld_cache_lookup cache s)) = fci_entries_head cache"
proof -
  have can: "canon (fci_entries_head cache)" using assms(1) by (simp add: fld_ok_def)
  show "fci_entries_head (snd (fld_cache_lookup cache s)) = fci_entries_head cache"
    by (simp add: fld_cache_lookup_def Let_def split: option.splits)
  have "e \<in> set (fci_entries_head cache)" if "fld_lookup_scan s (fci_entries_head cache) = Some e" for e
    using that can by (auto simp: fld_lookup_scan_find find_Some_iff)
  then show "fld_ok (snd (fld_cache_lookup cache s))"
    using assms by (auto simp: fld_cache_lookup_def Let_def fld_ok_def linked_def split: option.splits)
qed

lemma fld_cache_flush_ok:
  assumes "fld_ok cache"
  shows "fld_ok (fld_cache_flush cache)"
    "set (fci_entries_head (fld_cache_flush cache)) \<subseteq> set (fci_entries_head cache)"
    "fci_cache_size (fld_cache_flush cache) = 0" "fci_threshold (fld_cache_flush cache) = fci_threshold cache"
proof -
  have "fld_ok (cache\<lparr>fci_cache_size := 0\<rparr>)" using assms by (simp add: fld_ok_def linked_def)
  from fld_cache_shrink_ok(1) [OF this]
  show "fld_ok (fld_cache_flush cache)"
    "set (fci_entries_head (fld_cache_flush cache)) \<subseteq> set (fci_entries_head cache)"
    "fci_cache_size (fld_cache_flush cache) = 0" "fci_threshold (fld_cache_flush cache) = fci_threshold cache"
    by (auto simp: fld_cache_flush_def evicted_def same_config_def)
qed

lemma fld_find_mem: "\<lbrakk>canon es; e \<in> set es; range_within (fce_range e) s\<rbrakk> \<Longrightarrow> fld_find es s = Some (lsr_index (fce_range e))"
  by (induction es) (auto simp: range_within_def sep_def)

lemma fld_find_SomeD: "fld_find es s = Some i \<Longrightarrow> \<exists>e \<in> set es. range_within (fce_range e) s \<and> i = lsr_index (fce_range e)"
  by (auto simp: fld_find_def find_Some_iff)

definition agrees :: "(u64 \<Rightarrow> u32) \<Rightarrow> lu_seq_range \<Rightarrow> bool" where
  "agrees mdt r \<longleftrightarrow> (\<forall>s. range_within r s \<longrightarrow> lsr_index r = mdt s)"

definition truthful :: "(u64 \<Rightarrow> u32) \<Rightarrow> fld_cache \<Rightarrow> bool" where
  "truthful mdt cache \<longleftrightarrow> (\<forall>e \<in> set (fci_entries_head cache). agrees mdt (fce_range e))"

lemma truthful_find:
  "fld_ok cache \<Longrightarrow> truthful mdt cache \<longleftrightarrow> (\<forall>s i. fld_find (fci_entries_head cache) s = Some i \<longrightarrow> i = mdt s)"
  using fld_find_mem fld_find_SomeD unfolding truthful_def agrees_def fld_ok_def by metis

lemma truthful_evicted: "evicted cache cache' \<Longrightarrow> truthful mdt cache \<Longrightarrow> truthful mdt cache'"
  by (auto simp: evicted_def truthful_def)

lemma agrees_not_tail_overlap:
  "\<lbrakk>agrees mdt r; agrees mdt c; lsr_start r < lsr_end r\<rbrakk> \<Longrightarrow> \<not> tail_overlap r c"
  unfolding agrees_def tail_overlap_def range_within_def by (metis order.refl order.strict_implies_order)

lemma fld_cache_insert_truthful:
  assumes ok: "fld_ok cache" and t: "truthful mdt cache" and fr: "fresh cache a1 a2"
    and r: "lsr_start r < lsr_end r" "agrees mdt r"
  shows "\<exists>cache'. fld_cache_insert cache r a1 a2 = Some cache' \<and> fld_ok cache' \<and> truthful mdt cache'"
proof (cases a1)
  case None
  then show ?thesis using ok t r by (simp add: fld_cache_insert_def range_is_sane_def)
next
  case (Some a)
  let ?k = "fld_cache_shrink cache"
  have e: "evicted cache ?k" using fld_cache_shrink_ok [OF ok] by simp
  then have ok': "fld_ok ?k" by (simp add: evicted_def)
  have t': "truthful mdt ?k" using e t by (rule truthful_evicted)
  then have "\<forall>c \<in> set (fci_entries_head ?k). \<not> tail_overlap r (fce_range c)"
    using agrees_not_tail_overlap r by (auto simp: truthful_def)
  then obtain cache' where c: "fld_cache_insert cache r (Some a) a2 = Some cache'"
    "inserted ?k r cache' \<or> a2 = None \<and> cache' = ?k"
    using fld_cache_insert_ok [OF ok _ r(1)] fr Some by blast
  have "fld_ok cache' \<and> truthful mdt cache'" if i: "inserted ?k r cache'"
  proof -
    have ok'': "fld_ok cache'" using i by (simp add: inserted_def)
    have "i = mdt s" if "fld_find (fci_entries_head cache') s = Some i" for s i
      using that i t' ok' r(2) by (auto simp: inserted_def overriding_def truthful_find agrees_def split: if_splits)
    then show ?thesis using ok'' truthful_find by blast
  qed
  then show ?thesis using c ok' t' Some by auto
qed

inductive fld_run :: "(u64 \<Rightarrow> u32) \<Rightarrow> fld_cache \<Rightarrow> bool" for mdt where
  run_init: "fld_cache_init True cache_size cache_threshold = Some (Inr cache) \<Longrightarrow> fld_run mdt cache"
| run_insert: "\<lbrakk>fld_run mdt cache; lsr_start r < lsr_end r; agrees mdt r; fresh cache a1 a2;
     fld_cache_insert cache r a1 a2 = Some cache'\<rbrakk> \<Longrightarrow> fld_run mdt cache'"
| run_lookup: "fld_run mdt cache \<Longrightarrow> fld_run mdt (snd (fld_cache_lookup cache s))"
| run_flush: "fld_run mdt cache \<Longrightarrow> fld_run mdt (fld_cache_flush cache)"

lemma fld_cache_init_ok: "fld_cache_init alloc n m = Some (Inr cache) \<Longrightarrow> fld_ok cache \<and> fci_entries_head cache = []"
  by (auto simp: fld_cache_init_def fld_ok_def linked_def split: if_splits)

lemma fld_run_inv: "fld_run mdt cache \<Longrightarrow> fld_ok cache \<and> truthful mdt cache"
proof (induction rule: fld_run.induct)
  case (run_init n m cache)
  then show ?case using fld_cache_init_ok by (fastforce simp: truthful_def)
next
  case (run_insert cache r a1 a2 cache')
  then show ?case using fld_cache_insert_truthful [of cache mdt a1 a2 r] by auto
next
  case (run_lookup cache s)
  then show ?case using fld_cache_lookup_ok [of cache s] by (simp add: truthful_def)
next
  case (run_flush cache)
  then show ?case using fld_cache_flush_ok [of cache] by (auto simp: truthful_def)
qed

lemma insert_into_flushed:
  assumes "fld_ok cache" "fci_cache_size cache = 0" "0 \<le> fci_threshold cache" "fresh cache (Some a) a2"
    "lsr_start r < lsr_end r"
  shows "\<exists>cache'. fld_cache_insert cache r (Some a) a2 = Some cache' \<and> fld_ok cache'
    \<and> fci_cache_size cache' = 0 \<and> fci_threshold cache' = fci_threshold cache
    \<and> (\<forall>s. fld_mdt cache' s = (if range_within r s then Some (lsr_index r) else None))"
proof -
  let ?k = "fld_cache_shrink cache"
  note sh = fld_cache_shrink_ok [OF assms(1)]
  have es: "fci_entries_head ?k = []" using sh assms(2,3)
    by (auto simp: evicted_def fld_ok_def linked_def simp flip: length_0_conv)
  have ins: "fld_cache_insert cache r (Some a) a2 = fld_cache_entry_add ?k (Fce a r) None"
    using es order.strict_implies_order [OF assms(5)]
    by (simp add: fld_cache_insert_def Let_def range_is_sane_def)
  obtain cache' where c: "fld_cache_insert cache r (Some a) a2 = Some cache'" "inserted ?k r cache'"
    using insert_nothing_overlaps [of ?k a a2 r None] es sh(1) assms(4,5) ins
    by (auto simp: evicted_def dest: fresh_evicted [OF sh(1)])
  then show ?thesis using sh(1) es assms(2)
    by (auto simp: inserted_def evicted_def same_config_def fld_mdt_find overriding_def)
qed

section \<open>Properties\<close>

text \<open>A cache of four entries, empty and with one range.\<close>

definition cache0 :: fld_cache where
  "cache0 = \<lparr>fci_threshold = 1, fci_cache_size = 4, fci_cache_count = 0, fci_lru = [],
     fci_entries_head = [], fst_count = 0, fst_cache = 0\<rparr>"

definition seqs :: "u64 \<Rightarrow> u64 \<Rightarrow> u32 \<Rightarrow> lu_seq_range" where
  "seqs s e i = \<lparr>lsr_start = s, lsr_end = e, lsr_index = i, lsr_flags = 0\<rparr>"

definition cache1 :: fld_cache where
  "cache1 = cache0\<lparr>fci_cache_count := 1, fci_lru := [0], fci_entries_head := [Fce 0 (seqs 16 32 1)]\<rparr>"

lemma cache1_insert: "fld_cache_insert cache0 (seqs 16 32 1) (Some 0) (Some 1) = Some cache1"
  by code_simp

lemma cache_examples_ok: "fld_ok cache0" "fld_ok cache1"
  by (simp_all add: fld_ok_def linked_def cache0_def cache1_def seqs_def ne_def)

lemma cache1_run: "fld_run (\<lambda>s. 1) cache1"
proof (rule run_insert [OF _ _ _ _ cache1_insert])
  show "fld_run (\<lambda>s. 1) cache0"
    by (rule run_init [of 4 1]) (simp add: fld_cache_init_def cache0_def)
qed (simp_all add: seqs_def agrees_def fresh_def cache0_def)

text \<open>
  (C14) As long as the ranges that are inserted agree with one assignment of sequences to metadata
  servers, no sequence of insertions, lookups and flushes, with allocations that fail or succeed
  and whatever evictions happen, makes the cache lie: a hit returns a range that holds the
  sequence and names the right server for all its sequences, and no assertion ever fails.
\<close>

theorem fld_cache_never_stale:
  assumes "fld_run mdt cache"
  shows "(fst (fld_cache_lookup cache s) = Inr hit \<longrightarrow>
      range_within hit s \<and> (\<forall>s'. range_within hit s' \<longrightarrow> lsr_index hit = mdt s')) \<and>
    (lsr_start r < lsr_end r \<longrightarrow> agrees mdt r \<longrightarrow> fresh cache a1 a2 \<longrightarrow>
      (\<exists>cache'. fld_cache_insert cache r a1 a2 = Some cache'))"
proof (rule conjI)
  have ok: "fld_ok cache" "truthful mdt cache" using fld_run_inv [OF assms] by auto
  show "fst (fld_cache_lookup cache s) = Inr hit \<longrightarrow>
      range_within hit s \<and> (\<forall>s'. range_within hit s' \<longrightarrow> lsr_index hit = mdt s')"
    using fld_cache_lookup_Inr [OF ok(1)] ok(2) truthful_find [OF ok(1)] by blast
  show "lsr_start r < lsr_end r \<longrightarrow> agrees mdt r \<longrightarrow> fresh cache a1 a2 \<longrightarrow>
      (\<exists>cache'. fld_cache_insert cache r a1 a2 = Some cache')"
    using fld_cache_insert_truthful [OF ok] by blast
qed

theorem fld_cache_never_stale_witness:
  "fld_run (\<lambda>s. 1) cache1 \<and> fst (fld_cache_lookup cache1 20) = Inr (seqs 16 32 1)
   \<and> range_within (seqs 16 32 1) 20 \<and> lsr_index (seqs 16 32 1) = 1
   \<and> (\<exists>cache'. fld_cache_insert cache1 (seqs 24 48 1) (Some 1) (Some 2) = Some cache')"
proof -
  have hit: "fst (fld_cache_lookup cache1 20) = Inr (seqs 16 32 1)" by code_simp
  have "lsr_start (seqs 24 48 1) < lsr_end (seqs 24 48 1)" "agrees (\<lambda>s. 1) (seqs 24 48 1)"
    "fresh cache1 (Some 1) (Some 2)"
    by (simp_all add: seqs_def agrees_def fresh_def cache1_def cache0_def)
  then show ?thesis
    using fld_cache_never_stale [OF cache1_run, of 20 "seqs 16 32 1" "seqs 24 48 1" "Some 1" "Some 2"]
      cache1_run hit by blast
qed

text \<open>
  (C15) An insertion with memory for its entries overrides the cache on exactly the new range: the
  sequences of the range are looked up to its server, every other sequence to what the cache held
  after its evictions, and the list of ranges is sorted, disjoint and merged again. It fails an
  assertion for exactly the ranges that end where a cached range of another server ends and begin
  behind its start.
\<close>

theorem fld_cache_insert_overrides:
  assumes "fld_ok cache" "fresh cache (Some a) (Some b)" "lsr_start r < lsr_end r"
  shows "if \<exists>c \<in> set (fci_entries_head (fld_cache_shrink cache)). tail_overlap r (fce_range c)
    then fld_cache_insert cache r (Some a) (Some b) = None
    else \<exists>cache'. fld_cache_insert cache r (Some a) (Some b) = Some cache' \<and> fld_ok cache'
      \<and> (\<forall>s. fld_mdt cache' s = (if range_within r s then Some (lsr_index r) else fld_mdt (fld_cache_shrink cache) s))"
proof -
  have "fld_ok (fld_cache_shrink cache)" using fld_cache_shrink_ok [OF assms(1)] by (simp add: evicted_def)
  moreover note fld_cache_insert_None [OF assms]
  moreover have "\<exists>cache'. fld_cache_insert cache r (Some a) (Some b) = Some cache'
      \<and> inserted (fld_cache_shrink cache) r cache'"
    if "\<forall>c \<in> set (fci_entries_head (fld_cache_shrink cache)). \<not> tail_overlap r (fce_range c)"
    using fld_cache_insert_ok [OF assms that] by auto
  ultimately show ?thesis
    by (auto simp: inserted_def overriding_def fld_mdt_find)
qed

theorem fld_cache_insert_overrides_witness:
  "(\<exists>cache'. fld_cache_insert cache1 (seqs 20 24 2) (Some 1) (Some 2) = Some cache'
      \<and> fld_mdt cache' 22 = Some 2 \<and> fld_mdt cache' 30 = Some 1)
   \<and> fld_cache_insert cache1 (seqs 20 32 2) (Some 1) (Some 2) = None"
proof -
  have fr: "fresh cache1 (Some 1) (Some 2)" by code_simp
  have sh: "fld_cache_shrink cache1 = cache1" by code_simp
  have old: "fld_mdt cache1 30 = Some 1" by code_simp
  show ?thesis
    using fld_cache_insert_overrides [OF cache_examples_ok(2) fr, of "seqs 20 24 2"]
      fld_cache_insert_overrides [OF cache_examples_ok(2) fr, of "seqs 20 32 2"] old
    unfolding sh by (auto simp: cache1_def cache0_def seqs_def tail_overlap_def range_within_def)
qed

text \<open>
  (C16) With a positive threshold an insertion leaves at most one entry more than the size of the
  cache, and the count is the length of the list.
\<close>

theorem fld_cache_insert_bound:
  assumes "fld_ok cache" "fresh cache a1 a2" "lsr_start r < lsr_end r"
    "1 \<le> fci_threshold cache" "1 \<le> fci_cache_size cache" "fci_cache_count cache \<le> fci_cache_size cache + 1"
    "fld_cache_insert cache r a1 a2 = Some cache'"
  shows "fci_cache_count cache' \<le> fci_cache_size cache + 1
    \<and> fci_cache_count cache' = int (length (fci_entries_head cache'))
    \<and> length (fci_lru cache') = length (fci_entries_head cache')"
proof -
  let ?k = "fld_cache_shrink cache"
  have sh: "fld_ok ?k" "fci_cache_count ?k = int (length (fci_entries_head ?k))"
    using fld_cache_shrink_ok(1) [OF assms(1)] by (auto simp: evicted_def fld_ok_def linked_def)
  have k: "fci_cache_count ?k \<le> fci_cache_size cache - 1"
    using fld_cache_shrink_ok(2) [OF assms(1)] assms(4,5) sh(2) by auto
  have "fld_ok cache' \<and> fci_cache_count cache' \<le> fci_cache_size cache + 1"
  proof (cases a1)
    case None
    then show ?thesis using assms by (auto simp: fld_cache_insert_def split: if_splits)
  next
    case (Some a)
    note fr = assms(2) [unfolded Some]
    have "\<forall>c \<in> set (fci_entries_head ?k). \<not> tail_overlap r (fce_range c)"
      using fld_cache_insert_None [OF assms(1) fr assms(3)] assms(7) Some by auto
    then show ?thesis
      using fld_cache_insert_ok [OF assms(1) fr assms(3)] assms(7) Some k sh(1) by (auto simp: inserted_def)
  qed
  moreover have "length (fci_lru cache') = length (fci_entries_head cache')" if "fld_ok cache'"
    using that by (auto simp: fld_ok_def linked_def) (metis distinct_card length_map set_map)
  ultimately show ?thesis by (auto simp: fld_ok_def linked_def)
qed

theorem fld_cache_insert_bound_witness:
  "fld_cache_insert cache0 (seqs 16 32 1) (Some 0) (Some 1) = Some cache1
   \<and> fci_cache_count cache1 \<le> fci_cache_size cache0 + 1"
  using fld_cache_insert_bound [OF cache_examples_ok(1) _ _ _ _ _ cache1_insert] cache1_insert
  by (simp add: fresh_def cache0_def seqs_def)

text \<open>
  (C17) \<open>fld_cache_flush\<close> sets the size of the cache to zero and nothing sets it back: every later
  insertion first evicts all the cache holds, so that of two insertions only the last is found.
\<close>

theorem fld_cache_flush_disables:
  assumes "fld_ok cache" "0 \<le> fci_threshold cache" "lsr_start r < lsr_end r" "lsr_start r' < lsr_end r'"
    "fresh (fld_cache_flush cache) (Some a) a2"
    "\<And>cache'. fld_cache_insert (fld_cache_flush cache) r (Some a) a2 = Some cache' \<Longrightarrow> fresh cache' (Some b) b2"
  shows "\<exists>cache1 cache2. fld_cache_insert (fld_cache_flush cache) r (Some a) a2 = Some cache1
    \<and> fld_cache_insert cache1 r' (Some b) b2 = Some cache2
    \<and> (\<forall>s. fld_mdt cache2 s = (if range_within r' s then Some (lsr_index r') else None))"
proof -
  note f = fld_cache_flush_ok [OF assms(1)]
  obtain cache1 where c: "fld_cache_insert (fld_cache_flush cache) r (Some a) a2 = Some cache1" "fld_ok cache1"
    "fci_cache_size cache1 = 0" "fci_threshold cache1 = fci_threshold cache"
    using insert_into_flushed [OF f(1,3) _ assms(5,3)] f(4) assms(2) by auto
  then show ?thesis using insert_into_flushed [OF c(2,3) _ assms(6) [OF c(1)] assms(4)] assms(2) by auto
qed

theorem fld_cache_flush_disables_witness:
  "\<exists>c1 c2. fld_cache_insert (fld_cache_flush cache1) (seqs 64 96 1) (Some 1) (Some 2) = Some c1
   \<and> fld_cache_insert c1 (seqs 128 160 2) (Some 3) (Some 4) = Some c2 \<and> fld_mdt c2 130 = Some 2 \<and> fld_mdt c2 70 = None"
proof -
  have "case fld_cache_insert (fld_cache_flush cache1) (seqs 64 96 1) (Some 1) (Some 2) of
      None \<Rightarrow> True | Some c \<Rightarrow> fresh c (Some 3) (Some 4)" by code_simp
  then have fr: "fresh c (Some 3) (Some 4)"
    if "fld_cache_insert (fld_cache_flush cache1) (seqs 64 96 1) (Some 1) (Some 2) = Some c" for c
    using that by simp
  have "fresh (fld_cache_flush cache1) (Some 1) (Some 2)" by code_simp
  then have "\<exists>c1 c2. fld_cache_insert (fld_cache_flush cache1) (seqs 64 96 1) (Some 1) (Some 2) = Some c1
    \<and> fld_cache_insert c1 (seqs 128 160 2) (Some 3) (Some 4) = Some c2
    \<and> (\<forall>s. fld_mdt c2 s = (if range_within (seqs 128 160 2) s then Some (lsr_index (seqs 128 160 2)) else None))"
    by (intro fld_cache_flush_disables [OF cache_examples_ok(2)] fr)
       (simp_all add: seqs_def cache1_def cache0_def)
  then show ?thesis by (auto simp: seqs_def range_within_def)
qed
end
