(* ===== verification/IntervalTree.thy ===== *)
theory IntervalTree
  imports Prelude
begin

text \<open>
  The interval tree of the extent locks, \<open>lustre/ldlm/interval_tree.c\<close> and
  \<open>lustre/include/interval_tree.h\<close>: a red-black tree of extents whose nodes hold the highest
  end of their subtree.

  The code follows parent pointers. A position in the tree is here a subtree with the path from
  it to the root: each frame of the path is a parent with its other child, so that the first
  frame is \<open>node->in_parent\<close> and the side of the frame is what \<open>node_is_left_child\<close> answers.
  \<open>plug\<close> rebuilds the tree. A null pointer that the code would follow is \<open>None\<close>.
  The nodes carry the structure they are embedded in as \<open>in_data\<close>. A pointer to a node of the
  tree is given by its extent, which no other node of the tree has.

  The theory holds the operations; \<open>IntervalInv\<close> holds the invariants and the insertion,
  \<open>IntervalErase\<close> the deletion and \<open>IntervalSearch\<close> the searches.
\<close>

section \<open>Extents and nodes\<close>

datatype interval_node_extent = Extent (ext_start: u64) (ext_end: u64)

datatype interval_color = INTERVAL_RED | INTERVAL_BLACK

datatype interval_iter = INTERVAL_ITER_CONT | INTERVAL_ITER_STOP

record 'a interval_node =
  in_intree :: bool
  in_max_high :: u64
  in_extent :: interval_node_extent
  in_data :: 'a

abbreviation interval_low :: "'a interval_node \<Rightarrow> u64" where
  "interval_low n \<equiv> ext_start (in_extent n)"

abbreviation interval_high :: "'a interval_node \<Rightarrow> u64" where
  "interval_high n \<equiv> ext_end (in_extent n)"

definition interval_set :: "'a interval_node \<Rightarrow> u64 \<Rightarrow> u64 \<Rightarrow> 'a interval_node option" where
  "interval_set node s e = do {
     lassert (s \<le> e);
     Some (node\<lparr>in_extent := Extent s e, in_max_high := e\<rparr>)
   }"

definition extent_compare :: "interval_node_extent \<Rightarrow> interval_node_extent \<Rightarrow> int" where
  "extent_compare e1 e2 =
    (if ext_start e1 = ext_start e2 then
       if ext_end e1 < ext_end e2 then - 1 else if ext_end e1 > ext_end e2 then 1 else 0
     else if ext_start e1 < ext_start e2 then - 1 else 1)"

definition extent_equal :: "interval_node_extent \<Rightarrow> interval_node_extent \<Rightarrow> bool" where
  "extent_equal e1 e2 \<longleftrightarrow> ext_start e1 = ext_start e2 \<and> ext_end e1 = ext_end e2"

definition extent_overlapped :: "interval_node_extent \<Rightarrow> interval_node_extent \<Rightarrow> bool" where
  "extent_overlapped e1 e2 \<longleftrightarrow> ext_start e1 \<le> ext_end e2 \<and> ext_start e2 \<le> ext_end e1"

definition max_u64 :: "u64 \<Rightarrow> u64 \<Rightarrow> u64" where
  "max_u64 x y = (if x > y then x else y)"

section \<open>Trees and positions\<close>

datatype 'a itree =
    INull
  | INode (in_color: interval_color) (in_node: "'a interval_node") (in_left: "'a itree") (in_right: "'a itree")

datatype side = LeftChild | RightChild

datatype 'a frame =
  Frame (fr_side: side) (fr_color: interval_color) (fr_node: "'a interval_node") (fr_sibling: "'a itree")

type_synonym 'a path = "'a frame list"

fun in_parent :: "'a frame \<Rightarrow> 'a itree \<Rightarrow> 'a itree" where
  "in_parent (Frame LeftChild c n r) t = INode c n t r"
| "in_parent (Frame RightChild c n l) t = INode c n l t"

fun plug :: "'a path \<Rightarrow> 'a itree \<Rightarrow> 'a itree" where
  "plug [] t = t"
| "plug (f # p) t = plug p (in_parent f t)"

fun node_is_red :: "'a itree \<Rightarrow> bool" where
  "node_is_red INull = False"
| "node_is_red (INode c n l r) = (c = INTERVAL_RED)"

definition node_is_black_or_0 :: "'a itree \<Rightarrow> bool" where
  "node_is_black_or_0 t \<longleftrightarrow> \<not> node_is_red t"

fun set_color :: "interval_color \<Rightarrow> 'a itree \<Rightarrow> 'a itree" where
  "set_color c INull = INull"
| "set_color c (INode c' n l r) = INode c n l r"

fun max_high :: "'a itree \<Rightarrow> u64" where
  "max_high INull = 0"
| "max_high (INode c n l r) = in_max_high n"

text \<open>The maximum of a node and its children, as \<open>__rotate_change_maxhigh\<close> and \<open>update_maxhigh\<close> compute it.\<close>

definition new_max_high :: "'a interval_node \<Rightarrow> 'a itree \<Rightarrow> 'a itree \<Rightarrow> u64" where
  "new_max_high n l r = max_u64 (interval_high n) (max_u64 (max_high l) (max_high r))"

section \<open>Iteration\<close>

fun interval_first :: "'a itree \<Rightarrow> 'a path \<Rightarrow> ('a itree \<times> 'a path) option" where
  "interval_first INull p = None"
| "interval_first (INode c n l r) p =
    (if l = INull then Some (INode c n l r, p) else interval_first l (Frame LeftChild c n r # p))"

fun interval_last :: "'a itree \<Rightarrow> 'a path \<Rightarrow> ('a itree \<times> 'a path) option" where
  "interval_last INull p = None"
| "interval_last (INode c n l r) p =
    (if r = INull then Some (INode c n l r, p) else interval_last r (Frame RightChild c n l # p))"

text \<open>The loops that climb while the node is the right, or the left, child.\<close>

fun climb_from :: "side \<Rightarrow> 'a itree \<Rightarrow> 'a path \<Rightarrow> ('a itree \<times> 'a path) option" where
  "climb_from s node [] = None"
| "climb_from s node (parent # p) =
    (if fr_side parent = s then climb_from s (in_parent parent node) p
     else Some (in_parent parent node, p))"

fun interval_next :: "'a itree \<Rightarrow> 'a path \<Rightarrow> ('a itree \<times> 'a path) option" where
  "interval_next INull p = None"
| "interval_next (INode c n l r) p =
    (if r \<noteq> INull then interval_first r (Frame RightChild c n l # p)
     else climb_from RightChild (INode c n l r) p)"

fun interval_prev :: "'a itree \<Rightarrow> 'a path \<Rightarrow> ('a itree \<times> 'a path) option" where
  "interval_prev INull p = None"
| "interval_prev (INode c n l r) p =
    (if l \<noteq> INull then interval_last l (Frame LeftChild c n r # p)
     else climb_from LeftChild (INode c n l r) p)"

text \<open>The nodes from a position on and up to a position, in the order of the extents.\<close>

fun inorder :: "'a itree \<Rightarrow> 'a interval_node list" where
  "inorder INull = []"
| "inorder (INode c n l r) = inorder l @ n # inorder r"

fun nodes_after :: "'a path \<Rightarrow> 'a interval_node list" where
  "nodes_after [] = []"
| "nodes_after (Frame s c n sib # p) = (if s = LeftChild then n # inorder sib else []) @ nodes_after p"

fun nodes_before :: "'a path \<Rightarrow> 'a interval_node list" where
  "nodes_before [] = []"
| "nodes_before (Frame s c n sib # p) = nodes_before p @ (if s = RightChild then inorder sib @ [n] else [])"

fun nodes_from :: "'a itree \<times> 'a path \<Rightarrow> 'a interval_node list" where
  "nodes_from (INull, p) = []"
| "nodes_from (INode c n l r, p) = n # inorder r @ nodes_after p"

fun nodes_upto :: "'a itree \<times> 'a path \<Rightarrow> 'a interval_node list" where
  "nodes_upto (INull, p) = []"
| "nodes_upto (INode c n l r, p) = nodes_before p @ inorder l @ [n]"

lemma interval_first_from:
  "t \<noteq> INull \<Longrightarrow> \<exists>pos. interval_first t p = Some pos \<and> nodes_from pos = inorder t @ nodes_after p"
  by (induction t p rule: interval_first.induct) auto

lemma interval_last_upto:
  "t \<noteq> INull \<Longrightarrow> \<exists>pos. interval_last t p = Some pos \<and> nodes_upto pos = nodes_before p @ inorder t"
  by (induction t p rule: interval_last.induct) auto

lemma climb_from_Right:
  "case climb_from RightChild t p of None \<Rightarrow> nodes_after p = [] | Some pos \<Rightarrow> nodes_from pos = nodes_after p"
proof (induction RightChild t p rule: climb_from.induct)
  case (2 node parent p)
  then show ?case by (cases parent; cases "fr_side parent") (auto split: option.splits)
qed simp

lemma climb_from_Left:
  "case climb_from LeftChild t p of None \<Rightarrow> nodes_before p = [] | Some pos \<Rightarrow> nodes_upto pos = nodes_before p"
proof (induction LeftChild t p rule: climb_from.induct)
  case (2 node parent p)
  then show ?case by (cases parent; cases "fr_side parent") (auto split: option.splits)
qed simp

lemma interval_next_from:
  "case interval_next t p of None \<Rightarrow> tl (nodes_from (t, p)) = [] | Some pos \<Rightarrow> nodes_from pos = tl (nodes_from (t, p))"
proof (cases t)
  case (INode c n l r)
  then show ?thesis using interval_first_from [of r "Frame RightChild c n l # p"] climb_from_Right [of p t]
    by (auto split: option.splits)
qed simp

lemma interval_prev_upto:
  "case interval_prev t p of None \<Rightarrow> butlast (nodes_upto (t, p)) = []
   | Some pos \<Rightarrow> nodes_upto pos = butlast (nodes_upto (t, p))"
proof (cases t)
  case (INode c n l r)
  then show ?thesis using interval_last_upto [of l "Frame LeftChild c n r # p"] climb_from_Left [of p t]
    by (auto simp: butlast_append split: option.splits)
qed simp

function interval_iterate_loop ::
  "('a interval_node \<Rightarrow> 'd \<Rightarrow> interval_iter \<times> 'd) \<Rightarrow> ('a itree \<times> 'a path) option \<Rightarrow> interval_iter \<Rightarrow> 'd \<Rightarrow>
   interval_iter \<times> 'd" where
  "interval_iterate_loop func None rc dat = (rc, dat)"
| "interval_iterate_loop func (Some (INull, p)) rc dat = (rc, dat)"
| "interval_iterate_loop func (Some (INode c n l r, p)) rc dat =
    (let (rc, dat) = func n dat
     in if rc = INTERVAL_ITER_STOP then (rc, dat)
        else interval_iterate_loop func (interval_next (INode c n l r) p) rc dat)"
  by pat_completeness auto
termination
proof (relation "measure (\<lambda>(func, pos, rc, dat). case pos of None \<Rightarrow> 0 | Some pos \<Rightarrow> Suc (length (nodes_from pos)))", goal_cases)
  case (2 func c n l r p rc dat x y z)
  then show ?case using interval_next_from [of "INode c n l r" p] by (auto split: option.splits)
qed simp

function interval_iterate_reverse_loop ::
  "('a interval_node \<Rightarrow> 'd \<Rightarrow> interval_iter \<times> 'd) \<Rightarrow> ('a itree \<times> 'a path) option \<Rightarrow> interval_iter \<Rightarrow> 'd \<Rightarrow>
   interval_iter \<times> 'd" where
  "interval_iterate_reverse_loop func None rc dat = (rc, dat)"
| "interval_iterate_reverse_loop func (Some (INull, p)) rc dat = (rc, dat)"
| "interval_iterate_reverse_loop func (Some (INode c n l r, p)) rc dat =
    (let (rc, dat) = func n dat
     in if rc = INTERVAL_ITER_STOP then (rc, dat)
        else interval_iterate_reverse_loop func (interval_prev (INode c n l r) p) rc dat)"
  by pat_completeness auto
termination
proof (relation "measure (\<lambda>(func, pos, rc, dat). case pos of None \<Rightarrow> 0 | Some pos \<Rightarrow> Suc (length (nodes_upto pos)))", goal_cases)
  case (2 func c n l r p rc dat x y z)
  then show ?case using interval_prev_upto [of "INode c n l r" p] by (auto split: option.splits)
qed simp

definition interval_iterate ::
  "'a itree \<Rightarrow> ('a interval_node \<Rightarrow> 'd \<Rightarrow> interval_iter \<times> 'd) \<Rightarrow> 'd \<Rightarrow> interval_iter \<times> 'd" where
  "interval_iterate root func dat = interval_iterate_loop func (interval_first root []) INTERVAL_ITER_CONT dat"

definition interval_iterate_reverse ::
  "'a itree \<Rightarrow> ('a interval_node \<Rightarrow> 'd \<Rightarrow> interval_iter \<times> 'd) \<Rightarrow> 'd \<Rightarrow> interval_iter \<times> 'd" where
  "interval_iterate_reverse root func dat =
     interval_iterate_reverse_loop func (interval_last root []) INTERVAL_ITER_CONT dat"

section \<open>Insertion\<close>

fun interval_find :: "'a itree \<Rightarrow> interval_node_extent \<Rightarrow> 'a interval_node option" where
  "interval_find INull ex = None"
| "interval_find (INode c n l r) ex =
    (let rc = extent_compare ex (in_extent n)
     in if rc = 0 then Some n else if rc < 0 then interval_find l ex else interval_find r ex)"

fun rotate_left :: "'a itree \<Rightarrow> 'a itree option" where
  "rotate_left (INode c n l (INode rc right rl rr)) =
     Some (INode rc (right\<lparr>in_max_high := in_max_high n\<rparr>)
             (INode c (n\<lparr>in_max_high := new_max_high n l rl\<rparr>) l rl) rr)"
| "rotate_left t = None"

fun rotate_right :: "'a itree \<Rightarrow> 'a itree option" where
  "rotate_right (INode c n (INode lc left ll lr) r) =
     Some (INode lc (left\<lparr>in_max_high := in_max_high n\<rparr>)
             ll (INode c (n\<lparr>in_max_high := new_max_high n lr r\<rparr>) lr r))"
| "rotate_right t = None"

text \<open>
  The rotations of \<open>interval_insert_color\<close>, for a red parent with a black uncle: \<open>gs\<close> is the side of
  the parent, \<open>s\<close> the side of the node, and \<open>t\<close> the subtree of the parent.
\<close>

definition insert_rotate ::
  "side \<Rightarrow> side \<Rightarrow> 'a itree \<Rightarrow> 'a interval_node \<Rightarrow> 'a itree \<Rightarrow> 'a itree option" where
  "insert_rotate gs s t gparent uncle =
    (if gs = LeftChild then do {
       t \<leftarrow> (if s = RightChild then rotate_left t else Some t);
       rotate_right (INode INTERVAL_RED gparent (set_color INTERVAL_BLACK t) uncle)
     }
     else do {
       t \<leftarrow> (if s = LeftChild then rotate_right t else Some t);
       rotate_left (INode INTERVAL_RED gparent uncle (set_color INTERVAL_BLACK t))
     })"

text \<open>
  The loop of \<open>interval_insert_color\<close>. After the rotations the parent of the node is black and
  the loop ends, so that only the change of colours continues, two levels up.
\<close>

fun interval_insert_color :: "'a itree \<Rightarrow> 'a path \<Rightarrow> 'a itree option" where
  "interval_insert_color node [] = Some (set_color INTERVAL_BLACK node)"
| "interval_insert_color node [Frame s c n sib] =
    (if c = INTERVAL_BLACK then Some (set_color INTERVAL_BLACK (in_parent (Frame s c n sib) node)) else None)"
| "interval_insert_color node (Frame s c parent sib # Frame gs gc gparent uncle # p) =
    (if c = INTERVAL_BLACK then
       Some (set_color INTERVAL_BLACK (plug (Frame s c parent sib # Frame gs gc gparent uncle # p) node))
     else if node_is_red uncle then
       interval_insert_color
         (in_parent (Frame gs INTERVAL_RED gparent (set_color INTERVAL_BLACK uncle))
            (in_parent (Frame s INTERVAL_BLACK parent sib) node)) p
     else do {
       g \<leftarrow> insert_rotate gs s (in_parent (Frame s c parent sib) node) gparent uncle;
       Some (set_color INTERVAL_BLACK (plug p g))
     })"

definition raise_max_high :: "'a interval_node \<Rightarrow> 'a interval_node \<Rightarrow> 'a interval_node" where
  "raise_max_high node parent =
    (if in_max_high parent < interval_high node then parent\<lparr>in_max_high := interval_high node\<rparr> else parent)"

text \<open>The descent of \<open>interval_insert\<close>: the node with the same extent, or the place of the new one.\<close>

fun interval_insert_walk ::
  "'a interval_node \<Rightarrow> 'a path \<Rightarrow> 'a itree \<Rightarrow> ('a interval_node \<times> 'a itree) + 'a path" where
  "interval_insert_walk node p INull = Inr p"
| "interval_insert_walk node p (INode c parent l r) =
    (if extent_equal (in_extent parent) (in_extent node) then Inl (parent, plug p (INode c parent l r))
     else if extent_compare (in_extent node) (in_extent parent) < 0
     then interval_insert_walk node (Frame LeftChild c (raise_max_high node parent) r # p) l
     else interval_insert_walk node (Frame RightChild c (raise_max_high node parent) l # p) r)"

definition interval_insert ::
  "'a interval_node \<Rightarrow> 'a itree \<Rightarrow> ('a interval_node option \<times> 'a itree) option" where
  "interval_insert node root = do {
     lassert (\<not> in_intree node);
     case interval_insert_walk node [] root of
       Inl (parent, root') \<Rightarrow> Some (Some parent, root')
     | Inr p \<Rightarrow> do {
         root' \<leftarrow> interval_insert_color (INode INTERVAL_RED (node\<lparr>in_intree := True\<rparr>) INull INull) p;
         Some (None, root')
       }
   }"

section \<open>Deletion\<close>

text \<open>
  \<open>update_maxhigh\<close> from a node upwards. \<open>update_path\<close> goes on at the parents, with the maximum of
  the child it comes from; \<open>update_maxhigh\<close> starts at a node or, for a null node, at its parent
  (\<open>child ? : parent\<close>).
\<close>

fun update_path :: "u64 \<Rightarrow> u64 \<Rightarrow> 'a path \<Rightarrow> 'a path" where
  "update_path m old_maxhigh [] = []"
| "update_path m old_maxhigh (Frame s c node sib # p) =
    (let m' = max_u64 (interval_high node) (max_u64 m (max_high sib))
     in Frame s c (node\<lparr>in_max_high := m'\<rparr>) sib #
          (if m' \<ge> old_maxhigh then p else update_path m' old_maxhigh p))"

fun update_maxhigh :: "'a itree \<Rightarrow> 'a path \<Rightarrow> u64 \<Rightarrow> 'a itree \<times> 'a path" where
  "update_maxhigh INull p old_maxhigh = (INull, update_path 0 old_maxhigh p)"
| "update_maxhigh (INode c node l r) p old_maxhigh =
    (let m = new_max_high node l r
     in (INode c (node\<lparr>in_max_high := m\<rparr>) l r, if m \<ge> old_maxhigh then p else update_path m old_maxhigh p))"

text \<open>
  One round of the loop of \<open>interval_erase_color\<close> for a node that is a left child. First, a red
  sibling is rotated up; the result is the new first two frames of the path. Then \<open>tmp\<close>, with
  children \<open>ta\<close> and \<open>tb\<close>, is the black sibling: \<open>Inl\<close> is the position of the next round, \<open>Inr\<close>
  the root at the \<open>break\<close>.
\<close>

fun erase_red_left :: "'a itree \<Rightarrow> 'a frame \<Rightarrow> 'a path \<Rightarrow> ('a frame \<times> 'a path) option" where
  "erase_red_left node (Frame s c parent tmp) p =
    (if node_is_red tmp then
       case rotate_left (INode INTERVAL_RED parent node (set_color INTERVAL_BLACK tmp)) of
         Some (INode tc tmp (INode c parent _ sib) tb) \<Rightarrow>
           Some (Frame LeftChild c parent sib, Frame LeftChild tc tmp tb # p)
       | _ \<Rightarrow> None
     else Some (Frame s c parent tmp, p))"

fun erase_black_left :: "'a itree \<Rightarrow> 'a frame \<Rightarrow> 'a path \<Rightarrow> (('a itree \<times> 'a path) + 'a itree) option" where
  "erase_black_left node (Frame s c parent INull) p = None"
| "erase_black_left node (Frame s c parent (INode tc tmp ta tb)) p =
    (if node_is_black_or_0 ta \<and> node_is_black_or_0 tb then
       Some (Inl (INode c parent node (INode INTERVAL_RED tmp ta tb), p))
     else do {
       t \<leftarrow> (if node_is_black_or_0 tb then rotate_right (INode INTERVAL_RED tmp (set_color INTERVAL_BLACK ta) tb)
            else Some (INode tc tmp ta tb));
       t \<leftarrow> rotate_left (INode INTERVAL_BLACK parent node
             (INode c (in_node t) (in_left t) (set_color INTERVAL_BLACK (in_right t))));
       Some (Inr (plug p t))
     })"

definition erase_color_left :: "'a itree \<Rightarrow> 'a frame \<Rightarrow> 'a path \<Rightarrow> (('a itree \<times> 'a path) + 'a itree) option" where
  "erase_color_left node parent p = do {
     (parent, p) \<leftarrow> erase_red_left node parent p;
     erase_black_left node parent p
   }"

text \<open>The mirror images, for a right child.\<close>

fun erase_red_right :: "'a itree \<Rightarrow> 'a frame \<Rightarrow> 'a path \<Rightarrow> ('a frame \<times> 'a path) option" where
  "erase_red_right node (Frame s c parent tmp) p =
    (if node_is_red tmp then
       case rotate_right (INode INTERVAL_RED parent (set_color INTERVAL_BLACK tmp) node) of
         Some (INode tc tmp ta (INode c parent sib _)) \<Rightarrow>
           Some (Frame RightChild c parent sib, Frame RightChild tc tmp ta # p)
       | _ \<Rightarrow> None
     else Some (Frame s c parent tmp, p))"

fun erase_black_right :: "'a itree \<Rightarrow> 'a frame \<Rightarrow> 'a path \<Rightarrow> (('a itree \<times> 'a path) + 'a itree) option" where
  "erase_black_right node (Frame s c parent INull) p = None"
| "erase_black_right node (Frame s c parent (INode tc tmp ta tb)) p =
    (if node_is_black_or_0 ta \<and> node_is_black_or_0 tb then
       Some (Inl (INode c parent (INode INTERVAL_RED tmp ta tb) node, p))
     else do {
       t \<leftarrow> (if node_is_black_or_0 ta then rotate_left (INode INTERVAL_RED tmp ta (set_color INTERVAL_BLACK tb))
            else Some (INode tc tmp ta tb));
       t \<leftarrow> rotate_right (INode INTERVAL_BLACK parent
             (INode c (in_node t) (set_color INTERVAL_BLACK (in_left t)) (in_right t)) node);
       Some (Inr (plug p t))
     })"

definition erase_color_right :: "'a itree \<Rightarrow> 'a frame \<Rightarrow> 'a path \<Rightarrow> (('a itree \<times> 'a path) + 'a itree) option" where
  "erase_color_right node parent p = do {
     (parent, p) \<leftarrow> erase_red_right node parent p;
     erase_black_right node parent p
   }"

definition erase_color_step :: "'a itree \<Rightarrow> 'a frame \<Rightarrow> 'a path \<Rightarrow> (('a itree \<times> 'a path) + 'a itree) option" where
  "erase_color_step node parent p =
    (if fr_side parent = LeftChild then erase_color_left node parent p else erase_color_right node parent p)"

lemma erase_red_shorter:
  "erase_red_left node f p = Some (f', p') \<Longrightarrow> p' = p \<or> length p' = Suc (length p) \<and> fr_color f' = INTERVAL_RED"
  "erase_red_right node f p = Some (f', p') \<Longrightarrow> p' = p \<or> length p' = Suc (length p) \<and> fr_color f' = INTERVAL_RED"
  by (cases f; cases "fr_sibling f"; auto split: if_splits itree.splits)+

lemma erase_black_shorter:
  "erase_black_left node f p = Some (Inl (node', p')) \<Longrightarrow> p' = p \<and> node_is_red node' = (fr_color f = INTERVAL_RED)"
  "erase_black_right node f p = Some (Inl (node', p')) \<Longrightarrow> p' = p \<and> node_is_red node' = (fr_color f = INTERVAL_RED)"
  by (cases f; cases "fr_sibling f"; auto simp: bind_eq_Some_conv split: if_splits)+

lemma erase_color_step_shorter:
  assumes "erase_color_step node parent p = Some (Inl (node', p'))"
  shows "length p' \<le> length p \<or> length p' = Suc (length p) \<and> node_is_red node'"
  using assms erase_red_shorter erase_black_shorter
  by (fastforce simp: erase_color_step_def erase_color_left_def erase_color_right_def bind_eq_Some_conv split: if_splits)

function interval_erase_color :: "'a itree \<Rightarrow> 'a path \<Rightarrow> 'a itree option" where
  "interval_erase_color node [] = Some (set_color INTERVAL_BLACK node)"
| "interval_erase_color node (parent # p) =
    (if node_is_black_or_0 node then
       case erase_color_step node parent p of
         None \<Rightarrow> None
       | Some (Inl (node', p')) \<Rightarrow> interval_erase_color node' p'
       | Some (Inr root) \<Rightarrow> Some (set_color INTERVAL_BLACK root)
     else Some (plug (parent # p) (set_color INTERVAL_BLACK node)))"
  by pat_completeness auto
termination
  by (relation "measure (\<lambda>(node, p). 2 * length p + (if node_is_red node then 0 else 1))")
     (auto simp: node_is_black_or_0_def dest!: erase_color_step_shorter)

text \<open>The position of the node that a pointer points to.\<close>

fun interval_locate :: "interval_node_extent \<Rightarrow> 'a path \<Rightarrow> 'a itree \<Rightarrow> ('a itree \<times> 'a path) option" where
  "interval_locate ex p INull = None"
| "interval_locate ex p (INode c n l r) =
    (if in_extent n = ex then Some (INode c n l r, p)
     else if extent_compare ex (in_extent n) < 0 then interval_locate ex (Frame LeftChild c n r # p) l
     else interval_locate ex (Frame RightChild c n l # p) r)"

definition erase_finish :: "interval_color \<Rightarrow> 'a itree \<Rightarrow> 'a path \<Rightarrow> 'a itree option" where
  "erase_finish color child p =
    (if color = INTERVAL_BLACK then interval_erase_color child p else Some (plug p child))"

text \<open>The node has at most the one child.\<close>

definition erase_one :: "interval_color \<Rightarrow> 'a interval_node \<Rightarrow> 'a itree \<Rightarrow> 'a path \<Rightarrow> 'a itree option" where
  "erase_one color node child p =
    (let (child, p) = update_maxhigh child p (in_max_high node)
     in erase_finish color child p)"

text \<open>
  The node \<open>old\<close> has two children: its successor \<open>node\<close> takes its place, with the successor's
  child in the successor's former place, at the path \<open>q\<close> below. When the successor was the right
  child of \<open>old\<close> and has no child itself, the first \<open>update_maxhigh\<close> starts at \<open>old\<close>, which is no
  longer in the tree, and goes on at the parent of \<open>old\<close>.
\<close>

definition erase_two ::
  "interval_color \<Rightarrow> 'a interval_node \<Rightarrow> 'a itree \<Rightarrow> 'a itree \<Rightarrow> 'a path \<Rightarrow> 'a itree option" where
  "erase_two old_color old l r p =
    (case interval_first r [] of
       Some (INode color node _ child, q) \<Rightarrow>
         let (old_max, child, q, node', p) =
               (if child = INull \<and> q = [] then
                  let m = max_u64 (interval_high old) (max_u64 (max_high l) 0)
                  in (m, child, q, node,
                      if m \<ge> in_max_high node then p else update_path (in_max_high node) (in_max_high node) p)
                else
                  let (child, up) = update_maxhigh child (q @ Frame RightChild old_color node l # p) (in_max_high node)
                  in (in_max_high old, child, take (length q) up, fr_node (up ! length q), drop (Suc (length q)) up));
             (t, p) = update_maxhigh (INode old_color node' l (plug q child)) p old_max
         in erase_finish color child (q @ Frame RightChild old_color (in_node t) l # p)
     | _ \<Rightarrow> None)"

definition interval_erase :: "interval_node_extent \<Rightarrow> 'a itree \<Rightarrow> 'a itree option" where
  "interval_erase ex root =
    (case interval_locate ex [] root of
       Some (INode color node l r, p) \<Rightarrow> do {
         lassert (in_intree node);
         if l = INull then erase_one color node r p
         else if r = INull then erase_one color node l p
         else erase_two color node l r p
       }
     | _ \<Rightarrow> None)"

section \<open>Search\<close>

definition interval_may_overlap :: "'a interval_node \<Rightarrow> interval_node_extent \<Rightarrow> bool" where
  "interval_may_overlap node ext \<longleftrightarrow> ext_start ext \<le> in_max_high node \<and> ext_end ext \<ge> interval_low node"

text \<open>The inner loop of \<open>interval_search\<close>: the next right sibling, with the parent that has it.\<close>

fun search_climb :: "'a itree \<Rightarrow> 'a path \<Rightarrow> ('a interval_node \<times> 'a itree \<times> 'a path) option" where
  "search_climb node [] = None"
| "search_climb node (Frame s c parent sib # p) =
    (if s = LeftChild \<and> sib \<noteq> INull then Some (parent, sib, Frame RightChild c parent node # p)
     else search_climb (in_parent (Frame s c parent sib) node) p)"

text \<open>The number of nodes that the search has not yet passed.\<close>

fun to_visit :: "'a path \<Rightarrow> nat" where
  "to_visit [] = 0"
| "to_visit (Frame s c n sib # p) = (if s = LeftChild then size sib else 0) + to_visit p"

lemma search_climb_to_visit:
  "search_climb node p = Some (parent, node', p') \<Longrightarrow> size node' + to_visit p' \<le> to_visit p"
  by (induction node p rule: search_climb.induct) (auto split: if_splits)

function interval_search_loop ::
  "('a interval_node \<Rightarrow> 'd \<Rightarrow> interval_iter \<times> 'd) \<Rightarrow> interval_node_extent \<Rightarrow>
   'a itree \<Rightarrow> 'a path \<Rightarrow> interval_iter \<Rightarrow> 'd \<Rightarrow> interval_iter \<times> 'd" where
  "interval_search_loop func ext INull p rc dat = (rc, dat)"
| "interval_search_loop func ext (INode c node l r) p rc dat =
    (let climb = (\<lambda>rc dat. case search_climb (INode c node l r) p of
                    None \<Rightarrow> (rc, dat)
                  | Some (parent, node', p') \<Rightarrow>
                      if \<not> interval_may_overlap parent ext then (rc, dat)
                      else interval_search_loop func ext node' p' rc dat)
     in if ext_end ext < interval_low node then
          if l \<noteq> INull then interval_search_loop func ext l (Frame LeftChild c node r # p) rc dat
          else climb rc dat
        else if interval_may_overlap node ext then
          let overlapped = extent_overlapped ext (in_extent node);
              (rc, dat) = (if overlapped then func node dat else (rc, dat))
          in if overlapped \<and> rc = INTERVAL_ITER_STOP then (rc, dat)
             else if l \<noteq> INull then interval_search_loop func ext l (Frame LeftChild c node r # p) rc dat
             else if r \<noteq> INull then interval_search_loop func ext r (Frame RightChild c node l # p) rc dat
             else climb rc dat
        else climb rc dat)"
  by pat_completeness auto
termination
  by (relation "measure (\<lambda>(func, ext, t, p, rc, dat). size t + to_visit p)")
     (auto dest!: search_climb_to_visit)

definition interval_search ::
  "'a itree \<Rightarrow> interval_node_extent \<Rightarrow> ('a interval_node \<Rightarrow> 'd \<Rightarrow> interval_iter \<times> 'd) \<Rightarrow> 'd \<Rightarrow> interval_iter \<times> 'd" where
  "interval_search node ext func dat = interval_search_loop func ext node [] INTERVAL_ITER_CONT dat"

definition interval_overlap_cb :: "'a interval_node \<Rightarrow> int \<Rightarrow> interval_iter \<times> int" where
  "interval_overlap_cb n args = (INTERVAL_ITER_STOP, 1)"

definition interval_is_overlapped :: "'a itree \<Rightarrow> interval_node_extent \<Rightarrow> int" where
  "interval_is_overlapped root ext = snd (interval_search root ext interval_overlap_cb 0)"

definition interval_expand_low :: "'a itree \<Rightarrow> u64 \<Rightarrow> u64" where
  "interval_expand_low root low = (if root = INull then 0 else low)"

fun interval_expand_high_loop :: "u64 \<Rightarrow> 'a itree \<Rightarrow> u64 \<Rightarrow> u64" where
  "interval_expand_high_loop result INull high = result"
| "interval_expand_high_loop result (INode c node l r) high =
    (if in_max_high node < high then result
     else if interval_low node > high then interval_expand_high_loop (interval_low node - 1) l high
     else interval_expand_high_loop result r high)"

definition interval_expand_high :: "'a itree \<Rightarrow> u64 \<Rightarrow> u64" where
  "interval_expand_high node high = interval_expand_high_loop (- 1) node high"

definition interval_expand ::
  "'a itree \<Rightarrow> interval_node_extent \<Rightarrow> interval_node_extent option \<Rightarrow> interval_node_extent option" where
  "interval_expand root ext limiter = do {
     lassert (interval_is_overlapped root ext = 0);
     let ext = (if case limiter of None \<Rightarrow> True | Some lim \<Rightarrow> ext_start lim < ext_start ext
                then Extent (interval_expand_low root (ext_start ext)) (ext_end ext) else ext);
     let ext = (if case limiter of None \<Rightarrow> True | Some lim \<Rightarrow> ext_end lim > ext_end ext
                then Extent (ext_start ext) (interval_expand_high root (ext_end ext)) else ext);
     lassert (interval_is_overlapped root ext = 0);
     Some ext
   }"

end
