(* ===== verification/IntervalInv.thy ===== *)
theory IntervalInv
  imports IntervalTree
begin

text \<open>
  The invariants of the interval tree and the proof that an insertion keeps them: the extents are
  strictly sorted, every node holds the highest end of its subtree, and the colours keep the tree
  balanced. Each invariant of a tree has a counterpart for paths, so that it holds of a plugged
  tree exactly if it holds of the subtree and of the path.
\<close>

section \<open>The order of extents\<close>

instantiation interval_node_extent :: linorder
begin

definition less_interval_node_extent :: "interval_node_extent \<Rightarrow> interval_node_extent \<Rightarrow> bool" where
  "e1 < e2 \<longleftrightarrow> extent_compare e1 e2 < 0"

definition less_eq_interval_node_extent :: "interval_node_extent \<Rightarrow> interval_node_extent \<Rightarrow> bool" where
  "e1 \<le> e2 \<longleftrightarrow> extent_compare e1 e2 \<le> 0"

instance
  by standard
    (auto simp: less_interval_node_extent_def less_eq_interval_node_extent_def extent_compare_def
      interval_node_extent.expand split: if_splits)

end

lemma extent_less_iff:
  "e1 < e2 \<longleftrightarrow> ext_start e1 < ext_start e2 \<or> ext_start e1 = ext_start e2 \<and> ext_end e1 < ext_end e2"
  by (auto simp: less_interval_node_extent_def extent_compare_def)

lemma extent_compare_simps [simp]:
  "extent_compare e1 e2 < 0 \<longleftrightarrow> e1 < e2"
  "extent_compare e1 e2 = 0 \<longleftrightarrow> e1 = e2"
  by (auto simp: less_interval_node_extent_def extent_compare_def interval_node_extent.expand)

lemma extent_equal_iff [simp]: "extent_equal e1 e2 \<longleftrightarrow> e1 = e2"
  by (auto simp: extent_equal_def interval_node_extent.expand)

lemma max_u64_max [simp]: "max_u64 x y = max x y"
  by (auto simp: max_u64_def)

section \<open>Contents\<close>

type_synonym 'a item = "interval_node_extent \<times> 'a \<times> bool"

definition item :: "'a interval_node \<Rightarrow> 'a item" where
  "item n = (in_extent n, in_data n, in_intree n)"

lemma item_simps [simp]:
  "item (n\<lparr>in_max_high := m\<rparr>) = item n" "fst (item n) = in_extent n"
  by (simp_all add: item_def)

fun items :: "'a itree \<Rightarrow> 'a item list" where
  "items INull = []"
| "items (INode c n l r) = items l @ item n # items r"

lemma items_inorder: "items t = map item (inorder t)"
  by (induction t) auto

fun items_before :: "'a path \<Rightarrow> 'a item list" where
  "items_before [] = []"
| "items_before (Frame s c n sib # p) = items_before p @ (if s = RightChild then items sib @ [item n] else [])"

fun items_after :: "'a path \<Rightarrow> 'a item list" where
  "items_after [] = []"
| "items_after (Frame s c n sib # p) = (if s = LeftChild then item n # items sib else []) @ items_after p"

lemma items_plug [simp]: "items (plug p t) = items_before p @ items t @ items_after p"
proof (induction p arbitrary: t)
  case (Cons f p)
  then show ?case by (cases f; cases "fr_side f") auto
qed simp

lemma items_set_color [simp]: "items (set_color c t) = items t"
  by (cases t) auto

abbreviation keys :: "'a item list \<Rightarrow> interval_node_extent list" where
  "keys xs \<equiv> map fst xs"

definition ordered :: "'a item list \<Rightarrow> bool" where
  "ordered xs \<longleftrightarrow> sorted_wrt (<) (keys xs)"

lemma ordered_simps [simp]:
  "ordered []"
  "ordered (x # xs) \<longleftrightarrow> (\<forall>y \<in> set xs. fst x < fst y) \<and> ordered xs"
  "ordered (xs @ ys) \<longleftrightarrow> ordered xs \<and> ordered ys \<and> (\<forall>x \<in> set xs. \<forall>y \<in> set ys. fst x < fst y)"
  by (auto simp: ordered_def sorted_wrt_append)

section \<open>Highest ends\<close>

fun maxok :: "'a itree \<Rightarrow> bool" where
  "maxok INull = True"
| "maxok (INode c n l r) = (in_max_high n = new_max_high n l r \<and> maxok l \<and> maxok r)"

text \<open>The frames of a path are right for a subtree with the highest end \<open>m\<close>.\<close>

fun maxok_path :: "'a path \<Rightarrow> u64 \<Rightarrow> bool" where
  "maxok_path [] m = True"
| "maxok_path (Frame s c n sib # p) m =
     (in_max_high n = max (interval_high n) (max m (max_high sib)) \<and> maxok sib \<and> maxok_path p (in_max_high n))"

lemma new_max_high_max: "new_max_high n l r = max (interval_high n) (max (max_high l) (max_high r))"
  by (simp add: new_max_high_def)

lemma maxok_plug [simp]: "maxok (plug p t) \<longleftrightarrow> maxok t \<and> maxok_path p (max_high t)"
proof (induction p arbitrary: t)
  case (Cons f p)
  then show ?case by (cases f; cases "fr_side f") (auto simp: new_max_high_max max.commute)
qed simp

lemma maxok_set_color [simp]: "maxok (set_color c t) = maxok t" "max_high (set_color c t) = max_high t"
  by (cases t; simp add: new_max_high_def)+

section \<open>Colours and heights\<close>

fun color :: "'a itree \<Rightarrow> interval_color" where
  "color INull = INTERVAL_BLACK"
| "color (INode c n l r) = c"

fun bheight :: "'a itree \<Rightarrow> nat" where
  "bheight INull = 0"
| "bheight (INode c n l r) = (if c = INTERVAL_BLACK then Suc (bheight l) else bheight l)"

fun balanced :: "'a itree \<Rightarrow> bool" where
  "balanced INull = True"
| "balanced (INode c n l r) = (bheight l = bheight r \<and> balanced l \<and> balanced r)"

fun coloured :: "'a itree \<Rightarrow> bool" where
  "coloured INull = True"
| "coloured (INode c n l r) =
     ((c = INTERVAL_RED \<longrightarrow> color l = INTERVAL_BLACK \<and> color r = INTERVAL_BLACK) \<and> coloured l \<and> coloured r)"

definition rb :: "'a itree \<Rightarrow> bool" where
  "rb t \<longleftrightarrow> balanced t \<and> coloured t \<and> color t = INTERVAL_BLACK"

text \<open>The frames of a path fit to a subtree of a colour and a black height.\<close>

fun rb_path :: "'a path \<Rightarrow> interval_color \<Rightarrow> nat \<Rightarrow> bool" where
  "rb_path [] c h \<longleftrightarrow> c = INTERVAL_BLACK"
| "rb_path (Frame s fc n sib # p) c h \<longleftrightarrow>
     balanced sib \<and> coloured sib \<and> bheight sib = h \<and>
     (fc = INTERVAL_RED \<longrightarrow> c = INTERVAL_BLACK \<and> color sib = INTERVAL_BLACK) \<and>
     rb_path p fc (if fc = INTERVAL_BLACK then Suc h else h)"

lemma node_is_red_color [simp]: "node_is_red t \<longleftrightarrow> color t = INTERVAL_RED"
  by (cases t) auto

lemma not_red [simp]: "c \<noteq> INTERVAL_RED \<longleftrightarrow> c = INTERVAL_BLACK" "c \<noteq> INTERVAL_BLACK \<longleftrightarrow> c = INTERVAL_RED"
  by (cases c; simp)+

lemma rb_plug: "rb (plug p t) \<longleftrightarrow> balanced t \<and> coloured t \<and> rb_path p (color t) (bheight t)"
proof (induction p arbitrary: t)
  case (Cons f p)
  then show ?case by (cases f; cases "fr_side f") auto
qed (auto simp: rb_def)

lemma rb_path_black: "rb_path p c h \<Longrightarrow> rb_path p INTERVAL_BLACK h"
  by (cases p; cases "hd p") auto

lemma set_color_simps [simp]:
  "balanced (set_color c t) = balanced t" 
  "color (set_color INTERVAL_BLACK t) = INTERVAL_BLACK"
  "coloured t \<Longrightarrow> coloured (set_color INTERVAL_BLACK t)"
  "bheight (set_color INTERVAL_BLACK t) = (if color t = INTERVAL_RED then Suc (bheight t) else bheight t)"
  by (cases t; simp)+

section \<open>Insertion\<close>

lemma rotate_left_ok:
  assumes "rotate_left t = Some t'"
  shows "items t' = items t" "maxok t \<Longrightarrow> maxok t'" "maxok t \<Longrightarrow> max_high t' = max_high t"
  using assms by (cases t rule: rotate_left.cases; auto simp: new_max_high_max ac_simps)+

lemma rotate_right_ok:
  assumes "rotate_right t = Some t'"
  shows "items t' = items t" "maxok t \<Longrightarrow> maxok t'" "maxok t \<Longrightarrow> max_high t' = max_high t"
  using assms by (cases t rule: rotate_right.cases; auto simp: new_max_high_max ac_simps)+

lemma insert_rotate_maxok:
  assumes "insert_rotate gs s t gparent uncle = Some g" "maxok t" "maxok uncle"
    "in_max_high gparent = max (interval_high gparent) (max (max_high t) (max_high uncle))"
  shows "maxok g" "max_high g = in_max_high gparent" "items g = items (in_parent (Frame gs c gparent uncle) t)"
proof -
  let ?r = "if gs = LeftChild then if s = RightChild then rotate_left t else Some t
            else if s = LeftChild then rotate_right t else Some t"
  let ?g = "\<lambda>t. in_parent (Frame gs INTERVAL_RED gparent uncle) (set_color INTERVAL_BLACK t)"
  obtain t' where t': "?r = Some t'" "(if gs = LeftChild then rotate_right (?g t') else rotate_left (?g t')) = Some g"
    using assms(1) by (cases gs) (auto simp: insert_rotate_def bind_eq_Some_conv)
  have "maxok t'" "max_high t' = max_high t" "items t' = items t"
    using t'(1) assms(2) rotate_left_ok rotate_right_ok by (auto split: if_splits)
  then have "maxok (?g t')" "max_high (?g t') = in_max_high gparent" "items (?g t') = items (?g t)"
    using assms(3,4) by (cases gs; simp add: new_max_high_max ac_simps)+
  moreover have "items (?g t) = items (in_parent (Frame gs c gparent uncle) t)" by (cases gs) simp_all
  ultimately show "maxok g" "max_high g = in_max_high gparent" "items g = items (in_parent (Frame gs c gparent uncle) t)"
    using t'(2) rotate_left_ok [of "?g t'" g] rotate_right_ok [of "?g t'" g] by (auto split: if_splits)
qed

lemma insert_rotate_rb:
  assumes "color node = INTERVAL_RED" "balanced node" "coloured node"
    "balanced sib" "coloured sib" "color sib = INTERVAL_BLACK" "bheight sib = bheight node"
    "balanced uncle" "coloured uncle" "color uncle = INTERVAL_BLACK" "bheight uncle = bheight node"
  shows "\<exists>g. insert_rotate gs s (in_parent (Frame s INTERVAL_RED parent sib) node) gparent uncle = Some g
    \<and> balanced g \<and> coloured g \<and> color g = INTERVAL_BLACK \<and> bheight g = Suc (bheight node)"
proof -
  obtain nn nl nr where "node = INode INTERVAL_RED nn nl nr" using assms(1) by (cases node) auto
  then show ?thesis using assms by (cases s; cases gs) (auto simp: insert_rotate_def)
qed

lemma rb_set_color: "balanced t \<Longrightarrow> coloured t \<Longrightarrow> rb (set_color INTERVAL_BLACK t)"
  by (simp add: rb_def)

lemma rb_set_color_rb [simp]: "rb t \<Longrightarrow> rb (set_color INTERVAL_BLACK t)"
  by (simp add: rb_def)

lemma interval_insert_color_ok:
  "\<lbrakk>color node = INTERVAL_RED; balanced node; coloured node; rb_path p INTERVAL_BLACK (bheight node);
    maxok node; maxok_path p (max_high node)\<rbrakk>
   \<Longrightarrow> \<exists>t. interval_insert_color node p = Some t \<and> rb t \<and> maxok t \<and> items t = items (plug p node)"
proof (induction node p rule: interval_insert_color.induct)
  case (1 node)
  then show ?case by (simp add: rb_set_color)
next
  case (2 node s c n sib)
  then show ?case by (cases s) (auto simp: rb_def new_max_high_max max.commute)
next
  case (3 node s c parent sib gs gc gparent uncle p)
  consider "c = INTERVAL_BLACK" | "c = INTERVAL_RED" "color uncle = INTERVAL_RED"
    | "c = INTERVAL_RED" "color uncle = INTERVAL_BLACK" by (cases c; cases "color uncle") auto
  then show ?case
  proof cases
    case 1
    then have "rb (plug (Frame s c parent sib # Frame gs gc gparent uncle # p) node)"
      "maxok (plug (Frame s c parent sib # Frame gs gc gparent uncle # p) node)"
      using "3.prems" by (simp_all only: rb_plug maxok_plug) simp_all
    then show ?thesis using 1 by (simp del: plug.simps maxok_path.simps)
  next
    case 2
    let ?g = "in_parent (Frame gs INTERVAL_RED gparent (set_color INTERVAL_BLACK uncle))
            (in_parent (Frame s INTERVAL_BLACK parent sib) node)"
    have gc: "gc = INTERVAL_BLACK" using "3.prems"(4) 2 by (cases gc) auto
    have "color ?g = INTERVAL_RED" "balanced ?g" "coloured ?g" "rb_path p INTERVAL_BLACK (bheight ?g)"
      using "3.prems"(1-4) 2 gc by (cases s; cases gs; auto)+
    moreover have "maxok ?g" "maxok_path p (max_high ?g)"
      using "3.prems"(5,6) by (cases s; cases gs; auto simp: new_max_high_max max.commute)+
    moreover have "items (plug p ?g) = items (plug (Frame s c parent sib # Frame gs gc gparent uncle # p) node)"
      by (cases s; cases gs; simp)
    ultimately show ?thesis using "3.IH"(1) 2 by simp
  next
    case 3
    let ?t = "in_parent (Frame s c parent sib) node"
    have t: "balanced ?t" "bheight sib = bheight node" "coloured sib" "color sib = INTERVAL_BLACK"
      using "3.prems"(2,4) 3 by (cases s; simp)+
    have u: "balanced uncle" "coloured uncle" "bheight uncle = bheight node" "gc = INTERVAL_BLACK"
      "rb_path p INTERVAL_BLACK (Suc (bheight node))"
      using "3.prems"(4) 3 by (cases gc; simp)+
    have m: "maxok ?t" "maxok uncle" "in_max_high gparent = max (interval_high gparent) (max (max_high ?t) (max_high uncle))"
      using "3.prems"(5,6) by (cases s; simp add: new_max_high_max ac_simps)+
    obtain g where g: "insert_rotate gs s ?t gparent uncle = Some g" "balanced g" "coloured g" "color g = INTERVAL_BLACK"
        "bheight g = Suc (bheight node)"
      using insert_rotate_rb [of node sib uncle gs s parent gparent] "3.prems"(1-3) t u 3 by (cases s) auto
    note mi = insert_rotate_maxok [OF g(1) m]
    have "maxok_path p (in_max_high gparent)" using "3.prems"(6) unfolding maxok_path.simps by (elim conjE)
    then have "rb (plug p g)" "maxok (plug p g)" using g(2-5) u(5) mi(1,2) by (simp_all add: rb_plug)
    moreover have "items (plug p g) = items (plug (Frame s c parent sib # Frame gs gc gparent uncle # p) node)"
      using mi(3) by (cases gs) simp_all
    ultimately show ?thesis using g(1) 3 by simp
  qed
qed

definition valid :: "'a itree \<Rightarrow> bool" where
  "valid t \<longleftrightarrow> ordered (items t) \<and> maxok t \<and> rb t \<and> (\<forall>x \<in> set (items t). snd (snd x))"

lemma maxok_member: "\<lbrakk>maxok t; n \<in> set (inorder t)\<rbrakk> \<Longrightarrow> interval_high n \<le> max_high t"
  by (induction t) (auto simp: new_max_high_max le_max_iff_disj)

lemma in_items: "x \<in> set (items t) \<longleftrightarrow> (\<exists>n \<in> set (inorder t). x = item n)"
  by (auto simp: items_inorder)

lemma raise_max_high_simps [simp]:
  "item (raise_max_high node n) = item n" "in_extent (raise_max_high node n) = in_extent n"
  "in_intree (raise_max_high node n) = in_intree n"
  "in_max_high (raise_max_high node n) = max (in_max_high n) (interval_high node)"
  by (auto simp: raise_max_high_def max_def)

lemma raise_max_high_id: "interval_high node \<le> in_max_high n \<Longrightarrow> raise_max_high node n = n"
  by (simp add: raise_max_high_def)

lemma insert_walk_found:
  "\<lbrakk>in_extent node \<in> fst ` set (items t); ordered (items t); maxok t\<rbrakk> \<Longrightarrow>
   \<exists>n \<in> set (inorder t). in_extent n = in_extent node \<and> interval_insert_walk node p t = Inl (n, plug p t)"
proof (induction node p t rule: interval_insert_walk.induct)
  case (2 node p c parent l r)
  have "interval_high node \<le> in_max_high parent"
    using maxok_member [OF "2.prems"(3)] "2.prems"(1) by (force simp: in_items item_def)
  note m = raise_max_high_id [OF this]
  consider "in_extent node = in_extent parent" | "in_extent node < in_extent parent" | "in_extent parent < in_extent node"
    by fastforce
  then show ?case
  proof cases
    case 2
    then have "in_extent node \<in> fst ` set (items l)" using "2.prems"(1,2) by (auto simp: item_def)
    then show ?thesis using "2.IH"(1) 2 m "2.prems" by auto
  next
    case 3
    then have "in_extent node \<in> fst ` set (items r)" using "2.prems"(1,2) by (auto simp: item_def)
    then show ?thesis using "2.IH"(2) 3 m "2.prems" by auto
  qed auto
qed simp

lemma insert_walk_not_found:
  "in_extent node \<notin> fst ` set (items t) \<Longrightarrow> \<exists>q. interval_insert_walk node p t = Inr q"
  by (induction node p t rule: interval_insert_walk.induct) (auto simp: item_def)

lemma insert_walk_items:
  "interval_insert_walk node p t = Inr q \<Longrightarrow> items_before q @ items_after q = items (plug p t)"
  by (induction node p t rule: interval_insert_walk.induct) (auto split: if_splits)

lemma insert_walk_maxok:
  "\<lbrakk>interval_insert_walk node p t = Inr q; maxok t; maxok_path p (max (max_high t) (interval_high node))\<rbrakk>
   \<Longrightarrow> maxok_path q (interval_high node)"
proof (induction node p t rule: interval_insert_walk.induct)
  case (2 node p c parent l r)
  then show ?case by (auto simp: new_max_high_max ac_simps split: if_splits)
qed simp

lemma insert_walk_rb:
  "\<lbrakk>interval_insert_walk node p t = Inr q; balanced t; coloured t; rb_path p (color t) (bheight t)\<rbrakk>
   \<Longrightarrow> rb_path q INTERVAL_BLACK 0"
proof (induction node p t rule: interval_insert_walk.induct)
  case (2 node p c parent l r)
  then show ?case by (cases c) (auto split: if_splits)
qed simp

lemma insert_walk_order:
  "\<lbrakk>interval_insert_walk node p t = Inr q; ordered (items (plug p t));
    \<forall>x \<in> fst ` set (items_before p). x < in_extent node; \<forall>x \<in> fst ` set (items_after p). in_extent node < x\<rbrakk>
   \<Longrightarrow> (\<forall>x \<in> fst ` set (items_before q). x < in_extent node) \<and> (\<forall>x \<in> fst ` set (items_after q). in_extent node < x)"
proof (induction node p t rule: interval_insert_walk.induct)
  case (2 node p c parent l r)
  have ne: "in_extent parent \<noteq> in_extent node" using "2.prems"(1) by auto
  show ?case
  proof (cases "in_extent node < in_extent parent")
    case True
    let ?p = "Frame LeftChild c (raise_max_high node parent) r # p"
    have "\<forall>x \<in> fst ` set (items_after ?p). in_extent node < x"
      using "2.prems"(2,4) True by (auto simp: item_def intro: less_trans [OF True])
    then show ?thesis using "2.IH"(1) "2.prems" ne True by simp
  next
    case False
    then have less: "in_extent parent < in_extent node" using ne by simp
    let ?p = "Frame RightChild c (raise_max_high node parent) l # p"
    have "\<forall>x \<in> fst ` set (items_before ?p). x < in_extent node"
      using "2.prems"(2,3) less by (auto simp: item_def intro: less_trans [OF _ less])
    then show ?thesis using "2.IH"(2) "2.prems" ne False by simp
  qed
qed simp

lemma interval_insert_new:
  assumes t: "valid t" and node: "\<not> in_intree node" "in_max_high node = interval_high node"
    and new: "in_extent node \<notin> fst ` set (items t)"
  shows "\<exists>t'. interval_insert node t = Some (None, t') \<and> valid t'
    \<and> set (items t') = insert (in_extent node, in_data node, True) (set (items t))"
proof -
  have v: "ordered (items t)" "maxok t" "balanced t" "coloured t" "color t = INTERVAL_BLACK"
    "\<forall>x \<in> set (items t). snd (snd x)"
    using t by (auto simp: valid_def rb_def)
  let ?n = "INode INTERVAL_RED (node\<lparr>in_intree := True\<rparr>) INull INull"
  obtain q where q: "interval_insert_walk node [] t = Inr q" using insert_walk_not_found [OF new] by blast
  have "maxok_path q (max_high ?n)" using insert_walk_maxok [OF q v(2)] node(2) by simp
  moreover have "rb_path q INTERVAL_BLACK (bheight ?n)" using insert_walk_rb [OF q v(3,4)] v(5) by simp
  moreover have "maxok ?n" using node(2) by (simp add: new_max_high_def)
  ultimately obtain t' where t': "interval_insert_color ?n q = Some t'" "rb t'" "maxok t'" "items t' = items (plug q ?n)"
    using interval_insert_color_ok [of ?n q] by auto
  have i: "items_before q @ items_after q = items t" using insert_walk_items [OF q] by simp
  have "ordered (items_before q @ items_after q)" using v(1) i by simp
  then have "ordered (items t')" using insert_walk_order [OF q] v(1) t'(4) by (auto simp: item_def)
  moreover have "set (items t') = insert (in_extent node, in_data node, True) (set (items t))"
    using t'(4) i [symmetric] by (auto simp: item_def)
  ultimately show ?thesis using t' v(6) q node(1) by (auto simp: interval_insert_def valid_def)
qed

lemma interval_insert_found:
  assumes "valid t" "\<not> in_intree node" "in_extent node \<in> fst ` set (items t)"
  shows "\<exists>n \<in> set (inorder t). interval_insert node t = Some (Some n, t) \<and> in_extent n = in_extent node"
  using insert_walk_found [of node t "[]"] assms by (auto simp: interval_insert_def valid_def)

lemma find_append: "find P (xs @ ys) = (case find P xs of None \<Rightarrow> find P ys | Some x \<Rightarrow> Some x)"
  by (induction xs) auto

lemma interval_find_items:
  "ordered (items t) \<Longrightarrow> interval_find t ex = find (\<lambda>n. in_extent n = ex) (inorder t)"
proof (induction t)
  case (INode c n l r)
  have "find (\<lambda>n. in_extent n = ex) (inorder l) = None" if "in_extent n \<le> ex"
    using INode(3) that by (fastforce simp: find_None_iff items_inorder)
  moreover have "find (\<lambda>n. in_extent n = ex) (inorder r) = None" if "ex \<le> in_extent n"
    using INode(3) that by (fastforce simp: find_None_iff items_inorder)
  ultimately show ?case using INode 
    by (auto simp: Let_def find_append not_less split: option.splits)
qed simp

text \<open>The height of the tree.\<close>

fun theight :: "'a itree \<Rightarrow> nat" where
  "theight INull = 0"
| "theight (INode c n l r) = Suc (max (theight l) (theight r))"

lemma theight_bheight:
  "balanced t \<Longrightarrow> coloured t \<Longrightarrow> theight t \<le> 2 * bheight t + (if color t = INTERVAL_BLACK then 0 else 1)"
  by (induction t) (auto split: if_split_asm)

lemma bheight_size: "balanced t \<Longrightarrow> 2 ^ bheight t \<le> Suc (length (items t))"
  by (induction t) auto

lemma theight_log:
  assumes "rb t" shows "2 ^ (theight t div 2) \<le> Suc (length (items t))"
proof -
  have "theight t div 2 \<le> bheight t" using theight_bheight [of t] assms by (auto simp: rb_def)
  then have "(2::nat) ^ (theight t div 2) \<le> 2 ^ bheight t" by (intro power_increasing) auto
  also have "\<dots> \<le> Suc (length (items t))" using bheight_size [of t] assms by (simp add: rb_def)
  finally show ?thesis .
qed

end
