(* ===== verification/IntervalErase.thy ===== *)
theory IntervalErase
  imports IntervalInv
begin

text \<open>
  The deletion of a node keeps the invariants of the interval tree and removes exactly that
  extent. The two parts are the recolouring loop, which repairs a path below which one black
  level is missing, and the repair of the highest ends, which stops early at the first node
  whose highest end does not change.
\<close>

section \<open>Recolouring\<close>

lemma maxok_path_tl: "maxok_path (Frame s c n sib # p) m \<Longrightarrow> maxok_path p (in_max_high n)"
  unfolding maxok_path.simps by (elim conjE)

text \<open>The positions that the loop of \<open>interval_erase_color\<close> visits: a black level is missing below.\<close>

definition erase_pos :: "'a itree \<Rightarrow> 'a path \<Rightarrow> bool" where
  "erase_pos node p \<longleftrightarrow> balanced node \<and> coloured (set_color INTERVAL_BLACK node)
     \<and> (color node = INTERVAL_BLACK \<longrightarrow> coloured node) \<and> rb_path p INTERVAL_BLACK (Suc (bheight node))
     \<and> maxok node \<and> maxok_path p (max_high node)"

lemma erase_red_left_ok:
  assumes "erase_pos node (Frame LeftChild c parent tmp # p)" "color node = INTERVAL_BLACK"
  shows "\<exists>f p'. erase_red_left node (Frame LeftChild c parent tmp) p = Some (f, p')
    \<and> erase_pos node (f # p') \<and> fr_side f = LeftChild \<and> color (fr_sibling f) = INTERVAL_BLACK
    \<and> items (plug (f # p') node) = items (plug (Frame LeftChild c parent tmp # p) node)"
proof (cases "color tmp")
  case INTERVAL_BLACK
  then show ?thesis using assms by simp
next
  case INTERVAL_RED
  then obtain n ta tb where tmp: "tmp = INode INTERVAL_RED n ta tb" by (cases tmp) auto
  let ?t = "INode INTERVAL_RED parent node (set_color INTERVAL_BLACK tmp)"
  obtain t where t: "rotate_left ?t = Some t" "t = INode INTERVAL_BLACK (n\<lparr>in_max_high := in_max_high parent\<rparr>)
      (INode INTERVAL_RED (parent\<lparr>in_max_high := new_max_high parent node ta\<rparr>) node ta) tb"
    by (simp add: tmp)
  have c: "c = INTERVAL_BLACK" "color ta = INTERVAL_BLACK"
    using assms(1) tmp by (cases c; simp add: erase_pos_def)+
  have m: "maxok ?t" using assms(1) by (simp add: erase_pos_def new_max_high_max ac_simps)
  have p: "maxok_path p (in_max_high parent)" using assms(1) unfolding erase_pos_def by (blast intro: maxok_path_tl)
  note r = rotate_left_ok [OF t(1)]
  have "maxok t" "max_high t = in_max_high parent" using r(2,3) m by simp_all
  then have "maxok (plug p t)" using p by simp
  then have "maxok_path (Frame LeftChild INTERVAL_RED (parent\<lparr>in_max_high := new_max_high parent node ta\<rparr>) ta #
      Frame LeftChild INTERVAL_BLACK (n\<lparr>in_max_high := in_max_high parent\<rparr>) tb # p) (max_high node)"
    using maxok_plug [of "Frame LeftChild INTERVAL_RED (parent\<lparr>in_max_high := new_max_high parent node ta\<rparr>) ta #
      Frame LeftChild INTERVAL_BLACK (n\<lparr>in_max_high := in_max_high parent\<rparr>) tb # p" node] unfolding t(2) plug.simps in_parent.simps by blast
  then show ?thesis
    using assms tmp t c r(1) by (auto simp: erase_pos_def simp del: maxok_path.simps)
qed

lemma erase_red_right_ok:
  assumes "erase_pos node (Frame RightChild c parent tmp # p)" "color node = INTERVAL_BLACK"
  shows "\<exists>f p'. erase_red_right node (Frame RightChild c parent tmp) p = Some (f, p')
    \<and> erase_pos node (f # p') \<and> fr_side f = RightChild \<and> color (fr_sibling f) = INTERVAL_BLACK
    \<and> items (plug (f # p') node) = items (plug (Frame RightChild c parent tmp # p) node)"
proof (cases "color tmp")
  case INTERVAL_BLACK
  then show ?thesis using assms by simp
next
  case INTERVAL_RED
  then obtain n ta tb where tmp: "tmp = INode INTERVAL_RED n ta tb" by (cases tmp) auto
  let ?t = "INode INTERVAL_RED parent (set_color INTERVAL_BLACK tmp) node"
  obtain t where t: "rotate_right ?t = Some t" "t = INode INTERVAL_BLACK (n\<lparr>in_max_high := in_max_high parent\<rparr>) ta
      (INode INTERVAL_RED (parent\<lparr>in_max_high := new_max_high parent tb node\<rparr>) tb node)"
    by (simp add: tmp)
  have c: "c = INTERVAL_BLACK" "color tb = INTERVAL_BLACK"
    using assms(1) tmp by (cases c; simp add: erase_pos_def)+
  have m: "maxok ?t" using assms(1) by (simp add: erase_pos_def new_max_high_max ac_simps)
  have p: "maxok_path p (in_max_high parent)" using assms(1) unfolding erase_pos_def by (blast intro: maxok_path_tl)
  note r = rotate_right_ok [OF t(1)]
  have "maxok t" "max_high t = in_max_high parent" using r(2,3) m by simp_all
  then have "maxok (plug p t)" using p by simp
  then have "maxok_path (Frame RightChild INTERVAL_RED (parent\<lparr>in_max_high := new_max_high parent tb node\<rparr>) tb #
      Frame RightChild INTERVAL_BLACK (n\<lparr>in_max_high := in_max_high parent\<rparr>) ta # p) (max_high node)"
    using maxok_plug [of "Frame RightChild INTERVAL_RED (parent\<lparr>in_max_high := new_max_high parent tb node\<rparr>) tb #
      Frame RightChild INTERVAL_BLACK (n\<lparr>in_max_high := in_max_high parent\<rparr>) ta # p" node] unfolding t(2) plug.simps in_parent.simps by blast
  then show ?thesis
    using assms tmp t c r(1) by (auto simp: erase_pos_def simp del: maxok_path.simps)
qed

definition step_ok :: "'a itree \<Rightarrow> (('a itree \<times> 'a path) + 'a itree) option \<Rightarrow> bool" where
  "step_ok t res \<longleftrightarrow> (case res of None \<Rightarrow> False
     | Some (Inl (node, p)) \<Rightarrow> erase_pos node p \<and> items (plug p node) = items t
     | Some (Inr t') \<Rightarrow> rb t' \<and> maxok t' \<and> items t' = items t)"

lemma erase_black_left_ok:
  assumes "erase_pos node (Frame LeftChild c parent sib # p)" "color node = INTERVAL_BLACK" "color sib = INTERVAL_BLACK"
  shows "step_ok (plug (Frame LeftChild c parent sib # p) node) (erase_black_left node (Frame LeftChild c parent sib) p)"
proof -
  have pos: "balanced node" "coloured node" "maxok node" "balanced sib" "coloured sib" "bheight sib = Suc (bheight node)"
    "maxok sib" "rb_path p c (if c = INTERVAL_BLACK then Suc (Suc (bheight node)) else Suc (bheight node))"
    using assms(1,2) by (simp_all add: erase_pos_def)
  have mx: "in_max_high parent = max (interval_high parent) (max (max_high node) (max_high sib))"
    using assms(1) by (simp add: erase_pos_def)
  have p: "maxok_path p (in_max_high parent)" using assms(1) unfolding erase_pos_def by (blast intro: maxok_path_tl)
  obtain tmp ta tb where sib: "sib = INode INTERVAL_BLACK tmp ta tb" using pos(6) assms(3) by (cases sib) auto
  show ?thesis
  proof (cases "color ta = INTERVAL_BLACK \<and> color tb = INTERVAL_BLACK")
    case True
    let ?node = "INode c parent node (INode INTERVAL_RED tmp ta tb)"
    have "maxok ?node" "maxok_path p (max_high ?node)" using pos mx p sib by (simp_all add: new_max_high_max)
    moreover have "rb_path p INTERVAL_BLACK (Suc (bheight ?node))" using rb_path_black [OF pos(8)] pos(6) sib by (cases c) simp_all
    ultimately have "erase_pos ?node p" using pos sib True by (auto simp: erase_pos_def)
    then show ?thesis using True sib by (simp add: step_ok_def node_is_black_or_0_def)
  next
    case False
    let ?r = "if color tb = INTERVAL_BLACK then rotate_right (INode INTERVAL_RED tmp (set_color INTERVAL_BLACK ta) tb) else Some sib"
    let ?g = "\<lambda>t. INode INTERVAL_BLACK parent node (INode c (in_node t) (in_left t) (set_color INTERVAL_BLACK (in_right t)))"
    obtain t g where t: "?r = Some t" "rotate_left (?g t) = Some g" "balanced g" "coloured g" "color g = c"
        "bheight g = (if c = INTERVAL_BLACK then Suc (Suc (bheight node)) else Suc (bheight node))" "t \<noteq> INull"
      using False pos sib assms(2) by (cases ta; cases tb) (auto split: if_splits)
    have tm: "maxok t" "max_high t = max_high sib" "items t = items sib"
      using t(1) pos(7) sib rotate_right_ok [of "INode INTERVAL_RED tmp (set_color INTERVAL_BLACK ta) tb" t]
      by (auto simp: new_max_high_def split: if_splits)
    then have "maxok (?g t)" "max_high (?g t) = in_max_high parent" "items (?g t) = items (INode c parent node sib)"
      using mx pos(3) t(7) by (cases t; simp add: new_max_high_max)+
    then have g: "maxok g" "max_high g = in_max_high parent" "items g = items (INode c parent node sib)"
      using rotate_left_ok [OF t(2)] by simp_all
    have "rb (plug p g)" using t(3-6) pos(8) by (simp add: rb_plug)
    moreover have "erase_black_left node (Frame LeftChild c parent sib) p = Some (Inr (plug p g))"
      using False t(1,2) sib by (auto simp: node_is_black_or_0_def)
    ultimately show ?thesis using g p by (simp add: step_ok_def)
  qed
qed

lemma erase_black_right_ok:
  assumes "erase_pos node (Frame RightChild c parent sib # p)" "color node = INTERVAL_BLACK" "color sib = INTERVAL_BLACK"
  shows "step_ok (plug (Frame RightChild c parent sib # p) node) (erase_black_right node (Frame RightChild c parent sib) p)"
proof -
  have pos: "balanced node" "coloured node" "maxok node" "balanced sib" "coloured sib" "bheight sib = Suc (bheight node)"
    "maxok sib" "rb_path p c (if c = INTERVAL_BLACK then Suc (Suc (bheight node)) else Suc (bheight node))"
    using assms(1,2) by (simp_all add: erase_pos_def)
  have mx: "in_max_high parent = max (interval_high parent) (max (max_high node) (max_high sib))"
    using assms(1) by (simp add: erase_pos_def)
  have p: "maxok_path p (in_max_high parent)" using assms(1) unfolding erase_pos_def by (blast intro: maxok_path_tl)
  obtain tmp ta tb where sib: "sib = INode INTERVAL_BLACK tmp ta tb" using pos(6) assms(3) by (cases sib) auto
  show ?thesis
  proof (cases "color ta = INTERVAL_BLACK \<and> color tb = INTERVAL_BLACK")
    case True
    let ?node = "INode c parent (INode INTERVAL_RED tmp ta tb) node"
    have "maxok ?node" "maxok_path p (max_high ?node)" using pos mx p sib by (simp_all add: new_max_high_max ac_simps)
    moreover have "rb_path p INTERVAL_BLACK (Suc (bheight ?node))" using rb_path_black [OF pos(8)] pos(6) sib by (cases c) simp_all
    ultimately have "erase_pos ?node p" using pos sib True by (auto simp: erase_pos_def)
    then show ?thesis using True sib by (simp add: step_ok_def node_is_black_or_0_def)
  next
    case False
    let ?r = "if color ta = INTERVAL_BLACK then rotate_left (INode INTERVAL_RED tmp ta (set_color INTERVAL_BLACK tb)) else Some sib"
    let ?g = "\<lambda>t. INode INTERVAL_BLACK parent (INode c (in_node t) (set_color INTERVAL_BLACK (in_left t)) (in_right t)) node"
    obtain t g where t: "?r = Some t" "rotate_right (?g t) = Some g" "balanced g" "coloured g" "color g = c"
        "bheight g = (if c = INTERVAL_BLACK then Suc (Suc (bheight node)) else Suc (bheight node))" "t \<noteq> INull"
      using False pos sib assms(2) by (cases ta; cases tb) (auto split: if_splits)
    have tm: "maxok t" "max_high t = max_high sib" "items t = items sib"
      using t(1) pos(7) sib rotate_left_ok [of "INode INTERVAL_RED tmp ta (set_color INTERVAL_BLACK tb)" t]
      by (auto simp: new_max_high_def split: if_splits)
    then have "maxok (?g t)" "max_high (?g t) = in_max_high parent" "items (?g t) = items (INode c parent sib node)"
      using mx pos(3) t(7) by (cases t; simp add: new_max_high_max ac_simps)+
    then have g: "maxok g" "max_high g = in_max_high parent" "items g = items (INode c parent sib node)"
      using rotate_right_ok [OF t(2)] by simp_all
    have "rb (plug p g)" using t(3-6) pos(8) by (simp add: rb_plug)
    moreover have "erase_black_right node (Frame RightChild c parent sib) p = Some (Inr (plug p g))"
      using False t(1,2) sib by (auto simp: node_is_black_or_0_def)
    ultimately show ?thesis using g p by (simp add: step_ok_def)
  qed
qed


lemma erase_color_step_ok:
  assumes "erase_pos node (f # p)" "color node = INTERVAL_BLACK"
  shows "step_ok (plug (f # p) node) (erase_color_step node f p)"
proof -
  obtain s c parent sib where f: "f = Frame s c parent sib" by (cases f)
  show ?thesis
  proof (cases s)
    case LeftChild
    obtain f' p' where r: "erase_red_left node f p = Some (f', p')" "erase_pos node (f' # p')" "fr_side f' = LeftChild"
      "color (fr_sibling f') = INTERVAL_BLACK" "items (plug (f' # p') node) = items (plug (f # p) node)"
      using erase_red_left_ok assms unfolding f LeftChild by blast
    have "step_ok (plug (f' # p') node) (erase_black_left node f' p')"
      using erase_black_left_ok r(2-4) assms(2) by (cases f') auto
    then show ?thesis using r(1,5) LeftChild f
      by (auto simp: erase_color_step_def erase_color_left_def step_ok_def split: option.splits sum.splits)
  next
    case RightChild
    obtain f' p' where r: "erase_red_right node f p = Some (f', p')" "erase_pos node (f' # p')" "fr_side f' = RightChild"
      "color (fr_sibling f') = INTERVAL_BLACK" "items (plug (f' # p') node) = items (plug (f # p) node)"
      using erase_red_right_ok assms unfolding f RightChild by blast
    have "step_ok (plug (f' # p') node) (erase_black_right node f' p')"
      using erase_black_right_ok r(2-4) assms(2) by (cases f') auto
    then show ?thesis using r(1,5) RightChild f
      by (auto simp: erase_color_step_def erase_color_right_def step_ok_def split: option.splits sum.splits)
  qed
qed

lemma interval_erase_color_ok:
  "erase_pos node p \<Longrightarrow> \<exists>t. interval_erase_color node p = Some t \<and> rb t \<and> maxok t \<and> items t = items (plug p node)"
proof (induction node p rule: interval_erase_color.induct)
  case (1 node)
  then show ?case by (simp add: erase_pos_def rb_def)
next
  case (2 node f p)
  show ?case
  proof (cases "color node")
    case INTERVAL_RED
    have "rb (plug (f # p) (set_color INTERVAL_BLACK node))" "maxok (plug (f # p) (set_color INTERVAL_BLACK node))"
      using "2.prems" INTERVAL_RED unfolding rb_plug maxok_plug erase_pos_def by simp_all
    then show ?thesis using INTERVAL_RED by (simp add: node_is_black_or_0_def del: plug.simps maxok_plug)
  next
    case INTERVAL_BLACK
    note s = erase_color_step_ok [OF "2.prems" INTERVAL_BLACK, unfolded step_ok_def]
    have b: "node_is_black_or_0 node" using INTERVAL_BLACK by (simp add: node_is_black_or_0_def)
    consider node' p' where "erase_color_step node f p = Some (Inl (node', p'))"
      | t where "erase_color_step node f p = Some (Inr t)"
      using s by (auto split: option.splits sum.splits)
    then show ?thesis
    proof cases
      case 1
      then show ?thesis using s b "2.IH" [OF b 1 refl refl] by (simp del: plug.simps items_plug)
    next
      case 2
      then show ?thesis using s b by (simp del: plug.simps items_plug)
    qed
  qed
qed

section \<open>Highest ends after a removal\<close>

text \<open>Two paths that differ in the highest ends only.\<close>

definition same_frame :: "'a frame \<Rightarrow> 'a frame \<Rightarrow> bool" where
  "same_frame f g \<longleftrightarrow> fr_side g = fr_side f \<and> fr_color g = fr_color f \<and> fr_sibling g = fr_sibling f
     \<and> item (fr_node g) = item (fr_node f)"

abbreviation same_path :: "'a path \<Rightarrow> 'a path \<Rightarrow> bool" where
  "same_path \<equiv> list_all2 same_frame"

lemma same_frame_refl [simp]: "same_frame f f"
  by (simp add: same_frame_def)

lemma same_frame_Frame [simp]:
  "same_frame (Frame s c n sib) (Frame s' c' n' sib') \<longleftrightarrow> s' = s \<and> c' = c \<and> sib' = sib \<and> item n' = item n"
  by (auto simp: same_frame_def)

lemma same_path_refl [simp]: "same_path p p"
  by (simp add: list_all2_refl)

lemma same_path_facts:
  "same_path p q \<Longrightarrow> items_before q = items_before p \<and> items_after q = items_after p \<and> rb_path q c h = rb_path p c h"
proof (induction p q arbitrary: c h rule: list_all2_induct)
  case (Cons f p g q)
  then show ?case by (cases f; cases g) auto
qed simp

lemma same_path_trans: "same_path p q \<Longrightarrow> same_path q r \<Longrightarrow> same_path p r"
  by (erule (1) list_all2_trans [rotated]) (auto simp: same_frame_def)

lemma update_path_same: "same_path p (update_path m old p)"
proof (induction m old p rule: update_path.induct)
  case (2 m old s c node sib p)
  then show ?case by (auto simp: Let_def)
qed simp

lemma update_path_maxok: "maxok_path p (max m old) \<Longrightarrow> maxok_path (update_path m old p) m"
proof (induction m old p rule: update_path.induct)
  case (2 m old s c node sib p)
  let ?m = "max (interval_high node) (max m (max_high sib))"
  have e: "in_max_high node = max ?m old" using 2(2) by (simp add: ac_simps)
  have p: "maxok_path p (max ?m old)" using maxok_path_tl [OF 2(2)] unfolding e .
  have sib: "maxok sib" using 2(2) by simp
  show ?case
  proof (cases "old \<le> ?m")
    case True
    then show ?thesis using p sib by (simp add: Let_def max_absorb1)
  next
    case False
    then show ?thesis using 2(1) [OF refl] p sib by (simp add: Let_def)
  qed
qed simp

lemma update_maxhigh_ok:
  assumes "maxok t" "maxok_path p (max (max_high t) old)"
  shows "\<exists>p'. update_maxhigh t p old = (t, p') \<and> maxok_path p' (max_high t) \<and> same_path p p'"
proof (cases t)
  case INull
  then show ?thesis using assms update_path_maxok [of p 0 old] update_path_same by simp
next
  case (INode c n l r)
  have n: "n\<lparr>in_max_high := new_max_high n l r\<rparr> = n" using assms(1) INode by simp
  have m: "new_max_high n l r = max_high t" using assms(1) INode by simp
  show ?thesis
  proof (cases "max_high t \<ge> old")
    case True
    then show ?thesis using assms(2) INode n m by (simp add: max_absorb1)
  next
    case False
    then show ?thesis using update_path_maxok [OF assms(2)] update_path_same [of p "max_high t" old] INode n m
      by (simp add: Let_def)
  qed
qed

lemma erase_finish_ok:
  assumes "balanced child" "coloured child" "maxok child" "maxok_path p (max_high child)"
    "rb_path p c (if c = INTERVAL_BLACK then Suc (bheight child) else bheight child)"
    "c = INTERVAL_RED \<longrightarrow> color child = INTERVAL_BLACK"
  shows "\<exists>t. erase_finish c child p = Some t \<and> rb t \<and> maxok t \<and> items t = items (plug p child)"
proof (cases c)
  case INTERVAL_BLACK
  then have "erase_pos child p" using assms by (auto simp: erase_pos_def)
  then show ?thesis using interval_erase_color_ok INTERVAL_BLACK by (auto simp: erase_finish_def)
next
  case INTERVAL_RED
  then have "rb (plug p child)" using assms rb_path_black [OF assms(5)] by (simp add: rb_plug)
  then show ?thesis using INTERVAL_RED assms by (simp add: erase_finish_def)
qed

lemma erase_one_ok:
  assumes "balanced child" "coloured child" "maxok child" "maxok_path p (in_max_high n)"
    "in_max_high n = max (interval_high n) (max_high child)"
    "rb_path p c (if c = INTERVAL_BLACK then Suc (bheight child) else bheight child)"
    "c = INTERVAL_RED \<longrightarrow> color child = INTERVAL_BLACK"
  shows "\<exists>t. erase_one c n child p = Some t \<and> rb t \<and> maxok t \<and> items t = items (plug p child)"
proof -
  have "max (max_high child) (in_max_high n) = in_max_high n" using assms(5) by simp
  then obtain p' where p': "update_maxhigh child p (in_max_high n) = (child, p')" "maxok_path p' (max_high child)" "same_path p p'"
    using update_maxhigh_ok [of child p "in_max_high n"] assms(3,4) by auto
  then show ?thesis using erase_finish_ok [OF assms(1-3) p'(2), of c] assms(6,7)
    same_path_facts [OF p'(3)] by (simp add: erase_one_def)
qed


lemma update_path_append:
  assumes "old \<le> max m (interval_high n)"
  shows "\<exists>n'. update_path m old (q @ Frame s c n sib # p) = update_path m old q @ Frame s c n' sib # p
    \<and> item n' = item n"
  using assms
proof (induction m old q rule: update_path.induct)
  case (1 m old)
  then show ?case by (auto simp: Let_def le_max_iff_disj)
next
  case (2 m old s' c' node sib' q)
  let ?m = "max (interval_high node) (max m (max_high sib'))"
  show ?case
  proof (cases "old \<le> ?m")
    case True
    then show ?thesis by (auto simp: Let_def)
  next
    case False
    have "old \<le> max ?m (interval_high n)" using 2(2) by (auto simp: le_max_iff_disj)
    then show ?thesis using 2(1) [OF refl] False by (auto simp: Let_def)
  qed
qed

lemma length_update_path [simp]: "length (update_path m old p) = length p"
  by (induction m old p rule: update_path.induct) (auto simp: Let_def)

lemma interval_first_plug:
  "interval_first t p = Some (t', q) \<Longrightarrow>
   plug q t' = plug p t \<and> (\<exists>c n r. t' = INode c n INull r) \<and> items_before q = items_before p"
  by (induction t p rule: interval_first.induct) (auto split: if_splits)

lemma interval_first_Some: "t \<noteq> INull \<Longrightarrow> \<exists>t' q. interval_first t p = Some (t', q)"
  using interval_first_from by fastforce

text \<open>The first \<open>update_maxhigh\<close> never passes the place of the successor.\<close>

lemma update_below:
  assumes "maxok child" "in_max_high node = max (interval_high node) (max_high child)" 
    "maxok_path q (in_max_high node)"
  shows "\<exists>q' node'. update_maxhigh child (q @ Frame RightChild c node l # p) (in_max_high node)
      = (child, q' @ Frame RightChild c node' l # p)
    \<and> maxok_path q' (max_high child) \<and> same_path q q' \<and> length q' = length q \<and> item node' = item node"
proof -
  have old: "in_max_high node \<le> max (max_high child) (interval_high node)" using assms(2) by (simp add: ac_simps)
  have mx: "max (max_high child) (in_max_high node) = in_max_high node" using assms(2) by simp
  have upd: "maxok_path (update_path (max_high child) (in_max_high node) q) (max_high child)"
    using update_path_maxok [of q "max_high child" "in_max_high node"] assms(3) mx by simp
  obtain node' where n': "update_path (max_high child) (in_max_high node) (q @ Frame RightChild c node l # p)
      = update_path (max_high child) (in_max_high node) q @ Frame RightChild c node' l # p" "item node' = item node"
    using update_path_append [OF old] by blast
  show ?thesis
  proof (cases child)
    case INull
    then show ?thesis using n' upd update_path_same by (intro exI) auto
  next
    case (INode cc cn cl cr)
    have cn: "cn\<lparr>in_max_high := new_max_high cn cl cr\<rparr> = cn" "new_max_high cn cl cr = max_high child"
      using assms(1) INode by simp_all
    show ?thesis
    proof (cases "in_max_high node \<le> max_high child")
      case True
      then have "maxok_path q (max_high child)" using assms(3) mx by (simp add: max_absorb1)
      then show ?thesis using True INode cn by (intro exI [of _ q] exI [of _ node]) simp
    next
      case False
      then show ?thesis using n' upd update_path_same INode cn
        by (intro exI [of _ "update_path (max_high child) (in_max_high node) q"] exI [of _ node']) (simp add: Let_def)
    qed
  qed
qed


lemma plug_append: "plug (q @ p) t = plug p (plug q t)"
  by (induction q arbitrary: t) auto

lemma new_max_high_update [simp]: "new_max_high (n\<lparr>in_max_high := m\<rparr>) l r = new_max_high n l r"
  by (simp add: new_max_high_def)

lemma erase_two_second:
  assumes "maxok l" "maxok r'" "maxok_path p1 (max (new_max_high node l r') old_max)"
  shows "\<exists>p2. update_maxhigh (INode c node l r') p1 old_max
      = (INode c (node\<lparr>in_max_high := new_max_high node l r'\<rparr>) l r', p2)
    \<and> maxok_path p2 (new_max_high node l r') \<and> same_path p1 p2"
proof (cases "new_max_high node l r' \<ge> old_max")
  case True
  then show ?thesis using assms(3) by (simp add: max_absorb1)
next
  case False
  then show ?thesis using update_path_maxok [OF assms(3)] update_path_same by (auto simp: Let_def)
qed

lemma max_high_le: "\<lbrakk>maxok t; \<forall>x \<in> set (items t). ext_end (fst x) \<le> b\<rbrakk> \<Longrightarrow> max_high t \<le> b"
  by (induction t) (auto simp: new_max_high_max)

lemma max_high_items: "\<lbrakk>maxok t; x \<in> set (items t)\<rbrakk> \<Longrightarrow> ext_end (fst x) \<le> max_high t"
  using maxok_member by (auto simp: in_items)

text \<open>The state after the first \<open>update_maxhigh\<close> for a node with two children.\<close>

lemma erase_two_first:
  fixes p :: "'a path"
  assumes r: "plug q (INode nc node INull child) = r" and l: "maxok l" and mr: "maxok r"
    and old: "in_max_high old = new_max_high old l r" and p: "maxok_path p (in_max_high old)"
  shows "\<exists>old_max q' node' p1.
     (if child = INull \<and> q = [] then
        let m = max_u64 (interval_high old) (max_u64 (max_high l) 0)
        in (m, child, q, node, if m \<ge> in_max_high node then p else update_path (in_max_high node) (in_max_high node) p)
      else
        let (child, up) = update_maxhigh child (q @ Frame RightChild c node l # p) (in_max_high node)
        in (in_max_high old, child, take (length q) up, fr_node (up ! length q), drop (Suc (length q)) up))
     = (old_max, child, q', node', p1)
    \<and> maxok_path q' (max_high child) \<and> same_path q q' \<and> item node' = item node \<and> same_path p p1
    \<and> maxok_path p1 (max (new_max_high node l (plug q' child)) old_max)"
proof -
  have ch: "maxok child" "in_max_high node = max (interval_high node) (max_high child)" "maxok_path q (in_max_high node)"
    using mr unfolding r [symmetric] by (auto simp: new_max_high_max)
  show ?thesis
  proof (cases "child = INull \<and> q = []")
    case True
    then have r': "r = INode nc node INull INull" "in_max_high node = interval_high node" using r ch(2) by auto
    let ?m = "max (interval_high old) (max_high l)"
    have O: "in_max_high old = max ?m (interval_high node)" using old r' by (simp add: new_max_high_max ac_simps)
    show ?thesis
    proof (cases "?m \<ge> interval_high node")
      case le: True
      then have "max (new_max_high node l INull) ?m = in_max_high old"
        using O by (auto simp: new_max_high_max max_def)
      then show ?thesis using True le r'(2) p
        by - (rule exI [of _ ?m], rule exI [of _ q], rule exI [of _ node], rule exI [of _ p], simp)
    next
      case False
      then have "in_max_high old = interval_high node" "max (new_max_high node l INull) ?m = interval_high node"
        using O by (auto simp: new_max_high_max max_def)
      then show ?thesis
        using True False r'(2) p update_path_maxok [of p "interval_high node" "interval_high node"]
          update_path_same [of p "interval_high node" "interval_high node"]
        by - (rule exI [of _ ?m], rule exI [of _ q], rule exI [of _ node], rule exI [of _ "update_path (interval_high node) (interval_high node) p"], simp)
    qed
  next
    case False
    obtain q' node' where u: "update_maxhigh child (q @ Frame RightChild c node l # p) (in_max_high node)
        = (child, q' @ Frame RightChild c node' l # p)"
      "maxok_path q' (max_high child)" "same_path q q'" "length q' = length q" "item node' = item node"
      using update_below [OF ch] by blast
    have sub: "set (items (plug q' child)) \<subseteq> set (items r)" "item node \<in> set (items r)"
      unfolding r [symmetric] using same_path_facts [OF u(3)] by auto
    have "maxok (plug q' child)" using u(2) ch(1) by simp
    then have "max_high (plug q' child) \<le> max_high r"
      by (rule max_high_le) (use sub(1) max_high_items [OF mr] in blast)
    moreover have "interval_high node \<le> max_high r" using max_high_items [OF mr sub(2)] by simp
    ultimately have "max (new_max_high node l (plug q' child)) (in_max_high old) = in_max_high old"
      using old by (auto simp: new_max_high_max le_max_iff_disj intro!: max_absorb2)
    then show ?thesis using False u(1-3,5) p
      by - (rule exI [of _ "in_max_high old"], rule exI [of _ q'], rule exI [of _ node'], rule exI [of _ p], auto simp: u(4) [symmetric] nth_append)
  qed
qed

lemma rb_path_cong:
  "rb_path (q @ Frame s c n l # p) d h = rb_path (q @ Frame s c n' l # p) d h"
proof (induction q arbitrary: d h)
  case (Cons f q)
  then show ?case by (cases f) simp
qed simp

lemma erase_two_ok:
  assumes T: "rb (plug p (INode c old l r))" "maxok (plug p (INode c old l r))" and r: "r \<noteq> INull"
  shows "\<exists>t. erase_two c old l r p = Some t \<and> rb t \<and> maxok t
    \<and> items t = items_before p @ items l @ items r @ items_after p"
proof -
  obtain nc node child q where first: "interval_first r [] = Some (INode nc node INull child, q)"
    "plug q (INode nc node INull child) = r" "items_before q = []"
    using interval_first_Some [OF r, of "[]"] interval_first_plug [of r "[]"] by fastforce
  have mx: "maxok l" "maxok r" "in_max_high old = new_max_high old l r" "maxok_path p (in_max_high old)"
    using T(2) by auto
  obtain old_max q' node' p1 where st:
    "(if child = INull \<and> q = [] then
        let m = max_u64 (interval_high old) (max_u64 (max_high l) 0)
        in (m, child, q, node, if m \<ge> in_max_high node then p else update_path (in_max_high node) (in_max_high node) p)
      else
        let (child, up) = update_maxhigh child (q @ Frame RightChild c node l # p) (in_max_high node)
        in (in_max_high old, child, take (length q) up, fr_node (up ! length q), drop (Suc (length q)) up))
     = (old_max, child, q', node', p1)"
    "maxok_path q' (max_high child)" "same_path q q'" "item node' = item node" "same_path p p1"
    "maxok_path p1 (max (new_max_high node l (plug q' child)) old_max)"
    using erase_two_first [OF first(2) mx] by blast
  have nm: "new_max_high node l (plug q' child) = new_max_high node' l (plug q' child)"
    using st(4) by (simp add: new_max_high_def item_def)
  let ?m = "new_max_high node' l (plug q' child)"
  have ch: "maxok child" using mx(2) unfolding first(2) [symmetric] by simp
  obtain p2 where p2: "update_maxhigh (INode c node' l (plug q' child)) p1 old_max
      = (INode c (node'\<lparr>in_max_high := ?m\<rparr>) l (plug q' child), p2)" "maxok_path p2 ?m" "same_path p1 p2"
    using erase_two_second [of l "plug q' child" p1 node' old_max c] mx(1) ch st(2,6) nm by auto
  let ?P = "q' @ Frame RightChild c (node'\<lparr>in_max_high := ?m\<rparr>) l # p2"
  have "maxok (plug ?P child)"
    using ch st(2) p2(2) mx(1) by (simp add: plug_append)
  then have mP: "maxok_path ?P (max_high child)" by simp
  have "rb (plug (q @ Frame RightChild c old l # p) (INode nc node INull child))"
    using T(1) first(2) by (simp add: plug_append)
  then have rq: "balanced child" "coloured child" "bheight child = 0" "nc = INTERVAL_RED \<longrightarrow> color child = INTERVAL_BLACK"
    "rb_path (q @ Frame RightChild c old l # p) nc (if nc = INTERVAL_BLACK then 1 else 0)"
    by (auto simp: rb_plug split: if_splits)
  let ?Q = "q @ Frame RightChild c node l # p"
  have "same_path ?Q ?P" 
    using st(3-5) p2(3) same_path_trans [OF st(5) p2(3)] by (intro list_all2_appendI) auto
  note sp = same_path_facts [OF this]
  have "rb_path ?P nc (if nc = INTERVAL_BLACK then Suc (bheight child) else bheight child)"
    using rq(3,5) sp rb_path_cong [of q RightChild c node l p nc _ old] by (cases nc) simp_all
  from erase_finish_ok [OF rq(1,2) ch mP this rq(4)]
  obtain t where t: "erase_finish nc child ?P = Some t" "rb t" "maxok t" "items t = items (plug ?P child)" by blast
  have "items t = items_before p @ items l @ items r @ items_after p"
    using t(4) same_path_facts [OF st(3)] same_path_facts [OF st(5)] same_path_facts [OF p2(3)] st(4) first(2,3)
    by (auto simp: plug_append)
  moreover have "erase_two c old l r p = Some t"
    using t(1) first(1) st(1) p2(1) by (simp add: erase_two_def)
  ultimately show ?thesis using t by blast
qed

lemma interval_locate_plug:
  "interval_locate ex p t = Some (t', q) \<Longrightarrow> plug q t' = plug p t \<and> (\<exists>c n l r. t' = INode c n l r \<and> in_extent n = ex)"
  by (induction ex p t rule: interval_locate.induct) (auto split: if_splits)

lemma interval_locate_Some:
  "\<lbrakk>ex \<in> fst ` set (items t); ordered (items t)\<rbrakk> \<Longrightarrow> \<exists>pos. interval_locate ex p t = Some pos"
proof (induction ex p t rule: interval_locate.induct)
  case (2 ex p c n l r)
  consider "in_extent n = ex" | "ex < in_extent n" | "in_extent n < ex" by fastforce
  then show ?case
  proof cases
    case 2
    then have "ex \<in> fst ` set (items l)" using "2.prems" by auto
    then show ?thesis using 2 "2.IH"(1) "2.prems" by auto
  next
    case 3
    then have "ex \<in> fst ` set (items r)" using "2.prems" by auto
    then show ?thesis using 3 "2.IH"(2) "2.prems" by auto
  qed simp
qed simp

lemma ordered_remove: "ordered (xs @ x # ys) \<Longrightarrow> filter (\<lambda>y. fst y \<noteq> fst x) (xs @ x # ys) = xs @ ys"
  by (induction xs) (auto simp: filter_id_conv)

lemma ordered_filter: "ordered xs \<Longrightarrow> ordered (filter P xs)"
  by (induction xs) auto

lemma interval_erase_ok:
  assumes "valid t" "ex \<in> fst ` set (items t)"
  shows "\<exists>t'. interval_erase ex t = Some t' \<and> valid t' \<and> items t' = filter (\<lambda>x. fst x \<noteq> ex) (items t)"
proof -
  have v: "ordered (items t)" "maxok t" "rb t" "\<forall>x \<in> set (items t). snd (snd x)" using assms(1) by (auto simp: valid_def)
  obtain c n l r p where loc: "interval_locate ex [] t = Some (INode c n l r, p)" "t = plug p (INode c n l r)" "in_extent n = ex"
    using interval_locate_Some [OF assms(2) v(1), of "[]"] interval_locate_plug [of ex "[]" t] by fastforce
  have intree: "in_intree n" using v(4) loc(2) by (auto simp: item_def)
  have rb: "rb (plug p (INode c n l r))" "maxok (plug p (INode c n l r))" using v loc(2) by auto
  let ?res = "if l = INull then erase_one c n r p else if r = INull then erase_one c n l p else erase_two c n l r p"
  have b: "balanced l" "balanced r" "coloured l" "coloured r" "bheight l = bheight r" "maxok l" "maxok r"
    "rb_path p c (if c = INTERVAL_BLACK then Suc (bheight r) else bheight r)"
    "c = INTERVAL_RED \<longrightarrow> color l = INTERVAL_BLACK \<and> color r = INTERVAL_BLACK"
    "in_max_high n = new_max_high n l r" "maxok_path p (in_max_high n)"
    using rb by (auto simp: rb_plug split: if_splits)
  have "\<exists>t'. ?res = Some t' \<and> rb t' \<and> maxok t' \<and> items t' = items_before p @ items l @ items r @ items_after p"
  proof -
    consider "l = INull" | "l \<noteq> INull" "r = INull" | "l \<noteq> INull" "r \<noteq> INull" by blast
    then show ?thesis
    proof cases
      case 1
      then show ?thesis using erase_one_ok [OF b(2,4,7,11) _ b(8)] b(9,10) by (simp add: new_max_high_max)
    next
      case 2
      then show ?thesis using erase_one_ok [OF b(1,3,6,11) _ b(8) [folded b(5)]] b(9,10)
        by (simp add: new_max_high_max)
    next
      case 3
      then show ?thesis using erase_two_ok [OF rb 3(2)] by simp
    qed
  qed
  then obtain t' where t': "?res = Some t'" "rb t'" "maxok t'" "items t' = items_before p @ items l @ items r @ items_after p" by blast
  have it: "items t = (items_before p @ items l) @ item n # items r @ items_after p" using loc(2) by simp
  have "items t' = filter (\<lambda>x. fst x \<noteq> ex) (items t)"
    using ordered_remove [OF v(1) [unfolded it]] loc(3) unfolding it t'(4) by simp
  moreover from this have "valid t'" using t'(2,3) v(1,4) ordered_filter [OF v(1)] by (simp add: valid_def)
  moreover have "interval_erase ex t = Some t'" using loc(1) t'(1) intree by (simp add: interval_erase_def)
  ultimately show ?thesis by blast
qed

end
