(* ===== verification/IntervalSearch.thy ===== *)
theory IntervalSearch
  imports IntervalErase
begin

text \<open>
  Searching, iterating over and expanding in the interval tree, and the tree as an
  implementation of a finite map from extents: the properties of
  \<open>lustre/ldlm/interval_tree.c\<close> as a whole.
\<close>

section \<open>Visiting nodes\<close>

text \<open>The calls of a callback on the nodes of a list, up to the first that stops.\<close>

fun visit :: "('n \<Rightarrow> 'd \<Rightarrow> interval_iter \<times> 'd) \<Rightarrow> 'n list \<Rightarrow> interval_iter \<Rightarrow> 'd \<Rightarrow> interval_iter \<times> 'd" where
  "visit func [] rc dat = (rc, dat)"
| "visit func (n # ns) rc dat =
    (let (rc, dat) = func n dat in if rc = INTERVAL_ITER_STOP then (rc, dat) else visit func ns rc dat)"

lemma interval_iterate_loop_visit:
  "interval_iterate_loop func pos rc dat = visit func (case pos of None \<Rightarrow> [] | Some pos \<Rightarrow> nodes_from pos) rc dat"
proof (induction func pos rc dat rule: interval_iterate_loop.induct)
  case (3 func c n l r p rc dat)
  have "(case interval_next (INode c n l r) p of None \<Rightarrow> [] | Some pos \<Rightarrow> nodes_from pos) = inorder r @ nodes_after p"
    using interval_next_from [of "INode c n l r" p] by (auto split: option.splits)
  then show ?case using 3 by (auto split: prod.splits)
qed simp_all

lemma interval_iterate_reverse_loop_visit:
  "interval_iterate_reverse_loop func pos rc dat =
     visit func (case pos of None \<Rightarrow> [] | Some pos \<Rightarrow> rev (nodes_upto pos)) rc dat"
proof (induction func pos rc dat rule: interval_iterate_reverse_loop.induct)
  case (3 func c n l r p rc dat)
  have "(case interval_prev (INode c n l r) p of None \<Rightarrow> [] | Some pos \<Rightarrow> rev (nodes_upto pos))
      = rev (nodes_before p @ inorder l)"
    using interval_prev_upto [of "INode c n l r" p] by (auto simp: butlast_append split: option.splits if_splits)
  then show ?case using 3 by (auto split: prod.splits)
qed simp_all

lemma interval_iterate_visit: "interval_iterate t func dat = visit func (inorder t) INTERVAL_ITER_CONT dat"
  using interval_first_from [of t "[]"] by (cases "t = INull") (auto simp: interval_iterate_def interval_iterate_loop_visit)

lemma interval_iterate_reverse_visit:
  "interval_iterate_reverse t func dat = visit func (rev (inorder t)) INTERVAL_ITER_CONT dat"
  using interval_last_upto [of t "[]"]
  by (cases "t = INull") (auto simp: interval_iterate_reverse_def interval_iterate_reverse_loop_visit)

section \<open>Searching\<close>

fun preorder :: "'a itree \<Rightarrow> 'a interval_node list" where
  "preorder INull = []"
| "preorder (INode c n l r) = n # preorder l @ preorder r"

fun preorder_after :: "'a path \<Rightarrow> 'a interval_node list" where
  "preorder_after [] = []"
| "preorder_after (Frame s c n sib # p) = (if s = LeftChild then preorder sib else []) @ preorder_after p"

abbreviation overlapping :: "interval_node_extent \<Rightarrow> 'a interval_node list \<Rightarrow> 'a interval_node list" where
  "overlapping ext \<equiv> filter (\<lambda>n. extent_overlapped ext (in_extent n))"

lemma set_preorder: "set (preorder t) = set (inorder t)"
  by (induction t) auto

lemma preorder_after_items: "n \<in> set (preorder_after p) \<Longrightarrow> item n \<in> set (items_after p)"
proof (induction p)
  case (Cons f p)
  then show ?case by (cases f) (auto simp: set_preorder items_inorder)
qed simp

text \<open>The nodes to the left of which the search descended.\<close>

fun descended :: "interval_node_extent \<Rightarrow> 'a path \<Rightarrow> bool" where
  "descended ext [] = True"
| "descended ext (Frame s c n sib # p) \<longleftrightarrow>
     (s = LeftChild \<longrightarrow> ext_end ext < interval_low n \<or> interval_may_overlap n ext) \<and> descended ext p"

lemma search_climb_None: "search_climb t p = None \<Longrightarrow> preorder_after p = []"
  by (induction t p rule: search_climb.induct) (auto split: if_splits)

lemma search_climb_Some:
  "\<lbrakk>search_climb t p = Some (parent, t', p'); descended ext p\<rbrakk> \<Longrightarrow>
   preorder_after p = preorder t' @ preorder_after p' \<and> plug p' t' = plug p t \<and> descended ext p'
   \<and> item parent \<in> set (items_before p') \<and> t' \<noteq> INull
   \<and> (ext_end ext < interval_low parent \<or> interval_may_overlap parent ext)"
  by (induction t p rule: search_climb.induct) (auto split: if_splits)

lemma extent_less_start: "e1 < e2 \<Longrightarrow> ext_start e1 \<le> ext_start (e2 :: interval_node_extent)"
  by (auto simp: extent_less_iff)

lemma none_right:
  assumes "ext_end ext < ext_start e" "\<And>n. n \<in> set ns \<Longrightarrow> e < in_extent n"
  shows "overlapping ext ns = []"
  using assms extent_less_start by (fastforce simp: filter_empty_conv extent_overlapped_def)

lemma none_below:
  assumes "maxok t" "max_high t < ext_start ext"
  shows "overlapping ext (preorder t) = []"
  using assms maxok_member by (fastforce simp: filter_empty_conv extent_overlapped_def set_preorder)

lemma item_less:
  "\<lbrakk>ordered (items (plug p t)); item parent \<in> set (items_before p); n \<in> set (preorder t @ preorder_after p)\<rbrakk>
   \<Longrightarrow> in_extent parent < in_extent n"
proof -
  assume o: "ordered (items (plug p t))" and parent: "item parent \<in> set (items_before p)"
    and n: "n \<in> set (preorder t @ preorder_after p)"
  have "item n \<in> set (items t) \<union> set (items_after p)"
    using n preorder_after_items [of n p] by (auto simp: set_preorder in_items)
  moreover have "\<forall>x \<in> set (items_before p). \<forall>y \<in> set (items t) \<union> set (items_after p). fst x < fst y" using o by simp
  ultimately have "fst (item parent) < fst (item n)" using parent by blast
  then show ?thesis by simp
qed

lemma interval_search_loop_visit:
  "\<lbrakk>ordered (items (plug p t)); maxok (plug p t); descended ext p; t \<noteq> INull\<rbrakk> \<Longrightarrow>
   interval_search_loop func ext t p rc dat = visit func (overlapping ext (preorder t @ preorder_after p)) rc dat"
proof (induction "size t + to_visit p" arbitrary: t p rc dat rule: less_induct)
  case less
  obtain c n l r where t: "t = INode c n l r" using less.prems(4) by (cases t) auto
  let ?after = "overlapping ext (preorder_after p)"
  let ?climb = "\<lambda>rc dat. case search_climb t p of None \<Rightarrow> (rc, dat)
      | Some (parent, node', p') \<Rightarrow> if \<not> interval_may_overlap parent ext then (rc, dat)
          else interval_search_loop func ext node' p' rc dat"
  have climb: "?climb rc dat = visit func ?after rc dat" for rc dat
  proof (cases "search_climb t p")
    case None
    then show ?thesis by (simp add: search_climb_None)
  next
    case (Some x)
    then obtain parent t' p' where s: "search_climb t p = Some (parent, t', p')" by (cases x) auto
    have c: "preorder_after p = preorder t' @ preorder_after p'" "plug p' t' = plug p t" "descended ext p'"
      "item parent \<in> set (items_before p')" "ext_end ext < interval_low parent \<or> interval_may_overlap parent ext" "t' \<noteq> INull"
      using search_climb_Some [OF s less.prems(3)] by auto
    show ?thesis
    proof (cases "interval_may_overlap parent ext")
      case True
      have sz: "size t' + to_visit p' < size t + to_visit p" using search_climb_to_visit [OF s] t by simp
      have "interval_search_loop func ext t' p' rc dat = visit func (overlapping ext (preorder t' @ preorder_after p')) rc dat"
        using less.hyps [OF sz _ _ c(3,6)] less.prems(1,2) unfolding c(2) by blast
      then show ?thesis using s True c(1) by simp
    next
      case False
      then have "overlapping ext (preorder_after p) = []"
        using none_right [of ext "in_extent parent"] c item_less [of p' t' parent] less.prems(1) by auto
      then show ?thesis using s False by simp
    qed
  qed
  have left: "interval_search_loop func ext l (Frame LeftChild c n r # p) rc dat
      = visit func (overlapping ext (preorder l @ preorder r @ preorder_after p)) rc dat"
    if "l \<noteq> INull" "ext_end ext < interval_low n \<or> interval_may_overlap n ext" for rc dat
  proof -
    have pl: "plug (Frame LeftChild c n r # p) l = plug p t" using t by simp
    show ?thesis
      using less.hyps [of l "Frame LeftChild c n r # p" rc dat, unfolded pl] that less.prems(1-3) t
      by (simp del: maxok_plug items_plug)
  qed
  have right: "interval_search_loop func ext r (Frame RightChild c n l # p) rc dat
      = visit func (overlapping ext (preorder r @ preorder_after p)) rc dat" if "r \<noteq> INull" for rc dat
  proof -
    have pl: "plug (Frame RightChild c n l # p) r = plug p t" using t by simp
    show ?thesis
      using less.hyps [of r "Frame RightChild c n l # p" rc dat, unfolded pl] that less.prems(1-3) t
      by (simp del: maxok_plug items_plug)
  qed
  consider (low) "ext_end ext < interval_low n" | (over) "\<not> ext_end ext < interval_low n" "interval_may_overlap n ext"
    | (high) "\<not> ext_end ext < interval_low n" "\<not> interval_may_overlap n ext" by blast
  then show ?case
  proof cases
    case low
    have "m \<in> set (preorder r) \<Longrightarrow> in_extent n < in_extent m" for m
      using item_less [of "Frame RightChild c n l # p" r n m] less.prems(1) t by simp
    then have "overlapping ext (preorder r) = []" using none_right [OF low] by blast
    moreover have "\<not> extent_overlapped ext (in_extent n)" using low by (auto simp: extent_overlapped_def)
    ultimately show ?thesis using t low left climb by (cases "l = INull") simp_all
  next
    case over
    show ?thesis
      using t over left right climb
      by (cases "l = INull"; cases "r = INull") (auto split: prod.splits)
  next
    case high
    then have "max_high t < ext_start ext" using t by (auto simp: interval_may_overlap_def)
    then have "overlapping ext (preorder t) = []" using none_below less.prems(2) by auto
    then show ?thesis using t high climb by auto
  qed
qed

lemma interval_search_visit:
  assumes "valid t"
  shows "interval_search t ext func dat = visit func (overlapping ext (preorder t)) INTERVAL_ITER_CONT dat"
  using interval_search_loop_visit [of "[]" t ext] assms
  by (cases "t = INull") (auto simp: interval_search_def valid_def)

lemma visit_overlap_cb: "snd (visit interval_overlap_cb ns rc dat) = (if ns = [] then dat else 1)"
  by (cases ns) (auto simp: interval_overlap_cb_def)

lemma interval_is_overlapped_iff:
  assumes "valid t"
  shows "interval_is_overlapped t ext = (if \<exists>x \<in> set (items t). extent_overlapped ext (fst x) then 1 else 0)"
proof -
  have "overlapping ext (preorder t) = [] \<longleftrightarrow> \<not> (\<exists>x \<in> set (items t). extent_overlapped ext (fst x))"
    by (auto simp: filter_empty_conv set_preorder items_inorder)
  then show ?thesis using assms by (simp add: interval_is_overlapped_def interval_search_visit visit_overlap_cb)
qed

section \<open>Expanding\<close>

definition proper :: "'a itree \<Rightarrow> bool" where
  "proper t \<longleftrightarrow> (\<forall>x \<in> set (items t). ext_start (fst x) \<le> ext_end (fst x))"

lemma word_pred: "(x :: u64) < y \<Longrightarrow> x \<le> y - 1 \<and> y - 1 < y \<and> (\<forall>z. y - 1 < z \<longleftrightarrow> y \<le> z)"
  by (auto simp: word_less_nat_alt word_le_nat_alt unat_sub_if')

text \<open>The walk finds the first extent that starts above \<open>high\<close>.\<close>

definition starts_above :: "u64 \<Rightarrow> 'a itree \<Rightarrow> u64 set" where
  "starts_above high t = {s \<in> (ext_start \<circ> fst) ` set (items t). high < s}"

lemma starts_above_empty: "starts_above high t = {} \<longleftrightarrow> (\<forall>x \<in> set (items t). \<not> high < ext_start (fst x))"
  by (auto simp: starts_above_def)

lemma ordered_starts:
  assumes "ordered (items (INode c n l r))"
  shows "\<forall>s \<in> starts_above high l. s \<le> interval_low n" "\<forall>s \<in> starts_above high r. interval_low n \<le> s"
  using assms extent_less_start by (fastforce simp: starts_above_def)+

lemma starts_above_INode:
  "starts_above high (INode c n l r) =
     starts_above high l \<union> (if high < interval_low n then {interval_low n} else {}) \<union> starts_above high r"
  by (auto simp: starts_above_def)

lemma interval_expand_high_loop_ok:
  assumes "ordered (items t)" "maxok t" "proper t"
  shows "interval_expand_high_loop result t high =
    (if starts_above high t = {} then result else Min (starts_above high t) - 1)"
  using assms
proof (induction t arbitrary: result)
  case INull
  then show ?case by (simp add: starts_above_def)
next
  case (INode c n l r)
  have fin: "finite (starts_above high t)" for t :: "'a itree" by (simp add: starts_above_def)
  note s = ordered_starts [OF INode.prems(1), of high] and u = starts_above_INode [of high c n l r]
  have pr: "proper l" "proper r" "ordered (items l)" "ordered (items r)" "maxok l" "maxok r"
    using INode.prems by (auto simp: proper_def)
  consider (none) "in_max_high n < high" | (left) "high \<le> in_max_high n" "high < interval_low n"
    | (right) "high \<le> in_max_high n" "interval_low n \<le> high" by fastforce
  then show ?case
  proof cases
    case none
    have "\<not> high < ext_start (fst x)" if x: "x \<in> set (items (INode c n l r))" for x
      using max_high_items [OF INode.prems(2) x] bspec [OF INode.prems(3) [unfolded proper_def] x] none by simp
    then have "\<forall>x \<in> set (items (INode c n l r)). \<not> high < ext_start (fst x)" by blast
    then have "starts_above high (INode c n l r) = {}" unfolding starts_above_empty .
    then show ?thesis using none by simp
  next
    case left
    have m: "Min (starts_above high l) \<le> interval_low n" if "starts_above high l \<noteq> {}"
      using s(1) Min_in [OF fin that] by blast
    have mr: "y \<in> starts_above high r \<Longrightarrow> Min (starts_above high l) \<le> y" if "starts_above high l \<noteq> {}" for y
      using m [OF that] s(2) by (auto intro: order.trans)
    have "Min (starts_above high (INode c n l r)) =
        (if starts_above high l = {} then interval_low n else Min (starts_above high l))"
    proof (cases "starts_above high l = {}")
      case True
      then show ?thesis using left u s(2) fin [of "INode c n l r"] by (auto intro!: Min_eqI)
    next
      case False
      have "Min (starts_above high (INode c n l r)) = Min (starts_above high l)"
      proof (rule Min_eqI)
        show "Min (starts_above high l) \<le> y" if "y \<in> starts_above high (INode c n l r)" for y
          using that u m [OF False] mr [OF False] Min_le [OF fin] left by auto
        show "Min (starts_above high l) \<in> starts_above high (INode c n l r)" using u Min_in [OF fin False] by simp
      qed (rule fin)
      then show ?thesis using False by simp
    qed
    then show ?thesis using left INode.IH(1) [OF pr(3,5,1)] u by auto
  next
    case right
    then have "starts_above high l = {}" using s(1) by (auto simp: starts_above_def)
    then show ?thesis using right INode.IH(2) [OF pr(4,6,2)] u by auto
  qed
qed

text \<open>The expanded extent holds the given one and overlaps no extent of the tree.\<close>

definition wider :: "interval_node_extent \<Rightarrow> interval_node_extent \<Rightarrow> bool" where
  "wider ext ext' \<longleftrightarrow> ext_start ext' \<le> ext_start ext \<and> ext_end ext \<le> ext_end ext'"

lemma interval_expand_high_ok:
  assumes "valid t" "proper t"
  shows "high \<le> interval_expand_high t high"
    "x \<in> set (items t) \<Longrightarrow> high < ext_start (fst x) \<Longrightarrow> interval_expand_high t high < ext_start (fst x)"
    "interval_expand_high t high = - 1 \<or> (\<exists>x \<in> set (items t). ext_start (fst x) = interval_expand_high t high + 1)"
proof -
  let ?S = "starts_above high t"
  have fin: "finite ?S" by (simp add: starts_above_def)
  have e: "interval_expand_high t high = (if ?S = {} then - 1 else Min ?S - 1)"
    using assms by (simp add: interval_expand_high_def interval_expand_high_loop_ok valid_def)
  have m: "Min ?S \<in> ?S" if "?S \<noteq> {}" using Min_in [OF fin that] .
  have gt: "high < Min ?S" if "?S \<noteq> {}" using m [OF that] by (auto simp: starts_above_def)
  show "high \<le> interval_expand_high t high"
    using e word_pred [OF gt] by (auto simp: word_order.extremum)
  show "interval_expand_high t high < ext_start (fst x)" if "x \<in> set (items t)" "high < ext_start (fst x)"
  proof -
    have "ext_start (fst x) \<in> ?S" using that by (auto simp: starts_above_def)
    then show ?thesis using e word_pred [OF gt] Min_le [OF fin] by auto
  qed
  show "interval_expand_high t high = - 1 \<or> (\<exists>x \<in> set (items t). ext_start (fst x) = interval_expand_high t high + 1)"
  proof (cases "?S = {}")
    case False
    then obtain x where "x \<in> set (items t)" "ext_start (fst x) = Min ?S" using m by (auto simp: starts_above_def)
    then show ?thesis using e False by auto
  qed (use e in simp)
qed

lemma interval_expand_ok:
  assumes t: "valid t" "proper t" and ext: "ext_start ext \<le> ext_end ext"
    and free: "\<forall>x \<in> set (items t). \<not> extent_overlapped ext (fst x)"
  shows "\<exists>ext'. interval_expand t ext limiter = Some ext' \<and> wider ext ext'
    \<and> (\<forall>x \<in> set (items t). \<not> extent_overlapped ext' (fst x))
    \<and> (limiter = None \<longrightarrow> ext_end ext' = - 1 \<or> (\<exists>x \<in> set (items t). ext_start (fst x) = ext_end ext' + 1))"
proof -
  let ?lo = "if case limiter of None \<Rightarrow> True | Some lim \<Rightarrow> ext_start lim < ext_start ext
             then interval_expand_low t (ext_start ext) else ext_start ext"
  let ?hi = "if case limiter of None \<Rightarrow> True | Some lim \<Rightarrow> ext_end lim > ext_end ext
             then interval_expand_high t (ext_end ext) else ext_end ext"
  note h = interval_expand_high_ok [OF t, where high = "ext_end ext"]
  have "\<not> extent_overlapped (Extent ?lo ?hi) (fst x)" if x: "x \<in> set (items t)" for x
  proof -
    have "ext_end (fst x) < ext_start ext \<or> ext_end ext < ext_start (fst x)"
      using free x by (auto simp: extent_overlapped_def not_le)
    moreover have "t \<noteq> INull" using x by auto
    ultimately show ?thesis using h(2) [OF x] by (auto simp: extent_overlapped_def interval_expand_low_def not_le)
  qed
  then have ov: "\<forall>x \<in> set (items t). \<not> extent_overlapped (Extent ?lo ?hi) (fst x)" by blast
  have "interval_is_overlapped t ext = 0" "interval_is_overlapped t (Extent ?lo ?hi) = 0"
    using ov free t(1) by (simp_all add: interval_is_overlapped_iff)
  then have "interval_expand t ext limiter = Some (Extent ?lo ?hi)"
    by (cases ext; cases limiter) (simp_all add: interval_expand_def Let_def split: if_splits)
  moreover have "wider ext (Extent ?lo ?hi)" using h(1) by (auto simp: wider_def interval_expand_low_def)
  ultimately show ?thesis using ov h(3) by auto
qed

section \<open>The recursive search\<close>

text \<open>The recursive algorithm of the comment above \<open>interval_search\<close>, with the early stop of the callback.\<close>

fun interval_search_rec ::
  "'a itree \<Rightarrow> interval_node_extent \<Rightarrow> ('a interval_node \<Rightarrow> 'd \<Rightarrow> interval_iter \<times> 'd) \<Rightarrow> 'd \<Rightarrow> interval_iter \<times> 'd" where
  "interval_search_rec INull ext func dat = (INTERVAL_ITER_CONT, dat)"
| "interval_search_rec (INode c node l r) ext func dat =
    (if ext_end ext < interval_low node then interval_search_rec l ext func dat
     else if interval_may_overlap node ext then
       let (rc, dat) = (if extent_overlapped ext (in_extent node) then func node dat else (INTERVAL_ITER_CONT, dat))
       in if rc = INTERVAL_ITER_STOP then (rc, dat)
          else let (rc, dat) = interval_search_rec l ext func dat
               in if rc = INTERVAL_ITER_STOP then (rc, dat) else interval_search_rec r ext func dat
     else (INTERVAL_ITER_CONT, dat))"

lemma iter_cases: "rc = INTERVAL_ITER_CONT \<or> rc = INTERVAL_ITER_STOP"
  by (cases rc) auto

lemma visit_append:
  "visit func (xs @ ys) INTERVAL_ITER_CONT dat =
    (let (rc, dat) = visit func xs INTERVAL_ITER_CONT dat
     in if rc = INTERVAL_ITER_STOP then (rc, dat) else visit func ys INTERVAL_ITER_CONT dat)"
proof (induction xs arbitrary: dat)
  case (Cons x xs)
  obtain rc d where f: "func x dat = (rc, d)" by (cases "func x dat")
  show ?case using Cons [of d] iter_cases [of rc] f by auto
qed simp

lemma interval_search_rec_visit:
  "\<lbrakk>ordered (items t); maxok t\<rbrakk> \<Longrightarrow>
   interval_search_rec t ext func dat = visit func (overlapping ext (preorder t)) INTERVAL_ITER_CONT dat"
proof (induction t arbitrary: dat)
  case (INode c n l r)
  have lr: "ordered (items l)" "maxok l" "ordered (items r)" "maxok r" using INode.prems by auto
  consider (low) "ext_end ext < interval_low n" | (over) "\<not> ext_end ext < interval_low n" "interval_may_overlap n ext"
    | (high) "\<not> ext_end ext < interval_low n" "\<not> interval_may_overlap n ext" by blast
  then show ?case
  proof cases
    case low
    have "m \<in> set (preorder r) \<Longrightarrow> in_extent n < in_extent m" for m
      using INode.prems(1) by (auto simp: set_preorder items_inorder)
    then have "overlapping ext (preorder r) = []" using none_right [OF low] by blast
    moreover have "\<not> extent_overlapped ext (in_extent n)" using low by (auto simp: extent_overlapped_def)
    ultimately show ?thesis using low INode.IH(1) [OF lr(1,2)] by simp
  next
    case over
    obtain rc d where f: "func n dat = (rc, d)" by (cases "func n dat")
    show ?thesis using over f INode.IH(1) [OF lr(1,2)] INode.IH(2) [OF lr(3,4)] iter_cases [of rc]
      by (auto simp: visit_append Let_def split: prod.splits)
  next
    case high
    then have "max_high (INode c n l r) < ext_start ext" by (auto simp: interval_may_overlap_def)
    then have "overlapping ext (preorder (INode c n l r)) = []" using none_below INode.prems(2) by blast
    then show ?thesis using high by (simp del: preorder.simps)
  qed
qed simp

section \<open>The tree as a map\<close>

text \<open>What an index of extents promises to its clients.\<close>

locale extent_index =
  fixes inv :: "'t \<Rightarrow> bool"
    and contents :: "'t \<Rightarrow> interval_node_extent \<Rightarrow> 'a option"
    and empty :: 't
    and insert_op :: "'a interval_node \<Rightarrow> 't \<Rightarrow> ('a interval_node option \<times> 't) option"
    and erase_op :: "interval_node_extent \<Rightarrow> 't \<Rightarrow> 't option"
  assumes inv_empty: "inv empty"
    and contents_empty: "contents empty = (\<lambda>e. None)"
    and insert_law: "\<lbrakk>inv t; \<not> in_intree n; in_max_high n = interval_high n\<rbrakk> \<Longrightarrow>
      \<exists>found t'. insert_op n t = Some (found, t') \<and> inv t' \<and> map_option in_data found = contents t (in_extent n)
        \<and> contents t' = (if contents t (in_extent n) = None then (contents t)(in_extent n \<mapsto> in_data n) else contents t)"
    and erase_law: "\<lbrakk>inv t; contents t e \<noteq> None\<rbrakk> \<Longrightarrow>
      \<exists>t'. erase_op e t = Some t' \<and> inv t' \<and> contents t' = (contents t)(e := None)"

text \<open>Sequences of operations, and what they mean for a map. A node is erased only while it is in the tree.\<close>

datatype 'a tree_op = Insert interval_node_extent 'a | Erase interval_node_extent

fun map_op :: "'a tree_op \<Rightarrow> (interval_node_extent \<Rightarrow> 'a option) \<Rightarrow> interval_node_extent \<Rightarrow> 'a option" where
  "map_op (Insert e d) m = (if m e = None then m(e \<mapsto> d) else m)"
| "map_op (Erase e) m = m(e := None)"

fun ops_ok :: "'a tree_op list \<Rightarrow> (interval_node_extent \<Rightarrow> 'a option) \<Rightarrow> bool" where
  "ops_ok [] m = True"
| "ops_ok (x # xs) m = ((case x of Insert e d \<Rightarrow> True | Erase e \<Rightarrow> m e \<noteq> None) \<and> ops_ok xs (map_op x m))"

definition new_node :: "interval_node_extent \<Rightarrow> 'a \<Rightarrow> 'a interval_node" where
  "new_node e d = \<lparr>in_intree = False, in_max_high = ext_end e, in_extent = e, in_data = d\<rparr>"

fun run_ops ::
  "('a interval_node \<Rightarrow> 't \<Rightarrow> ('a interval_node option \<times> 't) option) \<Rightarrow> (interval_node_extent \<Rightarrow> 't \<Rightarrow> 't option) \<Rightarrow>
   'a tree_op list \<Rightarrow> 't \<Rightarrow> 't option" where
  "run_ops ins del [] t = Some t"
| "run_ops ins del (Insert e d # xs) t = do { (found, t) \<leftarrow> ins (new_node e d) t; run_ops ins del xs t }"
| "run_ops ins del (Erase e # xs) t = do { t \<leftarrow> del e t; run_ops ins del xs t }"

context extent_index begin

lemma run_ok:
  "\<lbrakk>inv t; ops_ok xs (contents t)\<rbrakk> \<Longrightarrow>
   \<exists>t'. run_ops insert_op erase_op xs t = Some t' \<and> inv t' \<and> contents t' = fold map_op xs (contents t)"
proof (induction xs arbitrary: t)
  case (Cons x xs)
  have "\<exists>t1. (\<forall>xs. run_ops insert_op erase_op (x # xs) t = run_ops insert_op erase_op xs t1)
      \<and> inv t1 \<and> contents t1 = map_op x (contents t)"
  proof (cases x)
    case (Insert e d)
    then show ?thesis using insert_law [OF Cons.prems(1), of "new_node e d"] by (auto simp: new_node_def)
  next
    case (Erase e)
    then show ?thesis using erase_law [OF Cons.prems(1), of e] Cons.prems(2) by auto
  qed
  then obtain t1 where t1: "\<And>xs. run_ops insert_op erase_op (x # xs) t = run_ops insert_op erase_op xs t1"
    "inv t1" "contents t1 = map_op x (contents t)" by blast
  then show ?case using Cons.IH [OF t1(2)] Cons.prems(2) by simp
qed simp

lemma run_from_empty:
  "ops_ok xs (\<lambda>e. None) \<Longrightarrow>
   \<exists>t'. run_ops insert_op erase_op xs empty = Some t' \<and> inv t' \<and> contents t' = fold map_op xs (\<lambda>e. None)"
  using run_ok [OF inv_empty] contents_empty by simp

end

definition contents :: "'a itree \<Rightarrow> interval_node_extent \<Rightarrow> 'a option" where
  "contents t = map_of (map (\<lambda>(e, d, b). (e, d)) (items t))"

lemma ordered_distinct: "ordered xs \<Longrightarrow> distinct (keys xs)"
  by (induction xs) auto

lemma contents_Some: "ordered (items t) \<Longrightarrow> contents t e = Some d \<longleftrightarrow> (\<exists>b. (e, d, b) \<in> set (items t))"
proof -
  assume "ordered (items t)"
  then have "distinct (map fst (map (\<lambda>(e, d, b). (e, d)) (items t)))"
    using ordered_distinct [of "items t"] by (simp add: comp_def case_prod_beta)
  then show ?thesis by (force simp: contents_def)
qed

lemma contents_None: "contents t e = None \<longleftrightarrow> e \<notin> fst ` set (items t)"
  by (force simp: contents_def map_of_eq_None_iff)

lemma contents_eqI:
  assumes "ordered (items t)" "\<And>e d. (\<exists>b. (e, d, b) \<in> set (items t)) \<longleftrightarrow> m e = Some d"
  shows "contents t = m"
proof
  fix e
  show "contents t e = m e" using contents_Some [OF assms(1)] assms(2) by (metis not_None_eq)
qed

lemma contents_find: "ordered (items t) \<Longrightarrow> contents t e = map_option in_data (interval_find t e)"
proof -
  have "map_of (map (\<lambda>(e, d, b). (e, d)) (map item ns)) e = map_option in_data (find (\<lambda>n. in_extent n = e) ns)"
    for ns :: "'a interval_node list"
    by (induction ns) (auto simp: item_def)
  then show "ordered (items t) \<Longrightarrow> ?thesis"
    by (simp add: contents_def interval_find_items) (simp add: items_inorder)
qed

lemma itree_insert_law:
  assumes t: "valid t" and n: "\<not> in_intree n" "in_max_high n = interval_high n"
  shows "\<exists>found t'. interval_insert n t = Some (found, t') \<and> valid t' \<and> map_option in_data found = contents t (in_extent n)
    \<and> contents t' = (if contents t (in_extent n) = None then (contents t)(in_extent n \<mapsto> in_data n) else contents t)"
proof (cases "in_extent n \<in> fst ` set (items t)")
  case True
  have o: "ordered (items t)" using t by (simp add: valid_def)
  obtain m where m: "m \<in> set (inorder t)" "interval_insert n t = Some (Some m, t)" "in_extent m = in_extent n"
    using interval_insert_found [OF t n(1) True] by blast
  have "contents t (in_extent n) = Some (in_data m)"
    unfolding contents_Some [OF o] using imageI [OF m(1), of item] m(3) by (auto simp: items_inorder item_def)
  then show ?thesis using m(2) t by simp
next
  case False
  obtain t' where t': "interval_insert n t = Some (None, t')" "valid t'"
    "set (items t') = insert (in_extent n, in_data n, True) (set (items t))"
    using interval_insert_new [OF t n False] by blast
  have o: "ordered (items t)" "ordered (items t')" using t t'(2) by (simp_all add: valid_def)
  have none: "contents t (in_extent n) = None" using False by (simp add: contents_None)
  have "(in_extent n, d, b) \<notin> set (items t)" for d b using False by force
  then have "contents t' = (contents t)(in_extent n \<mapsto> in_data n)"
    using t'(3) none contents_Some [OF o(1)] by (intro contents_eqI [OF o(2)]) auto
  then show ?thesis using t' none by simp
qed

lemma itree_erase_law:
  assumes "valid t" "contents t e \<noteq> None"
  shows "\<exists>t'. interval_erase e t = Some t' \<and> valid t' \<and> contents t' = (contents t)(e := None)"
proof -
  have o: "ordered (items t)" using assms(1) by (simp add: valid_def)
  have "e \<in> fst ` set (items t)" using assms(2) contents_None [of t e] by simp
  then obtain t' where t': "interval_erase e t = Some t'" "valid t'" "items t' = filter (\<lambda>x. fst x \<noteq> e) (items t)"
    using interval_erase_ok [OF assms(1)] by blast
  have "contents t' = (contents t)(e := None)"
    using t'(2,3) contents_Some [OF o] by (intro contents_eqI) (auto simp: valid_def)
  then show ?thesis using t' by blast
qed

lemma valid_INull [simp]: "valid INull"
  by (simp add: valid_def rb_def)

interpretation tree_index: extent_index valid contents INull interval_insert interval_erase
  by unfold_locales (simp_all add: itree_insert_law itree_erase_law, simp add: contents_def)

section \<open>Properties\<close>

text \<open>
  (C18) Whatever nodes are inserted and erased, the interval tree never follows a null pointer or
  fails an assertion, stays sorted, balanced and with the right highest ends, and holds exactly
  the extents that a finite map would hold; \<open>interval_find\<close> is the lookup of that map.
\<close>

theorem interval_tree_implements_map:
  assumes "ops_ok xs (\<lambda>e. None)"
  shows "\<exists>t. run_ops interval_insert interval_erase xs INull = Some t \<and> valid t
    \<and> (\<forall>e. map_option in_data (interval_find t e) = fold map_op xs (\<lambda>e. None) e)"
  using tree_index.run_from_empty [OF assms] contents_find by (fastforce simp: valid_def)

theorem interval_tree_implements_map_witness:
  "ops_ok [Insert (Extent 0 9) (1::nat), Insert (Extent 20 29) 2, Insert (Extent 5 7) 3, Erase (Extent 0 9)] (\<lambda>e. None)
   \<and> (\<exists>t. run_ops interval_insert interval_erase
        [Insert (Extent 0 9) (1::nat), Insert (Extent 20 29) 2, Insert (Extent 5 7) 3, Erase (Extent 0 9)] INull = Some t
      \<and> map_option in_data (interval_find t (Extent 5 7)) = Some 3)"
proof -
  let ?ops = "[Insert (Extent 0 9) (1::nat), Insert (Extent 20 29) 2, Insert (Extent 5 7) 3, Erase (Extent 0 9)]"
  have ok: "ops_ok ?ops (\<lambda>e. None)" by simp
  obtain t where "run_ops interval_insert interval_erase ?ops INull = Some t"
    "\<forall>e. map_option in_data (interval_find t e) = fold map_op ?ops (\<lambda>e. None) e"
    using interval_tree_implements_map [OF ok] by blast
  moreover have "fold map_op ?ops (\<lambda>e. None) (Extent 5 7) = Some 3" by simp
  ultimately show ?thesis using ok by metis
qed



text \<open>
  (C19) The search, which follows parent pointers and skips right subtrees early, makes the same calls
  as the recursive algorithm of its comment: one for every node that overlaps the extent, in
  preorder, up to the first call that stops.
\<close>

theorem interval_search_equiv:
  assumes "valid t"
  shows "interval_search t ext func dat = interval_search_rec t ext func dat
    \<and> interval_search t ext func dat
      = visit func (filter (\<lambda>n. extent_overlapped ext (in_extent n)) (preorder t)) INTERVAL_ITER_CONT dat"
  using interval_search_visit [OF assms, of ext func dat] interval_search_rec_visit [of t ext func dat] assms
  by (simp add: valid_def)

text \<open>A tree with one node.\<close>

definition tree1 :: "nat itree" where
  "tree1 = INode INTERVAL_BLACK \<lparr>in_intree = True, in_max_high = 9, in_extent = Extent 4 9, in_data = 1\<rparr> INull INull"

lemma tree1_ok: "valid tree1" "proper tree1"
  by (simp_all add: tree1_def valid_def rb_def proper_def new_max_high_def item_def)

theorem interval_search_equiv_witness:
  "valid tree1 \<and> interval_search tree1 (Extent 0 4) (\<lambda>n d. (INTERVAL_ITER_CONT, in_data n # d)) [] = (INTERVAL_ITER_CONT, [1])"
  using interval_search_equiv [OF tree1_ok(1), of "Extent 0 4" "\<lambda>n d. (INTERVAL_ITER_CONT, in_data n # d)" "[]", THEN conjunct2] tree1_ok(1)
  by (simp add: tree1_def extent_overlapped_def)

text \<open>
  (C20) Expanding an extent that overlaps nothing in the tree fails neither of the two assertions: the
  result holds the extent, overlaps nothing in the tree and, without a limiter, ends at the end
  of the file or just before an extent of the tree.
\<close>

theorem interval_expand_safe:
  assumes "valid t" "proper t" "ext_start ext \<le> ext_end ext" "interval_is_overlapped t ext = 0"
  shows "\<exists>ext'. interval_expand t ext limiter = Some ext' \<and> wider ext ext' \<and> interval_is_overlapped t ext' = 0
    \<and> (limiter = None \<longrightarrow> ext_end ext' = - 1 \<or> (\<exists>n \<in> set (inorder t). interval_low n = ext_end ext' + 1))"
proof -
  have "\<forall>x \<in> set (items t). \<not> extent_overlapped ext (fst x)"
    using assms(4) interval_is_overlapped_iff [OF assms(1), of ext] by (auto split: if_splits)
  from interval_expand_ok [OF assms(1-3) this, of limiter]
  obtain ext' where e: "interval_expand t ext limiter = Some ext'" "wider ext ext'"
    "\<forall>x \<in> set (items t). \<not> extent_overlapped ext' (fst x)"
    "limiter = None \<longrightarrow> ext_end ext' = - 1 \<or> (\<exists>x \<in> set (items t). ext_start (fst x) = ext_end ext' + 1)" by blast
  have "interval_is_overlapped t ext' = 0" using e(3) interval_is_overlapped_iff [OF assms(1), of ext'] by simp
  then show ?thesis using e(1,2,4) by (auto simp: items_inorder)
qed

theorem interval_expand_safe_witness:
  "\<exists>ext'. interval_expand tree1 (Extent 0 2) None = Some ext' \<and> wider (Extent 0 2) ext' \<and> interval_is_overlapped tree1 ext' = 0"
proof -
  have "interval_is_overlapped tree1 (Extent 0 2) = 0"
    by (simp add: interval_is_overlapped_iff tree1_ok) (simp add: tree1_def extent_overlapped_def)
  then show ?thesis using interval_expand_safe [OF tree1_ok, of "Extent 0 2" None] by auto
qed

end
