(* ===== verification/LdlmLock.thy ===== *)
theory LdlmLock
  imports IntervalTree
begin

text \<open>
  The locks and the resource of the distributed lock manager, and the operations that put a lock
  on a queue of its resource and take it off: \<open>lustre/include/lustre_dlm.h\<close>,
  \<open>lustre/ldlm/ldlm_lock.c\<close>, \<open>lustre/ldlm/ldlm_resource.c\<close> and the interval part of
  \<open>lustre/ldlm/ldlm_extent.c\<close>.

  A resource is one record: its three queues, the memory of its locks (\<open>res_locks\<close>, a lock is named
  by its address), the two skip lists that thread the granted queue and the interval trees. The
  queues, which have a list head, are HOL lists. The skip lists \<open>l_sl_mode\<close> and \<open>l_sl_policy\<close> have no
  head: the code jumps to the end of a group through the \<open>prev\<close> pointer of its first lock, so these
  are modelled by the \<open>next\<close> and \<open>prev\<close> pointers themselves. The loops that follow them are partial
  functions: \<open>None\<close> is a loop that does not end or an assertion that fails.

  Not in the record: the reference counts and the handle of a lock, its place in the hash tables of
  the namespace and of the export, its value block, and the lock server's timers.
\<close>

section \<open>Lock modes\<close>

datatype ldlm_mode = LCK_MINMODE | LCK_EX | LCK_PW | LCK_PR | LCK_CW | LCK_CR | LCK_NL | LCK_GROUP | LCK_COS

fun mode_bits :: "ldlm_mode \<Rightarrow> u32" where
  "mode_bits LCK_MINMODE = 0"
| "mode_bits LCK_EX = 1"
| "mode_bits LCK_PW = 2"
| "mode_bits LCK_PR = 4"
| "mode_bits LCK_CW = 8"
| "mode_bits LCK_CR = 16"
| "mode_bits LCK_NL = 32"
| "mode_bits LCK_GROUP = 64"
| "mode_bits LCK_COS = 128"

definition LCK_MAXMODE :: u32 where "LCK_MAXMODE = 129"

definition LCK_COMPAT_EX :: u32 where "LCK_COMPAT_EX = mode_bits LCK_NL"
definition LCK_COMPAT_PW :: u32 where "LCK_COMPAT_PW = LCK_COMPAT_EX OR mode_bits LCK_CR"
definition LCK_COMPAT_PR :: u32 where "LCK_COMPAT_PR = LCK_COMPAT_PW OR mode_bits LCK_PR"
definition LCK_COMPAT_CW :: u32 where "LCK_COMPAT_CW = LCK_COMPAT_PW OR mode_bits LCK_CW"
definition LCK_COMPAT_CR :: u32 where "LCK_COMPAT_CR = LCK_COMPAT_CW OR mode_bits LCK_PR OR mode_bits LCK_PW"
definition LCK_COMPAT_NL :: u32 where "LCK_COMPAT_NL = LCK_COMPAT_CR OR mode_bits LCK_EX OR mode_bits LCK_GROUP"
definition LCK_COMPAT_GROUP :: u32 where "LCK_COMPAT_GROUP = mode_bits LCK_GROUP OR mode_bits LCK_NL"
definition LCK_COMPAT_COS :: u32 where "LCK_COMPAT_COS = mode_bits LCK_COS"

lemmas LCK_COMPAT_defs = LCK_COMPAT_EX_def LCK_COMPAT_PW_def LCK_COMPAT_PR_def LCK_COMPAT_CW_def
  LCK_COMPAT_CR_def LCK_COMPAT_NL_def LCK_COMPAT_GROUP_def LCK_COMPAT_COS_def

text \<open>An entry that the initialiser of the array does not name is zero.\<close>

fun lck_compat_array :: "ldlm_mode \<Rightarrow> u32" where
  "lck_compat_array LCK_EX = LCK_COMPAT_EX"
| "lck_compat_array LCK_PW = LCK_COMPAT_PW"
| "lck_compat_array LCK_PR = LCK_COMPAT_PR"
| "lck_compat_array LCK_CW = LCK_COMPAT_CW"
| "lck_compat_array LCK_CR = LCK_COMPAT_CR"
| "lck_compat_array LCK_NL = LCK_COMPAT_NL"
| "lck_compat_array LCK_GROUP = LCK_COMPAT_GROUP"
| "lck_compat_array LCK_COS = LCK_COMPAT_COS"
| "lck_compat_array LCK_MINMODE = 0"

definition lockmode_verify :: "ldlm_mode \<Rightarrow> unit option" where
  "lockmode_verify mode = lassert (mode_bits mode > mode_bits LCK_MINMODE \<and> mode_bits mode < LCK_MAXMODE)"

definition lockmode_compat :: "ldlm_mode \<Rightarrow> ldlm_mode \<Rightarrow> bool" where
  "lockmode_compat exist_mode new_mode \<longleftrightarrow> lck_compat_array exist_mode AND mode_bits new_mode \<noteq> 0"

text \<open>Modes are compared by their numbers.\<close>

lemma mode_bits_inj: "mode_bits a = mode_bits b \<longleftrightarrow> a = b"
  by (cases a; cases b) simp_all

instantiation ldlm_mode :: linorder
begin

definition less_eq_ldlm_mode :: "ldlm_mode \<Rightarrow> ldlm_mode \<Rightarrow> bool" where
  "a \<le> b \<longleftrightarrow> mode_bits a \<le> mode_bits b"

definition less_ldlm_mode :: "ldlm_mode \<Rightarrow> ldlm_mode \<Rightarrow> bool" where
  "a < b \<longleftrightarrow> mode_bits a < mode_bits b"

instance
  by standard (auto simp: less_eq_ldlm_mode_def less_ldlm_mode_def order.strict_iff_order mode_bits_inj)

end

section \<open>Flags\<close>

definition LDLM_FL_BLOCK_GRANTED :: u64 where "LDLM_FL_BLOCK_GRANTED = 0x000002"
definition LDLM_FL_BLOCK_CONV :: u64 where "LDLM_FL_BLOCK_CONV = 0x000004"
definition LDLM_FL_BLOCK_WAIT :: u64 where "LDLM_FL_BLOCK_WAIT = 0x000008"
definition LDLM_FL_CBPENDING :: u64 where "LDLM_FL_CBPENDING = 0x000010"
definition LDLM_FL_AST_SENT :: u64 where "LDLM_FL_AST_SENT = 0x000020"
definition LDLM_FL_CANCEL :: u64 where "LDLM_FL_CANCEL = 0x000080"
definition LDLM_FL_REPLAY :: u64 where "LDLM_FL_REPLAY = 0x000100"
definition LDLM_FL_DISCARD_DATA :: u64 where "LDLM_FL_DISCARD_DATA = 0x010000"
definition LDLM_FL_CP_REQD :: u64 where "LDLM_FL_CP_REQD = 0x1000000"
definition LDLM_FL_BL_DONE :: u64 where "LDLM_FL_BL_DONE = 0x20000000"
definition LDLM_AST_DISCARD_DATA :: u64 where "LDLM_AST_DISCARD_DATA = 0x80000000"

lemmas LDLM_FL_defs = LDLM_FL_BLOCK_GRANTED_def LDLM_FL_BLOCK_CONV_def LDLM_FL_BLOCK_WAIT_def
  LDLM_FL_CBPENDING_def LDLM_FL_AST_SENT_def LDLM_FL_CANCEL_def LDLM_FL_REPLAY_def
  LDLM_FL_DISCARD_DATA_def LDLM_FL_CP_REQD_def LDLM_FL_BL_DONE_def LDLM_AST_DISCARD_DATA_def

definition has_flag :: "u64 \<Rightarrow> u64 \<Rightarrow> bool" where
  "has_flag flags f \<longleftrightarrow> flags AND f \<noteq> 0"

lemma has_flag_or [simp]: "has_flag (a OR b) c \<longleftrightarrow> has_flag a c \<or> has_flag b c"
  by (simp add: has_flag_def bit.conj_disj_distrib2 or_eq_0_iff)

section \<open>Locks\<close>

datatype ldlm_type = LDLM_PLAIN | LDLM_EXTENT | LDLM_FLOCK | LDLM_IBITS

record ldlm_extent =
  le_start :: u64
  le_end :: u64
  le_gid :: u64

definition ldlm_extent_overlap :: "ldlm_extent \<Rightarrow> ldlm_extent \<Rightarrow> bool" where
  "ldlm_extent_overlap ex1 ex2 \<longleftrightarrow> le_start ex1 \<le> le_end ex2 \<and> le_start ex2 \<le> le_end ex1"

text \<open>
  The members of the union \<open>l_policy_data\<close> that the code reads for a lock of type \<open>LDLM_EXTENT\<close>
  and \<open>LDLM_IBITS\<close> are the fields \<open>l_extent\<close> and \<open>l_inodebits\<close>. The three members of a lock that
  link it to a work list, \<open>l_bl_ast\<close>, \<open>l_cp_ast\<close> and \<open>l_lru\<close>, are true when they are linked.
\<close>

record ldlm_lock =
  l_tree_node :: "nat option"
  l_req_mode :: ldlm_mode
  l_granted_mode :: ldlm_mode
  l_completion_ast :: bool
  l_blocking_ast :: bool
  l_export :: "nat option"
  l_extent :: ldlm_extent
  l_inodebits :: u64
  l_flags :: u64
  l_readers :: nat
  l_writers :: nat
  l_destroyed :: bool
  l_req_extent :: ldlm_extent
  l_client_cookie :: u64
  l_lru :: bool
  l_bl_ast :: bool
  l_cp_ast :: bool
  l_blocking_lock :: "nat option"
  l_bl_ast_run :: int

text \<open>The two pointers of every list link of one kind.\<close>

record links =
  lnext :: "nat \<Rightarrow> nat"
  lprev :: "nat \<Rightarrow> nat"

definition list_add_between :: "nat \<Rightarrow> nat \<Rightarrow> nat \<Rightarrow> links \<Rightarrow> links" where
  "list_add_between new prev next L =
    (let L1 = L\<lparr>lprev := (lprev L)(next := new)\<rparr>;
         L2 = L1\<lparr>lnext := (lnext L1)(new := next)\<rparr>;
         L3 = L2\<lparr>lprev := (lprev L2)(new := prev)\<rparr>
     in L3\<lparr>lnext := (lnext L3)(prev := new)\<rparr>)"

definition cfs_list_add :: "nat \<Rightarrow> nat \<Rightarrow> links \<Rightarrow> links" where
  "cfs_list_add new head L = list_add_between new head (lnext L head) L"

definition list_del_between :: "nat \<Rightarrow> nat \<Rightarrow> links \<Rightarrow> links" where
  "list_del_between prev next L =
    (let L1 = L\<lparr>lprev := (lprev L)(next := prev)\<rparr>
     in L1\<lparr>lnext := (lnext L1)(prev := next)\<rparr>)"

definition cfs_list_del_init :: "nat \<Rightarrow> links \<Rightarrow> links" where
  "cfs_list_del_init entry L =
    (let L1 = list_del_between (lprev L entry) (lnext L entry) L
     in \<lparr>lnext = (lnext L1)(entry := entry), lprev = (lprev L1)(entry := entry)\<rparr>)"

definition cfs_list_empty :: "nat \<Rightarrow> links \<Rightarrow> bool" where
  "cfs_list_empty head L \<longleftrightarrow> lnext L head = head"

section \<open>The resource\<close>

record ldlm_interval =
  li_node :: "nat interval_node"
  li_group :: "nat list"

record ldlm_interval_tree =
  lit_size :: int
  lit_mode :: ldlm_mode
  lit_root :: "nat itree"

record ldlm_resource =
  lr_granted :: "nat list"
  lr_converting :: "nat list"
  lr_waiting :: "nat list"
  lr_most_restr :: ldlm_mode
  lr_type :: ldlm_type
  lr_itree :: "ldlm_interval_tree list"
  lr_contention_time :: nat
  res_locks :: "nat \<Rightarrow> ldlm_lock"
  sl_mode :: links
  sl_policy :: links
  res_intervals :: "nat \<Rightarrow> ldlm_interval"
  pl_granted :: int
  ns_client :: bool

definition upd_lock :: "nat \<Rightarrow> (ldlm_lock \<Rightarrow> ldlm_lock) \<Rightarrow> ldlm_resource \<Rightarrow> ldlm_resource" where
  "upd_lock i f res = res\<lparr>res_locks := (res_locks res)(i := f (res_locks res i))\<rparr>"

definition upd_interval :: "nat \<Rightarrow> (ldlm_interval \<Rightarrow> ldlm_interval) \<Rightarrow> ldlm_resource \<Rightarrow> ldlm_resource" where
  "upd_interval n f res = res\<lparr>res_intervals := (res_intervals res)(n := f (res_intervals res n))\<rparr>"

definition set_flag :: "nat \<Rightarrow> u64 \<Rightarrow> ldlm_resource \<Rightarrow> ldlm_resource" where
  "set_flag i f = upd_lock i (\<lambda>l. l\<lparr>l_flags := l_flags l OR f\<rparr>)"

definition clear_flag :: "nat \<Rightarrow> u64 \<Rightarrow> ldlm_resource \<Rightarrow> ldlm_resource" where
  "clear_flag i f = upd_lock i (\<lambda>l. l\<lparr>l_flags := l_flags l AND NOT f\<rparr>)"

datatype res_queue = Granted | Converting | Waiting

fun queue :: "res_queue \<Rightarrow> ldlm_resource \<Rightarrow> nat list" where
  "queue Granted res = lr_granted res"
| "queue Converting res = lr_converting res"
| "queue Waiting res = lr_waiting res"

fun set_queue :: "res_queue \<Rightarrow> nat list \<Rightarrow> ldlm_resource \<Rightarrow> ldlm_resource" where
  "set_queue Granted xs res = res\<lparr>lr_granted := xs\<rparr>"
| "set_queue Converting xs res = res\<lparr>lr_converting := xs\<rparr>"
| "set_queue Waiting xs res = res\<lparr>lr_waiting := xs\<rparr>"

text \<open>\<open>l_res_link\<close> is linked when the lock is on one of the queues of its resource.\<close>

definition res_linked :: "ldlm_resource \<Rightarrow> nat \<Rightarrow> bool" where
  "res_linked res i \<longleftrightarrow> i \<in> set (lr_granted res) \<or> i \<in> set (lr_converting res) \<or> i \<in> set (lr_waiting res)"

text \<open>The elements that follow an element of a queue: the rest of a loop that was moved to it.\<close>

fun list_after :: "nat list \<Rightarrow> nat \<Rightarrow> nat list option" where
  "list_after [] x = None"
| "list_after (y # ys) x = (if y = x then Some ys else list_after ys x)"

text \<open>\<open>cfs_list_add\<close> on a queue: after the given lock, or first when the link is the list head.\<close>

fun list_insert_after :: "nat \<Rightarrow> nat option \<Rightarrow> nat list \<Rightarrow> nat list option" where
  "list_insert_after new None xs = Some (new # xs)"
| "list_insert_after new (Some p) [] = None"
| "list_insert_after new (Some p) (x # xs) =
    (if x = p then Some (x # new # xs) else map_option ((#) x) (list_insert_after new (Some p) xs))"

definition ldlm_resource_add_lock :: "ldlm_resource \<Rightarrow> res_queue \<Rightarrow> nat \<Rightarrow> ldlm_resource option" where
  "ldlm_resource_add_lock res head lock =
    (if l_destroyed (res_locks res lock) then Some res
     else do {
       lassert (\<not> res_linked res lock);
       Some (set_queue head (queue head res @ [lock]) res)
     })"

section \<open>Blocking and completion callbacks to send\<close>

definition ldlm_add_bl_work_item :: "nat \<Rightarrow> nat \<Rightarrow> nat list \<Rightarrow> ldlm_resource \<Rightarrow> (nat list \<times> ldlm_resource) option" where
  "ldlm_add_bl_work_item lock new work_list res =
    (if \<not> has_flag (l_flags (res_locks res lock)) LDLM_FL_AST_SENT then do {
       let res1 = set_flag lock LDLM_FL_AST_SENT res;
       let res2 = (if has_flag (l_flags (res_locks res1 new)) LDLM_AST_DISCARD_DATA
                   then set_flag lock LDLM_FL_DISCARD_DATA res1 else res1);
       lassert (\<not> l_bl_ast (res_locks res2 lock));
       let res3 = upd_lock lock (\<lambda>l. l\<lparr>l_bl_ast := True\<rparr>) res2;
       lassert (l_blocking_lock (res_locks res3 lock) = None);
       Some (lock # work_list, upd_lock lock (\<lambda>l. l\<lparr>l_blocking_lock := Some new\<rparr>) res3)
     }
     else Some (work_list, res))"

definition ldlm_add_cp_work_item :: "nat \<Rightarrow> nat list \<Rightarrow> ldlm_resource \<Rightarrow> (nat list \<times> ldlm_resource) option" where
  "ldlm_add_cp_work_item lock work_list res =
    (if \<not> has_flag (l_flags (res_locks res lock)) LDLM_FL_CP_REQD then do {
       let res1 = set_flag lock LDLM_FL_CP_REQD res;
       lassert (\<not> l_cp_ast (res_locks res1 lock));
       Some (lock # work_list, upd_lock lock (\<lambda>l. l\<lparr>l_cp_ast := True\<rparr>) res1)
     }
     else Some (work_list, res))"

definition ldlm_add_ast_work_item ::
  "nat \<Rightarrow> nat option \<Rightarrow> nat list \<Rightarrow> ldlm_resource \<Rightarrow> (nat list \<times> ldlm_resource) option" where
  "ldlm_add_ast_work_item lock new work_list res =
    (case new of Some new \<Rightarrow> ldlm_add_bl_work_item lock new work_list res
     | None \<Rightarrow> ldlm_add_cp_work_item lock work_list res)"

section \<open>The interval trees of a resource\<close>

definition ldlm_interval_attach :: "nat \<Rightarrow> nat \<Rightarrow> ldlm_resource \<Rightarrow> ldlm_resource option" where
  "ldlm_interval_attach n l res = do {
     lassert (l_tree_node (res_locks res l) = None);
     lassert (lr_type res = LDLM_EXTENT);
     let res1 = upd_interval n (\<lambda>v. v\<lparr>li_group := li_group v @ [l]\<rparr>) res;
     Some (upd_lock l (\<lambda>k. k\<lparr>l_tree_node := Some n\<rparr>) res1)
   }"

text \<open>A zeroed interval node with an empty group. The allocation gives its address \<open>node\<close> or fails.\<close>

definition new_interval :: "nat \<Rightarrow> ldlm_interval" where
  "new_interval n = \<lparr>li_node = \<lparr>in_intree = False, in_max_high = 0, in_extent = Extent 0 0, in_data = n\<rparr>, li_group = []\<rparr>"

definition ldlm_interval_alloc :: "nat option \<Rightarrow> nat \<Rightarrow> ldlm_resource \<Rightarrow> (nat option \<times> ldlm_resource) option" where
  "ldlm_interval_alloc node lock res = do {
     lassert (lr_type res = LDLM_EXTENT);
     case node of
       None \<Rightarrow> Some (None, res)
     | Some n \<Rightarrow> do {
         res2 \<leftarrow> ldlm_interval_attach n lock (upd_interval n (\<lambda>v. new_interval n) res);
         Some (Some n, res2)
       }
   }"

definition ldlm_interval_free :: "nat option \<Rightarrow> ldlm_resource \<Rightarrow> unit option" where
  "ldlm_interval_free node res =
    (case node of None \<Rightarrow> Some ()
     | Some n \<Rightarrow> do {
         lassert (li_group (res_intervals res n) = []);
         lassert (\<not> in_intree (li_node (res_intervals res n)))
       })"

definition ldlm_interval_detach :: "nat \<Rightarrow> ldlm_resource \<Rightarrow> (nat option \<times> ldlm_resource) option" where
  "ldlm_interval_detach l res =
    (case l_tree_node (res_locks res l) of
       None \<Rightarrow> Some (None, res)
     | Some n \<Rightarrow> do {
         lassert (li_group (res_intervals res n) \<noteq> []);
         let res1 = upd_lock l (\<lambda>k. k\<lparr>l_tree_node := None\<rparr>) res;
         let res2 = upd_interval n (\<lambda>v. v\<lparr>li_group := removeAll l (li_group v)\<rparr>) res1;
         Some (if li_group (res_intervals res2 n) = [] then Some n else None, res2)
       })"

text \<open>The loop counts the bits up to the highest one.\<close>

function mode_index_loop :: "int \<Rightarrow> u32 \<Rightarrow> int" where
  "mode_index_loop index mode = (if mode = 0 then index else mode_index_loop (index + 1) (drop_bit 1 mode))"
  by auto

termination
proof (relation "measure (\<lambda>(index, mode). unat mode)")
  fix mode :: u32
  assume "mode \<noteq> 0"
  then have "0 < unat mode" by (simp add: unat_gt_0)
  then have "unat mode div 2 < unat mode" by simp
  then show "((index + 1, drop_bit 1 mode), index, mode) \<in> measure (\<lambda>(index, mode). unat mode)" for index :: int
    by (simp add: unat_drop_bit_eq drop_bit_nat_def)
qed simp

declare mode_index_loop.simps [simp del]

definition is_po2 :: "u32 \<Rightarrow> bool" where
  "is_po2 x \<longleftrightarrow> x AND (x - 1) = 0"

definition LCK_MODE_NUM :: int where "LCK_MODE_NUM = 8"

definition lock_mode_to_index :: "ldlm_mode \<Rightarrow> int option" where
  "lock_mode_to_index mode = do {
     lassert (mode_bits mode \<noteq> 0);
     lassert (is_po2 (mode_bits mode));
     let index = mode_index_loop (- 1) (mode_bits mode);
     lassert (index < LCK_MODE_NUM);
     Some index
   }"

abbreviation itree_at :: "ldlm_resource \<Rightarrow> int \<Rightarrow> ldlm_interval_tree" where
  "itree_at res idx \<equiv> lr_itree res ! nat idx"

definition upd_itree :: "int \<Rightarrow> (ldlm_interval_tree \<Rightarrow> ldlm_interval_tree) \<Rightarrow> ldlm_resource \<Rightarrow> ldlm_resource" where
  "upd_itree idx f res = res\<lparr>lr_itree := (lr_itree res)[nat idx := f (itree_at res idx)]\<rparr>"

definition ldlm_extent_add_lock :: "ldlm_resource \<Rightarrow> nat \<Rightarrow> ldlm_resource option" where
  "ldlm_extent_add_lock res lock = do {
     let k = res_locks res lock;
     lassert (l_granted_mode k = l_req_mode k);
     node \<leftarrow> l_tree_node k;
     lassert (\<not> in_intree (li_node (res_intervals res node)));
     idx \<leftarrow> lock_mode_to_index (l_granted_mode k);
     lassert (mode_bits (l_granted_mode k) = push_bit (nat idx) 1);
     lassert (l_granted_mode k = lit_mode (itree_at res idx));
     n \<leftarrow> interval_set (li_node (res_intervals res node)) (le_start (l_extent k)) (le_end (l_extent k));
     let res1 = upd_interval node (\<lambda>v. v\<lparr>li_node := n\<rparr>) res;
     (found, root) \<leftarrow> interval_insert n (lit_root (itree_at res1 idx));
     let res2 = upd_itree idx (\<lambda>t. t\<lparr>lit_root := root\<rparr>) res1;
     res3 \<leftarrow> (case found of
        None \<Rightarrow> Some (upd_interval node (\<lambda>v. v\<lparr>li_node := n\<lparr>in_intree := True\<rparr>\<rparr>) res2)
      | Some f \<Rightarrow> do {
          (tmp, res3) \<leftarrow> ldlm_interval_detach lock res2;
          lassert (tmp \<noteq> None);
          ldlm_interval_free tmp res3;
          ldlm_interval_attach (in_data f) lock res3
        });
     let res4 = upd_itree idx (\<lambda>t. t\<lparr>lit_size := lit_size t + 1\<rparr>) res3;
     ldlm_resource_add_lock res4 Granted lock
   }"

definition ldlm_extent_unlink_lock :: "nat \<Rightarrow> ldlm_resource \<Rightarrow> ldlm_resource option" where
  "ldlm_extent_unlink_lock lock res =
    (case l_tree_node (res_locks res lock) of
       None \<Rightarrow> Some res
     | Some node \<Rightarrow>
         if \<not> in_intree (li_node (res_intervals res node)) then Some res
         else do {
           idx \<leftarrow> lock_mode_to_index (l_granted_mode (res_locks res lock));
           lassert (mode_bits (l_granted_mode (res_locks res lock)) = push_bit (nat idx) 1);
           lassert (lit_root (itree_at res idx) \<noteq> INull);
           let res1 = upd_itree idx (\<lambda>t. t\<lparr>lit_size := lit_size t - 1\<rparr>) res;
           (node, res2) \<leftarrow> ldlm_interval_detach lock res1;
           (case node of
              None \<Rightarrow> Some res2
            | Some n \<Rightarrow> do {
                root \<leftarrow> interval_erase (in_extent (li_node (res_intervals res2 n))) (lit_root (itree_at res2 idx));
                let res3 = upd_itree idx (\<lambda>t. t\<lparr>lit_root := root\<rparr>) res2;
                let res4 = upd_interval n (\<lambda>v. v\<lparr>li_node := (li_node v)\<lparr>in_intree := False\<rparr>\<rparr>) res3;
                ldlm_interval_free (Some n) res4;
                Some res4
              })
         })"

section \<open>The skip lists of the granted queue\<close>

record sl_insert_point =
  res_link :: "nat option"
  mode_link :: nat
  policy_link :: nat

text \<open>
  The inner loop of \<open>search_granted_lock\<close>, over the policy groups of the mode group that ends at
  \<open>mode_end\<close>.
\<close>

partial_function (option) search_policy_loop ::
  "ldlm_resource \<Rightarrow> nat \<Rightarrow> nat \<Rightarrow> nat \<Rightarrow> sl_insert_point option" where
  "search_policy_loop res req mode_end lock =
    (let policy_end = lprev (sl_policy res) lock in
     if l_inodebits (res_locks res lock) = l_inodebits (res_locks res req)
     then Some \<lparr>res_link = Some policy_end, mode_link = policy_end, policy_link = policy_end\<rparr>
     else if policy_end = mode_end
     then Some \<lparr>res_link = Some mode_end, mode_link = mode_end, policy_link = req\<rparr>
     else do {
       rest \<leftarrow> list_after (lr_granted res) policy_end;
       case rest of [] \<Rightarrow> None | lock' # _ \<Rightarrow> search_policy_loop res req mode_end lock'
     })"

partial_function (option) search_granted_loop ::
  "ldlm_resource \<Rightarrow> nat \<Rightarrow> nat list \<Rightarrow> sl_insert_point option" where
  "search_granted_loop res req rest =
    (case rest of
       [] \<Rightarrow> Some \<lparr>res_link = (if lr_granted res = [] then None else Some (last (lr_granted res))),
                  mode_link = req, policy_link = req\<rparr>
     | lock # _ \<Rightarrow>
         let mode_end = lprev (sl_mode res) lock in
         if l_req_mode (res_locks res lock) \<noteq> l_req_mode (res_locks res req) then do {
           rest' \<leftarrow> list_after (lr_granted res) mode_end;
           search_granted_loop res req rest'
         }
         else if lr_type res = LDLM_PLAIN
         then Some \<lparr>res_link = Some mode_end, mode_link = mode_end, policy_link = req\<rparr>
         else if lr_type res = LDLM_IBITS then search_policy_loop res req mode_end lock
         else None)"

definition search_granted_lock :: "ldlm_resource \<Rightarrow> nat \<Rightarrow> sl_insert_point option" where
  "search_granted_lock res req = search_granted_loop res req (lr_granted res)"

definition ldlm_granted_list_add_lock :: "nat \<Rightarrow> sl_insert_point \<Rightarrow> ldlm_resource \<Rightarrow> ldlm_resource option" where
  "ldlm_granted_list_add_lock lock prev res =
    (if l_destroyed (res_locks res lock) then Some res
     else do {
       lassert (\<not> res_linked res lock);
       lassert (cfs_list_empty lock (sl_mode res));
       lassert (cfs_list_empty lock (sl_policy res));
       granted \<leftarrow> list_insert_after lock (res_link prev) (lr_granted res);
       Some (res\<lparr>lr_granted := granted,
                 sl_mode := cfs_list_add lock (mode_link prev) (sl_mode res),
                 sl_policy := cfs_list_add lock (policy_link prev) (sl_policy res)\<rparr>)
     })"

definition ldlm_grant_lock_with_skiplist :: "nat \<Rightarrow> ldlm_resource \<Rightarrow> ldlm_resource option" where
  "ldlm_grant_lock_with_skiplist lock res = do {
     lassert (l_req_mode (res_locks res lock) = l_granted_mode (res_locks res lock));
     prev \<leftarrow> search_granted_lock res lock;
     ldlm_granted_list_add_lock lock prev res
   }"

definition ldlm_unlink_lock_skiplist :: "nat \<Rightarrow> ldlm_resource \<Rightarrow> ldlm_resource" where
  "ldlm_unlink_lock_skiplist req res =
    (if lr_type res \<noteq> LDLM_PLAIN \<and> lr_type res \<noteq> LDLM_IBITS then res
     else res\<lparr>sl_policy := cfs_list_del_init req (sl_policy res),
              sl_mode := cfs_list_del_init req (sl_mode res)\<rparr>)"

section \<open>Granting and unlinking\<close>

text \<open>The locks that the pool of the namespace counts; the rest of the pool is not modelled.\<close>

definition ldlm_pool_add :: "ldlm_resource \<Rightarrow> ldlm_resource" where
  "ldlm_pool_add res =
    (if lr_type res = LDLM_FLOCK then res else res\<lparr>pl_granted := pl_granted res + 1\<rparr>)"

definition ldlm_pool_del :: "ldlm_resource \<Rightarrow> ldlm_resource option" where
  "ldlm_pool_del res =
    (if lr_type res = LDLM_FLOCK then Some res
     else do {
       lassert (pl_granted res > 0);
       Some (res\<lparr>pl_granted := pl_granted res - 1\<rparr>)
     })"

definition ldlm_grant_lock ::
  "nat \<Rightarrow> nat list option \<Rightarrow> ldlm_resource \<Rightarrow> (nat list option \<times> ldlm_resource) option" where
  "ldlm_grant_lock lock work_list res = do {
     let res1 = upd_lock lock (\<lambda>l. l\<lparr>l_granted_mode := l_req_mode l\<rparr>) res;
     res2 \<leftarrow> (if lr_type res1 = LDLM_PLAIN \<or> lr_type res1 = LDLM_IBITS then ldlm_grant_lock_with_skiplist lock res1
              else if lr_type res1 = LDLM_EXTENT then ldlm_extent_add_lock res1 lock
              else ldlm_resource_add_lock res1 Granted lock);
     let res3 = (if l_granted_mode (res_locks res2 lock) < lr_most_restr res2
                 then res2\<lparr>lr_most_restr := l_granted_mode (res_locks res2 lock)\<rparr> else res2);
     (work_list, res4) \<leftarrow> (case work_list of
         Some wl \<Rightarrow> if l_completion_ast (res_locks res3 lock)
                    then map_option (apfst Some) (ldlm_add_ast_work_item lock None wl res3)
                    else Some (Some wl, res3)
       | None \<Rightarrow> Some (None, res3));
     Some (work_list, ldlm_pool_add res4)
   }"

definition ldlm_resource_unlink_lock :: "nat \<Rightarrow> ldlm_resource \<Rightarrow> ldlm_resource option" where
  "ldlm_resource_unlink_lock lock res = do {
     res1 \<leftarrow> (if lr_type res = LDLM_IBITS \<or> lr_type res = LDLM_PLAIN then Some (ldlm_unlink_lock_skiplist lock res)
              else if lr_type res = LDLM_EXTENT then ldlm_extent_unlink_lock lock res
              else Some res);
     Some (res1\<lparr>lr_granted := removeAll lock (lr_granted res1),
                lr_converting := removeAll lock (lr_converting res1),
                lr_waiting := removeAll lock (lr_waiting res1)\<rparr>)
   }"

text \<open>The result tells whether this is the first call for the lock.\<close>

definition ldlm_lock_destroy_internal :: "nat \<Rightarrow> ldlm_resource \<Rightarrow> (bool \<times> ldlm_resource) option" where
  "ldlm_lock_destroy_internal lock res = do {
     lassert (l_readers (res_locks res lock) = 0 \<and> l_writers (res_locks res lock) = 0);
     lassert (\<not> res_linked res lock);
     if l_destroyed (res_locks res lock) then do {
       lassert (\<not> l_lru (res_locks res lock));
       Some (False, res)
     }
     else Some (True, upd_lock lock (\<lambda>l. l\<lparr>l_destroyed := True, l_lru := False\<rparr>) res)
   }"

definition ldlm_lock_destroy_nolock :: "nat \<Rightarrow> ldlm_resource \<Rightarrow> ldlm_resource option" where
  "ldlm_lock_destroy_nolock lock res = map_option snd (ldlm_lock_destroy_internal lock res)"

end
