(* ===== verification/LdlmSkip.thy ===== *)
theory LdlmSkip
  imports LdlmLock
begin

text \<open>
  The skip lists of the granted queue of plain and inode-bits locks: the queue is a sequence of
  mode groups, a mode group is a sequence of policy groups, the locks of a mode group form a ring
  of \<open>l_sl_mode\<close> links in the order of the queue and the locks of a policy group a ring of
  \<open>l_sl_policy\<close> links. The theory shows that the insertion point that \<open>search_granted_lock\<close> finds, the
  insertion and the removal keep this, so that the search and the loops over the groups end.
\<close>

section \<open>Rings\<close>

fun linked :: "links \<Rightarrow> nat list \<Rightarrow> bool" where
  "linked L (x # y # zs) = (lnext L x = y \<and> lprev L y = x \<and> linked L (y # zs))"
| "linked L xs = True"

definition ring :: "links \<Rightarrow> nat list \<Rightarrow> bool" where
  "ring L xs \<longleftrightarrow> xs \<noteq> [] \<and> distinct xs \<and> linked L (xs @ [hd xs])"

lemma linked_append: "linked L (xs @ x # ys) \<longleftrightarrow> linked L (xs @ [x]) \<and> linked L (x # ys)"
  by (induction L xs rule: linked.induct) auto

lemma butlast_last: "xs \<noteq> [] \<Longrightarrow> butlast xs @ last xs # zs = xs @ zs"
  by (induction xs) auto

lemma linked_frame:
  "\<lbrakk>linked L xs; \<And>x. x \<in> set (butlast xs) \<Longrightarrow> lnext L' x = lnext L x; \<And>x. x \<in> set (tl xs) \<Longrightarrow> lprev L' x = lprev L x\<rbrakk> \<Longrightarrow>
   linked L' xs"
  by (induction L xs rule: linked.induct) (auto split: if_splits)

lemma ring_rotate: "ring L (xs @ ys) \<longleftrightarrow> ring L (ys @ xs)"
proof -
  have *: "ring L (xs @ ys) \<Longrightarrow> ring L (ys @ xs)" for xs ys
  proof (cases "xs = [] \<or> ys = []")
    case False
    assume r: "ring L (xs @ ys)"
    obtain x xs' y ys' where xy: "xs = x # xs'" "ys = y # ys'" using False by (auto simp: neq_Nil_conv)
    have "linked L ((x # xs') @ y # ys' @ [x])" using r xy by (simp add: ring_def)
    then have "linked L ((x # xs') @ [y])" "linked L ((y # ys') @ [x])" using linked_append [of L "x # xs'" y "ys' @ [x]"] by auto
    then have "linked L ((y # ys') @ x # xs' @ [y])" using linked_append [of L "y # ys'" x "xs' @ [y]"] by simp
    then show ?thesis using r xy by (auto simp: ring_def)
  qed auto
  show ?thesis using * by blast
qed

lemma ring_ends: assumes "ring L xs" shows "lnext L (last xs) = hd xs \<and> lprev L (hd xs) = last xs"
proof -
  have "linked L (butlast xs @ last xs # [hd xs])" using assms by (simp add: ring_def butlast_last)
  then show ?thesis using linked_append [of L "butlast xs" "last xs" "[hd xs]"] by simp
qed

lemma ring_self: "ring L [x] \<longleftrightarrow> lnext L x = x \<and> lprev L x = x"
  by (auto simp: ring_def)

lemma ring_frame: "\<lbrakk>ring L xs; \<And>x. x \<in> set xs \<Longrightarrow> lnext L' x = lnext L x \<and> lprev L' x = lprev L x\<rbrakk> \<Longrightarrow> ring L' xs"
  unfolding ring_def
  by (cases xs) (auto intro!: linked_frame [of L] dest: in_set_butlastD simp: butlast_append split: if_splits)

lemmas list_ops_defs = cfs_list_add_def list_add_between_def cfs_list_del_init_def list_del_between_def Let_def

lemma ring_add_last: assumes "ring L xs" "new \<notin> set xs" shows "ring (cfs_list_add new (last xs) L) (xs @ [new])"
proof -
  let ?L = "cfs_list_add new (last xs) L"
  obtain x xs' where x: "xs = x # xs'" using assms(1) by (auto simp: ring_def neq_Nil_conv)
  have d: "distinct xs" "xs \<noteq> []" using assms(1) by (auto simp: ring_def)
  have e: "lnext L (last xs) = hd xs" "lprev L (hd xs) = last xs" using ring_ends [OF assms(1)] by auto
  have "linked L (butlast xs @ last xs # [hd xs])" using assms(1) by (simp add: ring_def butlast_last)
  then have l: "linked L xs" using linked_append [of L "butlast xs" "last xs" "[hd xs]"] d(2) by simp
  have "linked ?L xs"
  proof (rule linked_frame [OF l])
    fix y assume "y \<in> set (butlast xs)"
    then have "y \<noteq> last xs" "y \<noteq> new" using d assms(2) by (metis append_butlast_last_id distinct_append IntI list.set_intros(1) empty_iff, auto dest: in_set_butlastD)
    then show "lnext ?L y = lnext L y" by (simp add: list_ops_defs)
  next
    fix y assume "y \<in> set (tl xs)"
    then have "y \<noteq> hd xs" "y \<noteq> new" using d assms(2) x by auto
    then show "lprev ?L y = lprev L y" using e by (simp add: list_ops_defs)
  qed
  then have "linked ?L (butlast xs @ last xs # [new, hd xs])"
    using d assms(2) e linked_append [of ?L "butlast xs" "last xs" "[new, hd xs]"] x by (auto simp: list_ops_defs)
  then show ?thesis using d assms(2) x by (auto simp: ring_def butlast_last)
qed

lemma ring_del_last: assumes "ring L (xs @ [x])" "xs \<noteq> []" shows "ring (cfs_list_del_init x L) xs"
proof -
  let ?L = "cfs_list_del_init x L"
  have d: "distinct xs" "x \<notin> set xs" using assms(1) by (auto simp: ring_def)
  have l0: "linked L (butlast xs @ last xs # [x, hd xs])" using assms by (simp add: ring_def butlast_last)
  then have l: "linked L xs" "lnext L (last xs) = x" "lprev L x = last xs" "lnext L x = hd xs" "lprev L (hd xs) = x"
    using linked_append [of L "butlast xs" "last xs" "[x, hd xs]"] assms(2) by auto
  have h: "hd xs \<in> set xs" "last xs \<in> set xs" using assms(2) by auto
  have "linked ?L xs"
  proof (rule linked_frame [OF l(1)])
    fix y assume "y \<in> set (butlast xs)"
    then have "y \<noteq> last xs" "y \<noteq> x" using d assms(2) by (metis append_butlast_last_id distinct_append IntI list.set_intros(1) empty_iff, auto dest: in_set_butlastD)
    then show "lnext ?L y = lnext L y" using l by (simp add: list_ops_defs)
  next
    fix y assume "y \<in> set (tl xs)"
    then have "y \<noteq> hd xs" "y \<noteq> x" using d assms(2) by (cases xs; auto)+
    then show "lprev ?L y = lprev L y" using l by (simp add: list_ops_defs)
  qed
  moreover have "lnext ?L (last xs) = hd xs" "lprev ?L (hd xs) = last xs" using l h d by (auto simp: list_ops_defs)
  ultimately have "linked ?L (butlast xs @ last xs # [hd xs])"
    using linked_append [of ?L "butlast xs" "last xs" "[hd xs]"] assms(2) by simp
  then show ?thesis using d assms(2) by (simp add: ring_def butlast_last)
qed

lemma ring_insert: assumes "ring L (xs @ ys)" "xs \<noteq> []" "new \<notin> set (xs @ ys)"
  shows "ring (cfs_list_add new (last xs) L) (xs @ new # ys)"
proof -
  have "ring L (ys @ xs)" using assms(1) ring_rotate by blast
  then have "ring (cfs_list_add new (last xs) L) (ys @ xs @ [new])"
    using ring_add_last [of L "ys @ xs" new] assms(2,3) by auto
  then show ?thesis using ring_rotate [of _ ys "xs @ [new]"] by simp
qed

lemma ring_delete: assumes "ring L (xs @ x # ys)" "xs @ ys \<noteq> []" shows "ring (cfs_list_del_init x L) (xs @ ys)"
proof -
  have "ring L ((ys @ xs) @ [x])" using assms(1) ring_rotate [of L "xs @ [x]" ys] by simp
  then have "ring (cfs_list_del_init x L) (ys @ xs)" using ring_del_last assms(2) by blast
  then show ?thesis using ring_rotate by blast
qed

lemma ring_neighbours: assumes "ring L xs" "x \<in> set xs" shows "lnext L x \<in> set xs \<and> lprev L x \<in> set xs"
proof -
  obtain as bs where s: "xs = as @ x # bs" using assms(2) by (meson split_list)
  then have r: "ring L ((x # bs) @ as)" "ring L ((bs @ as) @ [x])"
    using assms(1) ring_rotate [of L as "x # bs"] ring_rotate [of L "as @ [x]" bs] by auto
  show ?thesis using ring_ends [OF r(1)] ring_ends [OF r(2)] s 
    by (auto simp: last_append hd_append split: if_splits) 
qed

text \<open>
  The links of one kind hold the groups \<open>P\<close>: every group is a ring, in its order, and a lock of
  no group is linked to itself only.
\<close>

definition rings :: "links \<Rightarrow> nat list list \<Rightarrow> bool" where
  "rings L P \<longleftrightarrow> distinct (concat P) \<and> (\<forall>g \<in> set P. ring L g) \<and> (\<forall>i. i \<notin> set (concat P) \<longrightarrow> ring L [i])"

lemma add_frame:
  assumes "ring L g" "xs \<noteq> []" "set xs \<subseteq> set g" "z \<notin> set g" "z \<noteq> new"
  shows "lnext (cfs_list_add new (last xs) L) z = lnext L z \<and> lprev (cfs_list_add new (last xs) L) z = lprev L z"
proof -
  have "last xs \<in> set g" using assms(2,3) last_in_set by blast
  then have "lnext L (last xs) \<in> set g" using ring_neighbours [OF assms(1)] by blast
  then show ?thesis using \<open>last xs \<in> set g\<close> assms(4,5) by (auto simp: list_ops_defs)
qed

lemma del_frame:
  assumes "ring L g" "x \<in> set g" "z \<notin> set g"
  shows "lnext (cfs_list_del_init x L) z = lnext L z \<and> lprev (cfs_list_del_init x L) z = lprev L z"
  using ring_neighbours [OF assms(1,2)] assms(2,3) by (auto simp: list_ops_defs)

lemma rings_insert:
  assumes r: "rings L (A @ (xs @ ys) # D)" and "xs \<noteq> []" and new: "new \<notin> set (concat (A @ (xs @ ys) # D))"
  shows "rings (cfs_list_add new (last xs) L) (A @ (xs @ new # ys) # D)"
proof -
  let ?L = "cfs_list_add new (last xs) L"
  have g: "ring L (xs @ ys)" using r by (simp add: rings_def)
  have f: "ring L zs \<Longrightarrow> set zs \<inter> set (xs @ ys) = {} \<Longrightarrow> new \<notin> set zs \<Longrightarrow> ring ?L zs" for zs
    by (rule ring_frame, assumption, rule add_frame [OF g \<open>xs \<noteq> []\<close>]) auto
  have "ring ?L (xs @ new # ys)" using ring_insert [OF g \<open>xs \<noteq> []\<close>] new by simp
  moreover have "ring ?L h" if "h \<in> set A \<union> set D" for h
    using that r new by (intro f) (auto simp: rings_def)
  moreover have "ring ?L [i]" if "i \<notin> set (concat (A @ (xs @ new # ys) # D))" for i
    using that r by (intro f) (auto simp: rings_def)
  ultimately show ?thesis using r new by (auto simp: rings_def)
qed

lemma ring_add_self: "ring L [x] \<Longrightarrow> cfs_list_add x x L = L"
  by (simp add: ring_self list_ops_defs fun_upd_idem)

lemma rings_new: "\<lbrakk>rings L (A @ D); new \<notin> set (concat (A @ D))\<rbrakk> \<Longrightarrow> rings (cfs_list_add new new L) (A @ [new] # D)"
  using ring_add_self [of L new] by (auto simp: rings_def)

lemma ring_del_self: "ring L [x] \<Longrightarrow> cfs_list_del_init x L = L"
  by (simp add: ring_self list_ops_defs fun_upd_idem)

text \<open>The groups without a lock.\<close>

definition cut :: "'a \<Rightarrow> 'a list list \<Rightarrow> 'a list list" where
  "cut x P = filter (\<lambda>g. g \<noteq> []) (map (removeAll x) P)"

lemma concat_cut: "concat (cut x P) = removeAll x (concat P)"
  by (induction P) (auto simp: cut_def)

lemma cut_append: "cut x (P @ Q) = cut x P @ cut x Q"
  by (simp add: cut_def)

lemma cut_absent: "\<lbrakk>x \<notin> set (concat P); [] \<notin> set P\<rbrakk> \<Longrightarrow> cut x P = P"
  by (induction P) (auto simp: cut_def)

lemma rings_del: assumes r: "rings L P" shows "rings (cfs_list_del_init x L) (cut x P)"
proof (cases "x \<in> set (concat P)")
  case False
  moreover have "[] \<notin> set P" using r by (auto simp: rings_def ring_def)
  moreover have "ring L [x]" using r False by (auto simp: rings_def)
  ultimately show ?thesis using r by (simp add: cut_absent ring_del_self)
next
  case True
  let ?L = "cfs_list_del_init x L"
  obtain A g D where P: "P = A @ g # D" and "x \<in> set g" using True by (auto dest: split_list)
  then obtain xs ys where s: "g = xs @ x # ys" by (meson split_list)
  have g: "ring L g" using r P by (simp add: rings_def)
  have f: "ring L zs \<Longrightarrow> set zs \<inter> set g = {} \<Longrightarrow> ring ?L zs" for zs
    by (rule ring_frame, assumption, rule del_frame [OF g \<open>x \<in> set g\<close>]) auto
  have ne: "[] \<notin> set A" "[] \<notin> set D" "x \<notin> set xs" "x \<notin> set ys" "x \<notin> set (concat A)" "x \<notin> set (concat D)"
    using r P s by (auto simp: rings_def ring_def)
  have c: "cut x P = A @ (if xs @ ys = [] then [] else [xs @ ys]) @ D"
    using ne cut_absent [of x A] cut_absent [of x D] unfolding P s cut_append [of x A]
    by (simp add: cut_def)
  have 1: "xs @ ys \<noteq> [] \<Longrightarrow> ring ?L (xs @ ys)" using ring_delete g s by blast
  have 2: "ring ?L h" if "h \<in> set A \<union> set D" for h
    using that r P by (intro f) (auto simp: rings_def)
  have "ring ?L [i]" if "i \<notin> set (concat P)" for i
    using that r P by (intro f) (auto simp: rings_def)
  moreover have "ring ?L [x]" by (simp add: ring_self list_ops_defs)
  ultimately have "ring ?L [i]" if "i \<notin> set (concat (cut x P))" for i using that unfolding concat_cut by (cases "i = x") auto
  moreover have "distinct (concat (cut x P))" using r by (auto simp: concat_cut rings_def distinct_removeAll)
  moreover have "\<forall>h \<in> set (cut x P). ring ?L h" using 1 2 unfolding c by (auto split: if_splits)
  ultimately show ?thesis unfolding rings_def by blast
qed


section \<open>The groups of the granted queue\<close>

definition same :: "('a \<Rightarrow> 'b) \<Rightarrow> 'a list \<Rightarrow> bool" where
  "same f xs \<longleftrightarrow> (\<exists>c. \<forall>x \<in> set xs. f x = c)"

definition groups_ok :: "ldlm_resource \<Rightarrow> nat list list list \<Rightarrow> bool" where
  "groups_ok res gs \<longleftrightarrow>
    lr_granted res = concat (map concat gs)
    \<and> rings (sl_mode res) (map concat gs)
    \<and> rings (sl_policy res) (concat gs)
    \<and> (\<forall>mg \<in> set gs. same (\<lambda>i. l_req_mode (res_locks res i)) (concat mg))
    \<and> (\<forall>pg \<in> set (concat gs). same (\<lambda>i. l_inodebits (res_locks res i)) pg)"

definition skip_ok :: "ldlm_resource \<Rightarrow> bool" where
  "skip_ok res \<longleftrightarrow> (\<exists>gs. groups_ok res gs)"

lemma same_insert: "\<lbrakk>same f (xs @ ys); x \<in> set (xs @ ys); f new = f x\<rbrakk> \<Longrightarrow> same f (xs @ new # ys)"
  unfolding same_def by auto

lemma same_subset: "\<lbrakk>same f xs; set ys \<subseteq> set xs\<rbrakk> \<Longrightarrow> same f ys"
  unfolding same_def by blast

lemma same_cong: "\<lbrakk>same f xs; \<And>x. x \<in> set xs \<Longrightarrow> g x = f x\<rbrakk> \<Longrightarrow> same g xs"
  unfolding same_def by auto

lemma cut_removeAll: "cut x mg = [] \<longleftrightarrow> removeAll x (concat mg) = []"
  by (induction mg) (auto simp: cut_def)

definition cut2 :: "'a \<Rightarrow> 'a list list list \<Rightarrow> 'a list list list" where
  "cut2 x gs = filter (\<lambda>mg. mg \<noteq> []) (map (cut x) gs)"

lemma concat_cut2: "concat (cut2 x gs) = cut x (concat gs)"
  by (induction gs) (auto simp: cut2_def cut_append, simp add: cut_def)

lemma map_concat_cut2: "map concat (cut2 x gs) = cut x (map concat gs)"
proof (induction gs)
  case (Cons mg gs)
  have "cut x (map concat (mg # gs)) = (if removeAll x (concat mg) = [] then [] else [removeAll x (concat mg)]) @ cut x (map concat gs)"
    by (simp add: cut_def)
  moreover have "cut2 x (mg # gs) = (if cut x mg = [] then [] else [cut x mg]) @ cut2 x gs"
    by (simp add: cut2_def)
  ultimately show ?case using Cons by (simp add: cut_removeAll concat_cut)
qed (simp_all add: cut_def cut2_def)

lemma set_cut: "g \<in> set (cut x P) \<Longrightarrow> \<exists>h \<in> set P. g = removeAll x h"
  by (auto simp: cut_def)

lemma groups_ok_unlink:
  assumes "groups_ok res gs"
  shows "groups_ok (res\<lparr>lr_granted := removeAll i (lr_granted res), lr_converting := c, lr_waiting := w,
    sl_mode := cfs_list_del_init i (sl_mode res), sl_policy := cfs_list_del_init i (sl_policy res)\<rparr>) (cut2 i gs)"
proof -
  have "removeAll i (lr_granted res) = concat (map concat (cut2 i gs))"
    using assms by (simp add: groups_ok_def map_concat_cut2 concat_cut)
  moreover have "rings (cfs_list_del_init i (sl_mode res)) (map concat (cut2 i gs))"
    "rings (cfs_list_del_init i (sl_policy res)) (concat (cut2 i gs))"
    using assms rings_del by (auto simp: groups_ok_def map_concat_cut2 concat_cut2)
  moreover have "same (\<lambda>i. l_req_mode (res_locks res i)) (concat mg)" if mg: "mg \<in> set (cut2 i gs)" for mg
  proof -
    obtain mg' where "mg' \<in> set gs" "mg = cut i mg'" using mg by (auto simp: cut2_def)
    then show ?thesis using assms by (auto simp: groups_ok_def concat_cut intro: same_subset)
  qed
  moreover have "same (\<lambda>i. l_inodebits (res_locks res i)) pg" if pg: "pg \<in> set (concat (cut2 i gs))" for pg
  proof -
    obtain h where "h \<in> set (concat gs)" "pg = removeAll i h" using pg set_cut unfolding concat_cut2 by metis
    then have "same (\<lambda>i. l_inodebits (res_locks res i)) h" "set pg \<subseteq> set h" using assms by (auto simp: groups_ok_def)
    then show ?thesis by (rule same_subset)
  qed
  ultimately show ?thesis by (auto simp: groups_ok_def)
qed

lemma groups_ok_cong:
  assumes "groups_ok res gs" "lr_granted res' = lr_granted res" "sl_mode res' = sl_mode res" "sl_policy res' = sl_policy res"
    "\<And>i. i \<in> set (lr_granted res) \<Longrightarrow> l_req_mode (res_locks res' i) = l_req_mode (res_locks res i)
      \<and> l_inodebits (res_locks res' i) = l_inodebits (res_locks res i)"
  shows "groups_ok res' gs"
proof -
  have g: "set (concat mg) \<subseteq> set (lr_granted res)" if "mg \<in> set gs" for mg using assms(1) that by (auto simp: groups_ok_def)
  have "same (\<lambda>i. l_req_mode (res_locks res' i)) (concat mg)" if mg: "mg \<in> set gs" for mg
  proof (rule same_cong)
    show "same (\<lambda>i. l_req_mode (res_locks res i)) (concat mg)" using assms(1) mg by (simp add: groups_ok_def)
  qed (use g [OF mg] assms(5) in blast)
  moreover have "same (\<lambda>i. l_inodebits (res_locks res' i)) pg" if pg: "mg \<in> set gs" "pg \<in> set mg" for mg pg
  proof (rule same_cong)
    show "same (\<lambda>i. l_inodebits (res_locks res i)) pg" using assms(1) pg by (simp add: groups_ok_def)
    show "l_inodebits (res_locks res' i) = l_inodebits (res_locks res i)" if "i \<in> set pg" for i
    proof -
      have "i \<in> set (concat mg)" using that pg(2) by auto
      then show ?thesis using g [OF pg(1)] assms(5) by blast
    qed
  qed
  ultimately show ?thesis using assms(1-4) by (simp add: groups_ok_def)
qed

section \<open>Insertion\<close>

lemma list_after_append: "x \<notin> set xs \<Longrightarrow> list_after (xs @ x # ys) x = Some ys"
  by (induction xs) auto

lemma last_notin_butlast: "\<lbrakk>distinct xs; xs \<noteq> []\<rbrakk> \<Longrightarrow> last xs \<notin> set (butlast xs)"
  using append_butlast_last_id [of xs] distinct_append [of "butlast xs" "[last xs]"] by auto

lemma list_after_last: assumes "distinct (xs @ ys @ zs)" "ys \<noteq> []" shows "list_after (xs @ ys @ zs) (last ys) = Some zs"
proof -
  have "last ys \<notin> set (xs @ butlast ys)" using assms last_notin_butlast [of ys] last_in_set [of ys] by auto
  then show ?thesis using list_after_append [of "last ys" "xs @ butlast ys" zs] assms(2) by (simp add: butlast_last)
qed

lemma list_insert_after_append:
  "\<lbrakk>x \<notin> set xs\<rbrakk> \<Longrightarrow> list_insert_after new (Some x) (xs @ x # ys) = Some (xs @ x # new # ys)"
  by (induction xs) auto

lemma list_insert_after_last:
  assumes "distinct (xs @ ys)" "xs \<noteq> []" shows "list_insert_after new (Some (last xs)) (xs @ ys) = Some (xs @ new # ys)"
proof -
  have "last xs \<notin> set (butlast xs)" using assms last_notin_butlast by auto
  then have "list_insert_after new (Some (last xs)) (butlast xs @ last xs # ys) = Some (butlast xs @ last xs # new # ys)"
    by (rule list_insert_after_append)
  then show ?thesis using butlast_last [OF assms(2)] by simp
qed


text \<open>A point where a lock can be inserted: the queue and the groups stay well-formed.\<close>

definition good_point :: "ldlm_resource \<Rightarrow> nat \<Rightarrow> sl_insert_point \<Rightarrow> bool" where
  "good_point res req p \<longleftrightarrow> (\<exists>ys zs. lr_granted res = ys @ zs
    \<and> list_insert_after req (res_link p) (lr_granted res) = Some (ys @ req # zs)
    \<and> skip_ok (res\<lparr>lr_granted := ys @ req # zs, sl_mode := cfs_list_add req (mode_link p) (sl_mode res),
        sl_policy := cfs_list_add req (policy_link p) (sl_policy res)\<rparr>))"

lemma groups_distinct: "groups_ok res gs \<Longrightarrow> distinct (lr_granted res)"
  by (auto simp: groups_ok_def rings_def)

lemma groups_nonempty: "\<lbrakk>groups_ok res gs; mg \<in> set gs\<rbrakk> \<Longrightarrow> concat mg \<noteq> [] \<and> [] \<notin> set mg"
  by (auto simp: groups_ok_def rings_def ring_def)

lemma good_point_end:
  assumes g: "groups_ok res gs" and req: "req \<notin> set (lr_granted res)"
  shows "good_point res req \<lparr>res_link = (if lr_granted res = [] then None else Some (last (lr_granted res))),
    mode_link = req, policy_link = req\<rparr>"
proof -
  have "groups_ok (res\<lparr>lr_granted := lr_granted res @ [req], sl_mode := cfs_list_add req req (sl_mode res),
    sl_policy := cfs_list_add req req (sl_policy res)\<rparr>) (gs @ [[[req]]])"
    using g req rings_new [of "sl_mode res" "map concat gs" "[]" req] rings_new [of "sl_policy res" "concat gs" "[]" req]
    by (auto simp: groups_ok_def same_def)
  moreover have "list_insert_after req (if lr_granted res = [] then None else Some (last (lr_granted res))) (lr_granted res)
    = Some (lr_granted res @ [req])"
    using list_insert_after_last [of "lr_granted res" "[]" req] groups_distinct [OF g] by simp
  ultimately show ?thesis unfolding good_point_def skip_ok_def by (intro exI [of _ "lr_granted res"] exI [of _ "[]"]) auto
qed

lemma good_point_mode:
  assumes g: "groups_ok res gs" and req: "req \<notin> set (lr_granted res)" and gs: "gs = A @ mg # D"
    and m: "x \<in> set (concat mg)" "l_req_mode (res_locks res x) = l_req_mode (res_locks res req)"
  shows "good_point res req \<lparr>res_link = Some (last (concat mg)), mode_link = last (concat mg), policy_link = req\<rparr>"
proof -
  let ?ys = "concat (map concat A) @ concat mg" and ?zs = "concat (map concat D)"
  have ne: "concat mg \<noteq> []" using m(1) by (metis empty_iff list.set(1))
  have l: "lr_granted res = ?ys @ ?zs" using g gs by (simp add: groups_ok_def)
  have "rings (cfs_list_add req (last (concat mg)) (sl_mode res)) (map concat (A @ (mg @ [[req]]) # D))"
    using rings_insert [of "sl_mode res" "map concat A" "concat mg" "[]" "map concat D" req] g req ne
    by (auto simp: groups_ok_def gs)
  moreover have "rings (cfs_list_add req req (sl_policy res)) (concat (A @ (mg @ [[req]]) # D))"
    using rings_new [of "sl_policy res" "concat A @ mg" "concat D" req] g req by (auto simp: groups_ok_def gs)
  moreover have "same (\<lambda>i. l_req_mode (res_locks res i)) (concat (mg @ [[req]]))"
    using same_insert [of "\<lambda>i. l_req_mode (res_locks res i)" "concat mg" "[]" x req] g m by (auto simp: groups_ok_def gs)
  ultimately have "groups_ok (res\<lparr>lr_granted := ?ys @ req # ?zs,
      sl_mode := cfs_list_add req (last (concat mg)) (sl_mode res), sl_policy := cfs_list_add req req (sl_policy res)\<rparr>)
    (A @ (mg @ [[req]]) # D)"
    using g by (auto simp: groups_ok_def gs) (auto simp: same_def)
  moreover have "list_insert_after req (Some (last (concat mg))) (lr_granted res) = Some (?ys @ req # ?zs)"
    using list_insert_after_last [of ?ys ?zs req] groups_distinct [OF g] ne
    unfolding l last_appendR [OF ne] by blast
  ultimately show ?thesis unfolding good_point_def skip_ok_def using l by (intro exI [of _ ?ys] exI [of _ ?zs]) auto
qed

lemma good_point_policy:
  assumes g: "groups_ok res gs" and req: "req \<notin> set (lr_granted res)" and gs: "gs = A @ (B @ pg # C) # D"
    and m: "x \<in> set pg" "l_req_mode (res_locks res x) = l_req_mode (res_locks res req)"
    "l_inodebits (res_locks res x) = l_inodebits (res_locks res req)"
  shows "good_point res req \<lparr>res_link = Some (last pg), mode_link = last pg, policy_link = last pg\<rparr>"
proof -
  let ?ys = "concat (map concat A) @ concat B @ pg" and ?zs = "concat C @ concat (map concat D)"
  have ne: "pg \<noteq> []" using m by auto
  have l: "lr_granted res = ?ys @ ?zs" using g gs by (simp add: groups_ok_def)
  have "rings (cfs_list_add req (last pg) (sl_mode res)) (map concat (A @ (B @ (pg @ [req]) # C) # D))"
    using rings_insert [of "sl_mode res" "map concat A" "concat B @ pg" "concat C" "map concat D" req] g req ne
    by (auto simp: groups_ok_def gs last_append)
  moreover have "rings (cfs_list_add req (last pg) (sl_policy res)) (concat (A @ (B @ (pg @ [req]) # C) # D))"
    using rings_insert [of "sl_policy res" "concat A @ B" pg "[]" "C @ concat D" req] g req ne by (auto simp: groups_ok_def gs)
  moreover have "same (\<lambda>i. l_req_mode (res_locks res i)) (concat (B @ (pg @ [req]) # C))"
    using same_insert [of "\<lambda>i. l_req_mode (res_locks res i)" "concat B @ pg" "concat C" x req] g m by (auto simp: groups_ok_def gs)
  moreover have "same (\<lambda>i. l_inodebits (res_locks res i)) (pg @ [req])"
    using same_insert [of "\<lambda>i. l_inodebits (res_locks res i)" pg "[]" x req] g m by (auto simp: groups_ok_def gs)
  ultimately have "groups_ok (res\<lparr>lr_granted := ?ys @ req # ?zs,
      sl_mode := cfs_list_add req (last pg) (sl_mode res), sl_policy := cfs_list_add req (last pg) (sl_policy res)\<rparr>)
    (A @ (B @ (pg @ [req]) # C) # D)"
    using g by (auto simp: groups_ok_def gs)
  moreover have "list_insert_after req (Some (last pg)) (lr_granted res) = Some (?ys @ req # ?zs)"
    using list_insert_after_last [of ?ys ?zs req] groups_distinct [OF g] ne unfolding l by (simp add: last_append)
  ultimately show ?thesis unfolding good_point_def skip_ok_def using l by (intro exI [of _ ?ys] exI [of _ ?zs]) auto
qed


lemma policy_loop_ok:
  assumes g: "groups_ok res gs" and req: "req \<notin> set (lr_granted res)"
  shows "\<lbrakk>gs = A @ (B @ pg # C) # D; l_req_mode (res_locks res (hd pg)) = l_req_mode (res_locks res req)\<rbrakk> \<Longrightarrow>
    \<exists>p. search_policy_loop res req (last (concat (B @ pg # C))) (hd pg) = Some p \<and> good_point res req p"
proof (induction C arbitrary: B pg)
  case (Cons pg' C)
  have r: "ring (sl_policy res) pg" "pg \<noteq> []" "pg' \<noteq> []"
    using g Cons.prems(1) by (auto simp: groups_ok_def rings_def ring_def)
  have pe: "lprev (sl_policy res) (hd pg) = last pg" using ring_ends [OF r(1)] by simp
  have l: "lr_granted res = (concat (map concat A) @ concat B) @ pg @ (pg' @ concat C @ concat (map concat D))"
    using g Cons.prems(1) by (simp add: groups_ok_def)
  have d: "distinct (lr_granted res)" using groups_distinct [OF g] .
  show ?case
  proof (cases "l_inodebits (res_locks res (hd pg)) = l_inodebits (res_locks res req)")
    case True
    then show ?thesis using good_point_policy [OF g req Cons.prems(1) _ Cons.prems(2)] r pe
      by (subst search_policy_loop.simps) (simp add: Let_def)
  next
    case False
    have me: "last (concat (B @ pg # pg' # C)) = last (pg' @ concat C)" using r by (simp add: last_append)
    have "last (pg' @ concat C) \<in> set (pg' @ concat C)" using r by (intro last_in_set) simp
    moreover have "set pg \<inter> set (pg' @ concat C) = {}" using d unfolding l by auto
    ultimately have ne: "last pg \<noteq> last (concat (B @ pg # pg' # C))" using last_in_set [OF r(2)] unfolding me by (metis disjoint_iff)
    have after: "list_after (lr_granted res) (last pg) = Some (pg' @ concat C @ concat (map concat D))"
      using list_after_last [OF d [unfolded l] r(2)] unfolding l .
    have hd: "l_req_mode (res_locks res (hd pg')) = l_req_mode (res_locks res req)"
    proof -
      have "same (\<lambda>i. l_req_mode (res_locks res i)) (concat (B @ pg # pg' # C))"
        using g Cons.prems(1) by (simp add: groups_ok_def)
      moreover have "hd pg \<in> set (concat (B @ pg # pg' # C))" "hd pg' \<in> set (concat (B @ pg # pg' # C))" using r by auto
      ultimately show ?thesis using Cons.prems(2) unfolding same_def by metis
    qed
    have "\<exists>p. search_policy_loop res req (last (concat ((B @ [pg]) @ pg' # C))) (hd pg') = Some p \<and> good_point res req p"
      by (rule Cons.IH) (use Cons.prems hd in auto)
    then obtain p where p: "search_policy_loop res req (last (concat (B @ pg # pg' # C))) (hd pg') = Some p" "good_point res req p"
      by auto
    obtain lock rest where "pg' = lock # rest" using r(3) by (cases pg') auto
    then have "search_policy_loop res req (last (concat (B @ pg # pg' # C))) (hd pg) = Some p"
      using False ne p(1) by (subst search_policy_loop.simps) (simp add: Let_def pe after del: concat.simps concat_append)
    then show ?thesis using p(2) by blast
  qed
next
  case Nil
  have r: "ring (sl_policy res) pg" "pg \<noteq> []"
    using g Nil.prems(1) by (auto simp: groups_ok_def rings_def ring_def)
  have pe: "lprev (sl_policy res) (hd pg) = last pg" using ring_ends [OF r(1)] by simp
  have me: "last (concat (B @ [pg])) = last pg" using r by simp
  show ?case
  proof (cases "l_inodebits (res_locks res (hd pg)) = l_inodebits (res_locks res req)")
    case True
    then show ?thesis using good_point_policy [OF g req Nil.prems(1) _ Nil.prems(2)] r pe
      by (subst search_policy_loop.simps) (simp add: Let_def)
  next
    case False
    have "good_point res req \<lparr>res_link = Some (last pg), mode_link = last pg, policy_link = req\<rparr>"
      using good_point_mode [OF g req Nil.prems(1) _ Nil.prems(2)] r me by simp
    then show ?thesis using False pe me
      by (subst search_policy_loop.simps) (simp add: Let_def)
  qed
qed

lemma search_loop_ok:
  assumes g: "groups_ok res gs" and req: "req \<notin> set (lr_granted res)" and ty: "lr_type res \<in> {LDLM_PLAIN, LDLM_IBITS}"
  shows "gs = A @ D \<Longrightarrow> \<exists>p. search_granted_loop res req (concat (map concat D)) = Some p \<and> good_point res req p"
proof (induction D arbitrary: A)
  case Nil
  then show ?case using good_point_end [OF g req] by (subst search_granted_loop.simps) simp
next
  case (Cons mg D)
  have r: "ring (sl_mode res) (concat mg)" using g Cons.prems by (auto simp: groups_ok_def rings_def)
  have ne: "concat mg \<noteq> []" "[] \<notin> set mg" using groups_nonempty [OF g] Cons.prems by auto
  then obtain pg C where mg: "mg = pg # C" "pg \<noteq> []" by (cases mg) auto
  obtain lock rest where lock: "concat mg = lock # rest" "hd pg = lock" using mg by (cases pg) auto
  have me: "lprev (sl_mode res) lock = last (concat mg)" using ring_ends [OF r] lock by simp
  have l: "lr_granted res = concat (map concat A) @ concat mg @ concat (map concat D)"
    using g Cons.prems by (simp add: groups_ok_def)
  have after: "list_after (lr_granted res) (last (concat mg)) = Some (concat (map concat D))"
    using list_after_last [of "concat (map concat A)" "concat mg"] groups_distinct [OF g] ne unfolding l by blast
  have split: "concat (map concat (mg # D)) = lock # rest @ concat (map concat D)" using lock by simp
  consider "l_req_mode (res_locks res lock) \<noteq> l_req_mode (res_locks res req)"
    | "l_req_mode (res_locks res lock) = l_req_mode (res_locks res req)" "lr_type res = LDLM_PLAIN"
    | "l_req_mode (res_locks res lock) = l_req_mode (res_locks res req)" "lr_type res = LDLM_IBITS"
    using ty by blast
  then show ?case
  proof cases
    case 1
    then show ?thesis using Cons.IH [of "A @ [mg]"] Cons.prems after me
      unfolding split by (subst search_granted_loop.simps) (simp add: Let_def)
  next
    case 2
    then show ?thesis using good_point_mode [OF g req Cons.prems, of lock] me lock
      unfolding split by (subst search_granted_loop.simps) (simp add: Let_def)
  next
    case 3
    then show ?thesis using policy_loop_ok [OF g req, of A "[]" pg C D] Cons.prems me lock mg
      unfolding split by (subst search_granted_loop.simps) (simp add: Let_def)
  qed
qed

lemma search_granted_lock_ok:
  assumes "skip_ok res" "req \<notin> set (lr_granted res)" "lr_type res \<in> {LDLM_PLAIN, LDLM_IBITS}"
  shows "\<exists>p. search_granted_lock res req = Some p \<and> good_point res req p"
proof -
  obtain gs where "groups_ok res gs" using assms(1) by (auto simp: skip_ok_def)
  then show ?thesis using search_loop_ok [of res gs req "[]" gs] assms
    by (simp add: search_granted_lock_def groups_ok_def)
qed


end
