(* ===== verification/LdlmProcess.thy ===== *)
theory LdlmProcess
  imports LdlmSkip
begin

text \<open>
  What the lock server does with plain and inode-bits locks: \<open>lustre/ldlm/ldlm_plain.c\<close>,
  \<open>lustre/ldlm/ldlm_inodebits.c\<close> and the parts of \<open>lustre/ldlm/ldlm_lock.c\<close> that enqueue, reprocess,
  cancel, convert and downgrade a lock.

  A function that gives up the lock of the resource is cut there: the part before the cut and
  the part after it are two definitions, and \<open>LdlmServer\<close> lets other threads run between them.
\<close>

section \<open>Comparing a lock with a queue\<close>

text \<open>\<open>cfs_list_for_each_entry(lock, head, l_sl_mode)\<close>: the links after \<open>head\<close> until it comes round.\<close>

definition add_item :: "nat \<Rightarrow> nat \<Rightarrow> nat list \<times> ldlm_resource \<Rightarrow> (nat list \<times> ldlm_resource) option" where
  "add_item req lock = (\<lambda>(work_list, res).
    if l_blocking_ast (res_locks res lock) then ldlm_add_ast_work_item lock (Some req) work_list res
    else Some (work_list, res))"

partial_function (option) add_ring_loop ::
  "links \<Rightarrow> nat \<Rightarrow> nat \<Rightarrow> nat \<Rightarrow> nat list \<times> ldlm_resource \<Rightarrow> (nat list \<times> ldlm_resource) option" where
  "add_ring_loop L req head lock st =
    (if lock = head then Some st
     else do { st \<leftarrow> add_item req lock st; add_ring_loop L req head (lnext L lock) st })"

definition add_ring :: "links \<Rightarrow> nat \<Rightarrow> nat \<Rightarrow> nat list \<times> ldlm_resource \<Rightarrow> (nat list \<times> ldlm_resource) option" where
  "add_ring L req lock st = do {
     st \<leftarrow> add_item req lock st;
     add_ring_loop L req lock (lnext L lock) st
   }"

partial_function (option) plain_compat_loop ::
  "res_queue \<Rightarrow> nat \<Rightarrow> nat list \<Rightarrow> int \<Rightarrow> nat list option \<Rightarrow> ldlm_resource \<Rightarrow> (int \<times> nat list option \<times> ldlm_resource) option" where
  "plain_compat_loop q req rest cmp work_list res =
    (case rest of
       [] \<Rightarrow> Some (cmp, work_list, res)
     | lock # _ \<Rightarrow>
         if req = lock then Some (cmp, work_list, res)
         else do {
           let tmp = lprev (sl_mode res) lock;
           if lockmode_compat (l_req_mode (res_locks res lock)) (l_req_mode (res_locks res req)) then do {
             rest' \<leftarrow> list_after (queue q res) tmp;
             plain_compat_loop q req rest' cmp work_list res
           }
           else case work_list of
             None \<Rightarrow> Some (0, work_list, res)
           | Some wl \<Rightarrow> do {
               (wl, res) \<leftarrow> add_ring (sl_mode res) req lock (wl, res);
               rest' \<leftarrow> list_after (queue q res) tmp;
               plain_compat_loop q req rest' 0 (Some wl) res
             }
         })"

definition ldlm_plain_compat_queue ::
  "res_queue \<Rightarrow> nat \<Rightarrow> nat list option \<Rightarrow> ldlm_resource \<Rightarrow> (int \<times> nat list option \<times> ldlm_resource) option" where
  "ldlm_plain_compat_queue q req work_list res = do {
     lockmode_verify (l_req_mode (res_locks res req));
     plain_compat_loop q req (queue q res) 1 work_list res
   }"

text \<open>
  The loop over the policy groups of one mode group returns from the function (\<open>Inl\<close>) or goes on
  after the last lock of the mode group (\<open>Inr\<close>).
\<close>

definition ibits_conflict :: "ldlm_resource \<Rightarrow> nat \<Rightarrow> nat \<Rightarrow> bool" where
  "ibits_conflict res lock req \<longleftrightarrow>
    l_inodebits (res_locks res lock) AND l_inodebits (res_locks res req) \<noteq> 0
    \<and> \<not> (l_req_mode (res_locks res lock) = LCK_COS
        \<and> l_client_cookie (res_locks res lock) = l_client_cookie (res_locks res req))"

partial_function (option) ibits_policy_loop ::
  "res_queue \<Rightarrow> nat \<Rightarrow> nat \<Rightarrow> nat \<Rightarrow> int \<Rightarrow> nat list option \<Rightarrow> ldlm_resource \<Rightarrow>
   (int \<times> nat list option \<times> ldlm_resource + int \<times> nat list option \<times> ldlm_resource) option" where
  "ibits_policy_loop q req mode_tail lock cmp work_list res = do {
     let tmp = lprev (sl_policy res) lock;
     if ibits_conflict res lock req \<and> work_list = None then Some (Inl (0, work_list, res))
     else do {
       (cmp, work_list, res) \<leftarrow>
         (if ibits_conflict res lock req then do {
            (wl, res) \<leftarrow> add_ring (sl_policy res) req lock (the work_list, res);
            Some (0, Some wl, res)
          }
          else Some (cmp, work_list, res));
       if tmp = mode_tail then Some (Inr (cmp, work_list, res))
       else do {
         rest \<leftarrow> list_after (queue q res) tmp;
         case rest of [] \<Rightarrow> None
         | lock' # _ \<Rightarrow> ibits_policy_loop q req mode_tail lock' cmp work_list res
       }
     }
   }"

partial_function (option) ibits_compat_loop ::
  "res_queue \<Rightarrow> nat \<Rightarrow> nat list \<Rightarrow> int \<Rightarrow> nat list option \<Rightarrow> ldlm_resource \<Rightarrow> (int \<times> nat list option \<times> ldlm_resource) option" where
  "ibits_compat_loop q req rest cmp work_list res =
    (case rest of
       [] \<Rightarrow> Some (cmp, work_list, res)
     | lock # _ \<Rightarrow>
         if req = lock then Some (cmp, work_list, res)
         else do {
           let mode_tail = lprev (sl_mode res) lock;
           if lockmode_compat (l_req_mode (res_locks res lock)) (l_req_mode (res_locks res req)) then do {
             rest' \<leftarrow> list_after (queue q res) mode_tail;
             ibits_compat_loop q req rest' cmp work_list res
           }
           else do {
             r \<leftarrow> ibits_policy_loop q req mode_tail lock cmp work_list res;
             case r of
               Inl ret \<Rightarrow> Some ret
             | Inr (cmp, work_list, res) \<Rightarrow> do {
                 rest' \<leftarrow> list_after (queue q res) mode_tail;
                 ibits_compat_loop q req rest' cmp work_list res
               }
           }
         })"

definition ldlm_inodebits_compat_queue ::
  "res_queue \<Rightarrow> nat \<Rightarrow> nat list option \<Rightarrow> ldlm_resource \<Rightarrow> (int \<times> nat list option \<times> ldlm_resource) option" where
  "ldlm_inodebits_compat_queue q req work_list res = do {
     lassert (l_inodebits (res_locks res req) \<noteq> 0);
     ibits_compat_loop q req (queue q res) 1 work_list res
   }"

section \<open>Processing a lock\<close>

datatype ldlm_iter = LDLM_ITER_CONTINUE | LDLM_ITER_STOP

text \<open>
  On the first enqueue a lock is granted, or it is on the waiting queue and the blocking callbacks
  of the list have to run with the resource unlocked.
\<close>

datatype enq_result = Enq_granted | Enq_ast "nat list"

type_synonym compat_fun =
  "res_queue \<Rightarrow> nat \<Rightarrow> nat list option \<Rightarrow> ldlm_resource \<Rightarrow> (int \<times> nat list option \<times> ldlm_resource) option"

text \<open>The code between the label \<open>restart\<close> and the unlocking, which both lock types share.\<close>

definition process_restart ::
  "compat_fun \<Rightarrow> nat \<Rightarrow> nat list \<Rightarrow> ldlm_resource \<Rightarrow> (enq_result \<times> ldlm_resource) option" where
  "process_restart compat_queue lock rpc_list res = do {
     (rc, rpc1, res) \<leftarrow> compat_queue Granted lock (Some rpc_list) res;
     (rc2, rpc2, res) \<leftarrow> compat_queue Waiting lock rpc1 res;
     if rc + rc2 \<noteq> 2 then do {
       res \<leftarrow> (if \<not> res_linked res lock then ldlm_resource_add_lock res Waiting lock else Some res);
       Some (Enq_ast (the rpc2), res)
     }
     else do {
       res \<leftarrow> ldlm_resource_unlink_lock lock res;
       (_, res) \<leftarrow> ldlm_grant_lock lock None res;
       Some (Enq_granted, res)
     }
   }"

text \<open>The code for \<open>first_enq\<close> zero.\<close>

definition process_again ::
  "compat_fun \<Rightarrow> nat \<Rightarrow> nat list \<Rightarrow> ldlm_resource \<Rightarrow> (ldlm_iter \<times> nat list \<times> ldlm_resource) option" where
  "process_again compat_queue lock work_list res = do {
     (rc, _, res) \<leftarrow> compat_queue Granted lock None res;
     if rc = 0 then Some (LDLM_ITER_STOP, work_list, res)
     else do {
       (rc, _, res) \<leftarrow> compat_queue Waiting lock None res;
       if rc = 0 then Some (LDLM_ITER_STOP, work_list, res)
       else do {
         res \<leftarrow> ldlm_resource_unlink_lock lock res;
         (wl, res) \<leftarrow> ldlm_grant_lock lock (Some work_list) res;
         Some (LDLM_ITER_CONTINUE, the wl, res)
       }
     }
   }"

definition ldlm_process_plain_lock_enq :: "nat \<Rightarrow> ldlm_resource \<Rightarrow> (enq_result \<times> ldlm_resource) option" where
  "ldlm_process_plain_lock_enq lock res = do {
     lassert (lr_converting res = []);
     process_restart ldlm_plain_compat_queue lock [] res
   }"

definition ldlm_process_plain_lock_reproc ::
  "nat \<Rightarrow> nat list \<Rightarrow> ldlm_resource \<Rightarrow> (ldlm_iter \<times> nat list \<times> ldlm_resource) option" where
  "ldlm_process_plain_lock_reproc lock work_list res = do {
     lassert (lr_converting res = []);
     process_again ldlm_plain_compat_queue lock work_list res
   }"

definition ldlm_process_inodebits_lock_enq :: "nat \<Rightarrow> ldlm_resource \<Rightarrow> (enq_result \<times> ldlm_resource) option" where
  "ldlm_process_inodebits_lock_enq lock res = do {
     lassert (lr_converting res = []);
     process_restart ldlm_inodebits_compat_queue lock [] res
   }"

definition ldlm_process_inodebits_lock_reproc ::
  "nat \<Rightarrow> nat list \<Rightarrow> ldlm_resource \<Rightarrow> (ldlm_iter \<times> nat list \<times> ldlm_resource) option" where
  "ldlm_process_inodebits_lock_reproc lock work_list res = do {
     lassert (lr_converting res = []);
     process_again ldlm_inodebits_compat_queue lock work_list res
   }"

text \<open>\<open>ldlm_processing_policy_table\<close>, for the two types with skip lists.\<close>

definition policy_enq :: "nat \<Rightarrow> ldlm_resource \<Rightarrow> (enq_result \<times> ldlm_resource) option" where
  "policy_enq lock res =
    (if lr_type res = LDLM_PLAIN then ldlm_process_plain_lock_enq lock res
     else if lr_type res = LDLM_IBITS then ldlm_process_inodebits_lock_enq lock res
     else None)"

definition policy_restart :: "nat \<Rightarrow> nat list \<Rightarrow> ldlm_resource \<Rightarrow> (enq_result \<times> ldlm_resource) option" where
  "policy_restart lock rpc_list res =
    (if lr_type res = LDLM_PLAIN then process_restart ldlm_plain_compat_queue lock rpc_list res
     else if lr_type res = LDLM_IBITS then process_restart ldlm_inodebits_compat_queue lock rpc_list res
     else None)"

definition policy_reproc :: "nat \<Rightarrow> nat list \<Rightarrow> ldlm_resource \<Rightarrow> (ldlm_iter \<times> nat list \<times> ldlm_resource) option" where
  "policy_reproc lock work_list res =
    (if lr_type res = LDLM_PLAIN then ldlm_process_plain_lock_reproc lock work_list res
     else if lr_type res = LDLM_IBITS then ldlm_process_inodebits_lock_reproc lock work_list res
     else None)"

section \<open>Callbacks\<close>

text \<open>
  The callback itself only sends a message, and the resource is not locked meanwhile; what the
  message brings about is a step of its own.
\<close>

definition ldlm_work_bl_ast_lock :: "nat \<Rightarrow> ldlm_resource \<Rightarrow> ldlm_resource option" where
  "ldlm_work_bl_ast_lock lock res = do {
     let res = upd_lock lock (\<lambda>l. l\<lparr>l_bl_ast := False\<rparr>) res;
     lassert (has_flag (l_flags (res_locks res lock)) LDLM_FL_AST_SENT);
     lassert (l_bl_ast_run (res_locks res lock) = 0);
     lassert (l_blocking_lock (res_locks res lock) \<noteq> None);
     let res = upd_lock lock (\<lambda>l. l\<lparr>l_bl_ast_run := l_bl_ast_run l + 1\<rparr>) res;
     Some (upd_lock lock (\<lambda>l. l\<lparr>l_blocking_lock := None\<rparr>) res)
   }"

definition ldlm_work_cp_ast_lock :: "nat \<Rightarrow> ldlm_resource \<Rightarrow> (int \<times> ldlm_resource) option" where
  "ldlm_work_cp_ast_lock lock res = do {
     let res = upd_lock lock (\<lambda>l. l\<lparr>l_cp_ast := False\<rparr>) res;
     lassert (has_flag (l_flags (res_locks res lock)) LDLM_FL_CP_REQD);
     Some (if l_completion_ast (res_locks res lock) then 1 else 0, clear_flag lock LDLM_FL_CP_REQD res)
   }"

section \<open>Creating, enqueueing and reprocessing\<close>

text \<open>
  A new lock. The server's handler of the enqueue request fills in the policy data and the cookie
  between the creation and the enqueueing; here they are arguments. The allocation of the lock and
  of its value block succeeds.
\<close>

definition ldlm_lock_new ::
  "ldlm_mode \<Rightarrow> u64 \<Rightarrow> ldlm_extent \<Rightarrow> u64 \<Rightarrow> nat option \<Rightarrow> bool \<Rightarrow> bool \<Rightarrow> ldlm_lock" where
  "ldlm_lock_new mode bits ex cookie exp bl cp =
    \<lparr>l_tree_node = None, l_req_mode = mode, l_granted_mode = LCK_MINMODE, l_completion_ast = cp, l_blocking_ast = bl,
     l_export = exp, l_extent = ex, l_inodebits = bits, l_flags = 0, l_readers = 0, l_writers = 0, l_destroyed = False,
     l_req_extent = ex, l_client_cookie = cookie, l_lru = False, l_bl_ast = False, l_cp_ast = False,
     l_blocking_lock = None, l_bl_ast_run = 0\<rparr>"

definition ldlm_lock_create ::
  "nat \<Rightarrow> nat option \<Rightarrow> ldlm_lock \<Rightarrow> ldlm_resource \<Rightarrow> ldlm_resource option" where
  "ldlm_lock_create lock node new res = do {
     let res = res\<lparr>res_locks := (res_locks res)(lock := new),
                   sl_mode := \<lparr>lnext = (lnext (sl_mode res))(lock := lock), lprev = (lprev (sl_mode res))(lock := lock)\<rparr>,
                   sl_policy := \<lparr>lnext = (lnext (sl_policy res))(lock := lock), lprev = (lprev (sl_policy res))(lock := lock)\<rparr>\<rparr>;
     if lr_type res = LDLM_EXTENT then do {
       (n, res1) \<leftarrow> ldlm_interval_alloc node lock res;
       if n = None then ldlm_lock_destroy_nolock lock res1 else Some res1
     }
     else Some res
   }"

text \<open>
  \<open>ldlm_lock_enqueue\<close> without the intent policy, which is a callback of the metadata server. The
  result is the return code, the flags for the reply, and what the processing policy of the lock
  type did. \<open>node\<close> is the interval node that is allocated for a lock that is replayed.
\<close>

definition ldlm_lock_enqueue ::
  "(nat \<Rightarrow> ldlm_resource \<Rightarrow> (enq_result \<times> ldlm_resource) option) \<Rightarrow> nat \<Rightarrow> nat option \<Rightarrow> u64 \<Rightarrow> ldlm_resource \<Rightarrow>
   (int \<times> u64 \<times> enq_result \<times> ldlm_resource) option" where
  "ldlm_lock_enqueue policy lock node flags res =
    (if ns_client res \<and> l_req_mode (res_locks res lock) = l_granted_mode (res_locks res lock)
     then Some (0, flags AND NOT (LDLM_FL_BLOCK_GRANTED OR LDLM_FL_BLOCK_CONV OR LDLM_FL_BLOCK_WAIT), Enq_granted, res)
     else do {
       res \<leftarrow> ldlm_resource_unlink_lock lock res;
       if lr_type res = LDLM_EXTENT \<and> l_tree_node (res_locks res lock) = None
          \<and> (node = None \<or> ns_client res \<or> \<not> has_flag flags LDLM_FL_REPLAY)
       then do {
         res \<leftarrow> ldlm_lock_destroy_nolock lock res;
         Some (- ENOMEM, flags, Enq_granted, res)
       }
       else do {
         res \<leftarrow> (if lr_type res = LDLM_EXTENT \<and> l_tree_node (res_locks res lock) = None
                 then ldlm_interval_attach (the node) lock (upd_interval (the node) (\<lambda>v. new_interval (the node)) res)
                 else Some res);
         let res = set_flag lock (flags AND LDLM_AST_DISCARD_DATA) res;
         if ns_client res then do {
           res \<leftarrow> (if has_flag flags LDLM_FL_BLOCK_CONV then ldlm_resource_add_lock res Converting lock
                   else if has_flag flags (LDLM_FL_BLOCK_WAIT OR LDLM_FL_BLOCK_GRANTED)
                   then ldlm_resource_add_lock res Waiting lock
                   else map_option snd (ldlm_grant_lock lock None res));
           Some (0, flags, Enq_granted, res)
         }
         else if has_flag flags LDLM_FL_REPLAY
              \<and> has_flag flags (LDLM_FL_BLOCK_CONV OR LDLM_FL_BLOCK_WAIT OR LDLM_FL_BLOCK_GRANTED) then do {
           res \<leftarrow> (if has_flag flags LDLM_FL_BLOCK_CONV then ldlm_resource_add_lock res Converting lock
                   else if has_flag flags LDLM_FL_BLOCK_WAIT then ldlm_resource_add_lock res Waiting lock
                   else map_option snd (ldlm_grant_lock lock None res));
           Some (0, flags, Enq_granted, res)
         }
         else do {
           (r, res) \<leftarrow> policy lock res;
           Some (0, flags, r, res)
         }
       }
     })"

text \<open>The end of the first processing, when the blocking callbacks have run without \<open>ERESTART\<close>.\<close>

definition process_done :: "u64 \<Rightarrow> u64" where
  "process_done flags = flags OR LDLM_FL_BLOCK_GRANTED"

text \<open>
  The loop reads the next lock of the queue before it processes a lock, and the processing takes no
  other lock off the queue.
\<close>

fun reprocess_loop ::
  "(nat \<Rightarrow> nat list \<Rightarrow> ldlm_resource \<Rightarrow> (ldlm_iter \<times> nat list \<times> ldlm_resource) option) \<Rightarrow> nat list \<Rightarrow> nat list \<Rightarrow>
   ldlm_resource \<Rightarrow> (ldlm_iter \<times> nat list \<times> ldlm_resource) option" where
  "reprocess_loop policy [] work_list res = Some (LDLM_ITER_CONTINUE, work_list, res)"
| "reprocess_loop policy (pending # rest) work_list res = do {
     (rc, work_list, res) \<leftarrow> policy pending work_list res;
     if rc \<noteq> LDLM_ITER_CONTINUE then Some (rc, work_list, res)
     else reprocess_loop policy rest work_list res
   }"

definition ldlm_reprocess_queue ::
  "(nat \<Rightarrow> nat list \<Rightarrow> ldlm_resource \<Rightarrow> (ldlm_iter \<times> nat list \<times> ldlm_resource) option) \<Rightarrow> res_queue \<Rightarrow> nat list \<Rightarrow>
   ldlm_resource \<Rightarrow> (ldlm_iter \<times> nat list \<times> ldlm_resource) option" where
  "ldlm_reprocess_queue policy q work_list res = reprocess_loop policy (queue q res) work_list res"

text \<open>\<open>ldlm_reprocess_all\<close> up to the completion callbacks, which the list names.\<close>

definition ldlm_reprocess_all ::
  "(nat \<Rightarrow> nat list \<Rightarrow> ldlm_resource \<Rightarrow> (ldlm_iter \<times> nat list \<times> ldlm_resource) option) \<Rightarrow> ldlm_resource \<Rightarrow>
   (nat list \<times> ldlm_resource) option" where
  "ldlm_reprocess_all policy res =
    (if ns_client res then Some ([], res)
     else do {
       (rc, rpc_list, res) \<leftarrow> ldlm_reprocess_queue policy Converting [] res;
       if rc = LDLM_ITER_CONTINUE
       then map_option snd (ldlm_reprocess_queue policy Waiting rpc_list res)
       else Some (rpc_list, res)
     })"

section \<open>Cancelling, downgrading and converting\<close>

text \<open>\<open>ldlm_lock_cancel\<close> up to the cancel callback, and from there on.\<close>

definition ldlm_lock_cancel_begin :: "nat \<Rightarrow> ldlm_resource \<Rightarrow> ldlm_resource option" where
  "ldlm_lock_cancel_begin lock res = do {
     lassert (l_readers (res_locks res lock) = 0 \<and> l_writers (res_locks res lock) = 0);
     Some (if \<not> has_flag (l_flags (res_locks res lock)) LDLM_FL_CANCEL then set_flag lock LDLM_FL_CANCEL res else res)
   }"

definition ldlm_lock_cancel_finish :: "nat \<Rightarrow> ldlm_resource \<Rightarrow> ldlm_resource option" where
  "ldlm_lock_cancel_finish lock res = do {
     let res = set_flag lock LDLM_FL_BL_DONE res;
     res \<leftarrow> ldlm_resource_unlink_lock lock res;
     res \<leftarrow> ldlm_lock_destroy_nolock lock res;
     res \<leftarrow> (if l_granted_mode (res_locks res lock) = l_req_mode (res_locks res lock) then ldlm_pool_del res
             else Some res);
     Some (upd_lock lock (\<lambda>l. l\<lparr>l_granted_mode := LCK_MINMODE\<rparr>) res)
   }"

text \<open>\<open>ldlm_lock_downgrade\<close> up to \<open>ldlm_reprocess_all\<close>.\<close>

definition ldlm_lock_downgrade :: "nat \<Rightarrow> ldlm_mode \<Rightarrow> ldlm_resource \<Rightarrow> ldlm_resource option" where
  "ldlm_lock_downgrade lock new_mode res = do {
     lassert (mode_bits (l_granted_mode (res_locks res lock)) AND (mode_bits LCK_PW OR mode_bits LCK_EX) \<noteq> 0);
     lassert (new_mode = LCK_COS);
     res \<leftarrow> ldlm_resource_unlink_lock lock res;
     res \<leftarrow> ldlm_pool_del res;
     let res = upd_lock lock (\<lambda>l. l\<lparr>l_req_mode := new_mode\<rparr>) res;
     map_option snd (ldlm_grant_lock lock None res)
   }"

text \<open>The lock before a lock of a queue.\<close>

fun list_before :: "nat list \<Rightarrow> nat \<Rightarrow> nat option" where
  "list_before (y # z # zs) x = (if z = x then Some y else list_before (z # zs) x)"
| "list_before ys x = None"

text \<open>
  \<open>ldlm_lock_convert\<close>: whether it returns the resource, the flags, the completion callbacks to run
  and the new state. \<open>node\<close> is the interval node it allocates.
\<close>

definition ldlm_lock_convert ::
  "(nat \<Rightarrow> nat list \<Rightarrow> ldlm_resource \<Rightarrow> (ldlm_iter \<times> nat list \<times> ldlm_resource) option) \<Rightarrow> nat option \<Rightarrow> nat \<Rightarrow>
   ldlm_mode \<Rightarrow> u64 \<Rightarrow> ldlm_resource \<Rightarrow> (bool \<times> u64 \<times> nat list \<times> ldlm_resource) option" where
  "ldlm_lock_convert policy node lock new_mode flags res =
    (if new_mode = l_granted_mode (res_locks res lock) then Some (True, flags OR LDLM_FL_BLOCK_GRANTED, [], res)
     else case node of
       None \<Rightarrow> Some (False, flags, [], res)
     | Some n \<Rightarrow> do {
         lassert (new_mode = LCK_PW \<and> l_granted_mode (res_locks res lock) = LCK_PR);
         let old_mode = l_req_mode (res_locks res lock);
         let res = upd_lock lock (\<lambda>l. l\<lparr>l_req_mode := new_mode\<rparr>) res;
         let prev = \<lparr>res_link = list_before (lr_granted res) lock, mode_link = lprev (sl_mode res) lock,
                     policy_link = lprev (sl_policy res) lock\<rparr>;
         res \<leftarrow> ldlm_resource_unlink_lock lock res;
         res \<leftarrow> (if lr_type res = LDLM_EXTENT
                 then ldlm_interval_attach n lock (upd_interval n (\<lambda>v. new_interval n) res)
                 else Some res);
         res \<leftarrow> ldlm_pool_del res;
         if ns_client res then do {
           lassert (has_flag flags (LDLM_FL_BLOCK_CONV OR LDLM_FL_BLOCK_GRANTED));
           res \<leftarrow> ldlm_resource_add_lock res Converting lock;
           Some (True, flags, [], res)
         }
         else do {
           (rc, rpc_list, res) \<leftarrow> policy lock [] res;
           if rc = LDLM_ITER_STOP then do {
             let res = upd_lock lock (\<lambda>l. l\<lparr>l_req_mode := old_mode\<rparr>) res;
             res \<leftarrow> (if lr_type res = LDLM_EXTENT then ldlm_extent_add_lock res lock
                     else ldlm_granted_list_add_lock lock prev res);
             Some (False, flags, [], res)
           }
           else Some (True, flags OR LDLM_FL_BLOCK_GRANTED, rpc_list, res)
         }
       })"

end
