(* ===== verification/LdlmCompat.thy ===== *)
theory LdlmCompat
  imports LdlmProcess
begin

text \<open>
  The comparison of a request with the queues of its resource. The code visits the first lock of
  every group and jumps to the next group; the theory shows that on well-formed skip lists the loops
  end and give what a scan of all locks of the queue gives, for plain and for inode-bits locks.
\<close>

section \<open>Marking the locks that block a request\<close>

abbreviation ast_sent :: "ldlm_resource \<Rightarrow> nat \<Rightarrow> bool" where
  "ast_sent res i \<equiv> has_flag (l_flags (res_locks res i)) LDLM_FL_AST_SENT"

definition needs_ast :: "ldlm_resource \<Rightarrow> nat \<Rightarrow> bool" where
  "needs_ast res i \<longleftrightarrow> l_blocking_ast (res_locks res i) \<and> \<not> ast_sent res i"

definition mark :: "bool \<Rightarrow> nat \<Rightarrow> ldlm_lock \<Rightarrow> ldlm_lock" where
  "mark discard req k = k\<lparr>l_flags := (if discard then (l_flags k OR LDLM_FL_AST_SENT) OR LDLM_FL_DISCARD_DATA
      else l_flags k OR LDLM_FL_AST_SENT), l_bl_ast := True, l_blocking_lock := Some req\<rparr>"

definition marked :: "nat \<Rightarrow> nat list \<Rightarrow> ldlm_resource \<Rightarrow> ldlm_resource" where
  "marked req xs res = res\<lparr>res_locks := (\<lambda>i. if i \<in> set xs \<and> needs_ast res i
      then mark (has_flag (l_flags (res_locks res req)) LDLM_AST_DISCARD_DATA) req (res_locks res i) else res_locks res i)\<rparr>"

text \<open>A lock to which no blocking callback was queued is on no list of callbacks.\<close>

definition ast_ok :: "ldlm_resource \<Rightarrow> bool" where
  "ast_ok res \<longleftrightarrow> (\<forall>i. \<not> ast_sent res i \<longrightarrow> \<not> l_bl_ast (res_locks res i) \<and> l_blocking_lock (res_locks res i) = None)"

lemma ast_flags [simp]: "has_flag LDLM_FL_AST_SENT LDLM_FL_AST_SENT"
  "\<not> has_flag LDLM_FL_AST_SENT LDLM_AST_DISCARD_DATA" "\<not> has_flag LDLM_FL_DISCARD_DATA LDLM_AST_DISCARD_DATA"
  "\<not> has_flag LDLM_FL_DISCARD_DATA LDLM_FL_AST_SENT"
  by (simp_all add: LDLM_FL_defs has_flag_def)

lemma mark_fields [simp]:
  "l_req_mode (mark d r k) = l_req_mode k" "l_granted_mode (mark d r k) = l_granted_mode k"
  "l_inodebits (mark d r k) = l_inodebits k" "l_client_cookie (mark d r k) = l_client_cookie k"
  "l_blocking_ast (mark d r k) = l_blocking_ast k" "l_completion_ast (mark d r k) = l_completion_ast k"
  "l_destroyed (mark d r k) = l_destroyed k" "l_bl_ast_run (mark d r k) = l_bl_ast_run k"
  "l_cp_ast (mark d r k) = l_cp_ast k" "l_readers (mark d r k) = l_readers k" "l_writers (mark d r k) = l_writers k"
  "l_lru (mark d r k) = l_lru k" "l_bl_ast (mark d r k)" "l_blocking_lock (mark d r k) = Some r"
  "l_extent (mark d r k) = l_extent k" "l_export (mark d r k) = l_export k" "l_tree_node (mark d r k) = l_tree_node k"
  "l_req_extent (mark d r k) = l_req_extent k"
  by (simp_all add: mark_def)

lemma mark_flag: "has_flag (l_flags (mark d r k)) f \<longleftrightarrow>
   has_flag (l_flags k) f \<or> has_flag LDLM_FL_AST_SENT f \<or> d \<and> has_flag LDLM_FL_DISCARD_DATA f"
  by (auto simp: mark_def)

lemma marked_fields [simp]:
  "lr_granted (marked r xs res) = lr_granted res" "lr_waiting (marked r xs res) = lr_waiting res"
  "lr_converting (marked r xs res) = lr_converting res" "lr_type (marked r xs res) = lr_type res"
  "sl_mode (marked r xs res) = sl_mode res" "sl_policy (marked r xs res) = sl_policy res"
  "pl_granted (marked r xs res) = pl_granted res" "ns_client (marked r xs res) = ns_client res"
  "lr_itree (marked r xs res) = lr_itree res" "res_intervals (marked r xs res) = res_intervals res"
  by (simp_all add: marked_def)

lemma marked_lock [simp]:
  "l_req_mode (res_locks (marked r xs res) i) = l_req_mode (res_locks res i)"
  "l_granted_mode (res_locks (marked r xs res) i) = l_granted_mode (res_locks res i)"
  "l_inodebits (res_locks (marked r xs res) i) = l_inodebits (res_locks res i)"
  "l_client_cookie (res_locks (marked r xs res) i) = l_client_cookie (res_locks res i)"
  "l_blocking_ast (res_locks (marked r xs res) i) = l_blocking_ast (res_locks res i)"
  "l_completion_ast (res_locks (marked r xs res) i) = l_completion_ast (res_locks res i)"
  "l_destroyed (res_locks (marked r xs res) i) = l_destroyed (res_locks res i)"
  "l_bl_ast_run (res_locks (marked r xs res) i) = l_bl_ast_run (res_locks res i)"
  "l_cp_ast (res_locks (marked r xs res) i) = l_cp_ast (res_locks res i)"
  "l_readers (res_locks (marked r xs res) i) = l_readers (res_locks res i)"
  "l_writers (res_locks (marked r xs res) i) = l_writers (res_locks res i)"
  "l_lru (res_locks (marked r xs res) i) = l_lru (res_locks res i)"
  by (simp_all add: marked_def)

lemma queue_marked [simp]: "queue q (marked r xs res) = queue q res"
  by (cases q) simp_all

lemma marked_Nil [simp]: "marked r [] res = res"
  by (simp add: marked_def)

lemma ast_sent_marked: "ast_sent (marked r xs res) i \<longleftrightarrow> ast_sent res i \<or> i \<in> set xs \<and> l_blocking_ast (res_locks res i)"
  by (auto simp: marked_def mark_flag needs_ast_def)

lemma needs_marked: "needs_ast (marked r xs res) i \<longleftrightarrow> needs_ast res i \<and> i \<notin> set xs"
  by (simp only: needs_ast_def ast_sent_marked marked_lock) blast

lemma discard_marked: "has_flag (l_flags (res_locks (marked r xs res) i)) LDLM_AST_DISCARD_DATA \<longleftrightarrow>
   has_flag (l_flags (res_locks res i)) LDLM_AST_DISCARD_DATA"
  by (simp add: marked_def mark_flag)

lemma marked_append: "marked r ys (marked r xs res) = marked r (xs @ ys) res"
proof -
  have "res_locks (marked r ys (marked r xs res)) i = res_locks (marked r (xs @ ys) res) i" for i
    unfolding marked_def [of r ys] marked_def [of r "xs @ ys"] ldlm_resource.simps needs_marked discard_marked
    by (simp add: marked_def)
  then have "res_locks (marked r ys (marked r xs res)) = res_locks (marked r (xs @ ys) res)" by (rule ext)
  then show ?thesis by (simp add: marked_def)
qed

lemma ast_ok_marked: "ast_ok res \<Longrightarrow> ast_ok (marked r xs res)"
  unfolding ast_ok_def ast_sent_marked by (auto simp: marked_def needs_ast_def)

lemma add_item_ok:
  assumes "ast_ok res"
  shows "add_item req x (wl, res) = Some (if needs_ast res x then x # wl else wl, marked req [x] res)"
proof (cases "needs_ast res x")
  case True
  then have "\<not> l_bl_ast (res_locks res x)" "l_blocking_lock (res_locks res x) = None" "l_blocking_ast (res_locks res x)"
    "\<not> ast_sent res x" using assms by (auto simp: ast_ok_def needs_ast_def)
  then show ?thesis
    by (auto simp: add_item_def ldlm_add_ast_work_item_def ldlm_add_bl_work_item_def set_flag_def upd_lock_def Let_def marked_def
        mark_def needs_ast_def intro!: ldlm_resource.equality)
next
  case False
  moreover have "marked req [x] res = res" using False by (intro ldlm_resource.equality) (auto simp: marked_def)
  ultimately show ?thesis by (auto simp: add_item_def ldlm_add_ast_work_item_def ldlm_add_bl_work_item_def needs_ast_def)
qed

lemma add_items_ok:
  "\<lbrakk>ast_ok res; distinct xs\<rbrakk> \<Longrightarrow>
   ofold (add_item req) xs (wl, res) = Some (rev (filter (needs_ast res) xs) @ wl, marked req xs res)"
proof (induction xs arbitrary: wl res)
  case (Cons x xs)
  have "filter (needs_ast (marked req [x] res)) xs = filter (needs_ast res) xs"
    using Cons.prems(2) by (intro filter_cong) (auto simp: needs_marked)
  then show ?case using Cons ast_ok_marked [OF Cons.prems(1)] marked_append [of req xs "[x]"]
    by (simp add: add_item_ok)
qed simp

text \<open>The loop over a ring visits every lock of the group once, in the order of the queue.\<close>

lemma add_ring_loop_ok:
  "\<lbrakk>linked L (ys @ [h]); h \<notin> set ys\<rbrakk> \<Longrightarrow> add_ring_loop L req h (hd (ys @ [h])) st = ofold (add_item req) ys st"
proof (induction ys arbitrary: st)
  case Nil
  then show ?case by (subst add_ring_loop.simps) simp
next
  case (Cons y ys)
  have n: "lnext L y = hd (ys @ [h])" "linked L (ys @ [h])" using Cons.prems(1) by (cases ys; simp)+
  have "add_ring_loop L req h (lnext L y) st' = ofold (add_item req) ys st'" for st'
    using n Cons.IH Cons.prems(2) by simp
  then have "add_ring_loop L req h (lnext L y) = ofold (add_item req) ys" by (rule ext)
  then show ?case using Cons.prems(2) by (subst add_ring_loop.simps) simp
qed

lemma add_ring_ok: assumes "ring L xs" shows "add_ring L req (hd xs) st = ofold (add_item req) xs st"
proof -
  obtain x ys where xs: "xs = x # ys" using assms by (auto simp: ring_def neq_Nil_conv)
  have l: "linked L (x # ys @ [x])" "x \<notin> set ys" using assms xs by (auto simp: ring_def)
  then have "lnext L x = hd (ys @ [x])" "linked L (ys @ [x])" by (cases ys; simp)+
  then show ?thesis using add_ring_loop_ok [of L ys x req] l xs by (simp add: add_ring_def)
qed

section \<open>The loops over the groups\<close>

text \<open>
  What the comparison of a request with a queue gives when \<open>xs\<close> are the locks that block it: without
  a list of callbacks only the answer, otherwise every one of them is put on the list once.
\<close>

definition scan_out ::
  "nat \<Rightarrow> int \<Rightarrow> nat list option \<Rightarrow> ldlm_resource \<Rightarrow> nat list \<Rightarrow> int \<times> nat list option \<times> ldlm_resource" where
  "scan_out req c wl res xs =
    (if xs = [] then (c, wl, res)
     else case wl of
       None \<Rightarrow> (0, None, res)
     | Some w \<Rightarrow> (0, Some (rev (filter (needs_ast res) xs) @ w), marked req xs res))"

lemma scan_out_append:
  assumes "distinct (xs @ ys)" "xs \<noteq> []"
  shows "scan_out req 0 (Some (rev (filter (needs_ast res) xs) @ w)) (marked req xs res) ys = scan_out req c (Some w) res (xs @ ys)"
proof -
  have "filter (needs_ast (marked req xs res)) ys = filter (needs_ast res) ys"
    using assms(1) by (intro filter_cong) (auto simp: needs_marked)
  then show ?thesis using assms(2) by (simp add: scan_out_def marked_append)
qed

lemma scan_out_None: "xs \<noteq> [] \<Longrightarrow> scan_out req c None res xs = (0, None, res)"
  by (simp add: scan_out_def)

lemma distinct_append_subset:
  "\<lbrakk>distinct (xs @ ys); set xs' \<subseteq> set xs; set ys' \<subseteq> set ys; distinct xs'; distinct ys'\<rbrakk> \<Longrightarrow> distinct (xs' @ ys')"
  by auto

lemma takeWhile_True [simp]: "takeWhile (\<lambda>_. True) xs = xs"
  by (induction xs) auto

lemma filter_take_subset: "set (concat (filter f (takeWhile g P))) \<subseteq> set (concat P)"
  by (auto dest: set_takeWhileD)

lemma distinct_concat_filter: "distinct (concat P) \<Longrightarrow> distinct (concat (filter f (takeWhile g P)))"
proof (induction P)
  case (Cons x P)
  then show ?case using filter_take_subset [of f g P] by (auto simp: disjoint_iff)
qed simp

lemma distinct_prepend: "distinct (xs @ concat P) \<Longrightarrow> distinct (xs @ concat (filter f (takeWhile g P)))"
  using distinct_concat_filter [of P f g] filter_take_subset [of f g P] by (auto simp: disjoint_iff)

text \<open>A queue cut into rings of \<open>l_sl_mode\<close> links.\<close>

definition mode_rings :: "res_queue \<Rightarrow> ldlm_resource \<Rightarrow> nat list list \<Rightarrow> bool" where
  "mode_rings q res P \<longleftrightarrow> queue q res = concat P \<and> distinct (concat P) \<and> (\<forall>g \<in> set P. ring (sl_mode res) g)"

lemma mode_rings_after:
  assumes "mode_rings q res (A @ g # D)"
  shows "lprev (sl_mode res) (hd g) = last g \<and> list_after (queue q res) (last g) = Some (concat D) \<and> g \<noteq> []"
proof -
  have g: "ring (sl_mode res) g" "g \<noteq> []" using assms by (auto simp: mode_rings_def ring_def)
  have "list_after (concat A @ g @ concat D) (last g) = Some (concat D)"
    using assms g by (intro list_after_last) (auto simp: mode_rings_def)
  then show ?thesis using assms g ring_ends [OF g(1)] by (simp add: mode_rings_def)
qed

lemma mode_rings_marked [simp]: "mode_rings q (marked r xs res) P = mode_rings q res P"
  by (simp add: mode_rings_def)

abbreviation before_req :: "nat \<Rightarrow> nat list list \<Rightarrow> nat list list" where
  "before_req req P \<equiv> takeWhile (\<lambda>g. hd g \<noteq> req) P"

abbreviation mode_conflict :: "ldlm_resource \<Rightarrow> nat \<Rightarrow> nat \<Rightarrow> bool" where
  "mode_conflict res req x \<equiv> \<not> lockmode_compat (l_req_mode (res_locks res x)) (l_req_mode (res_locks res req))"

lemma plain_loop_ok:
  "\<lbrakk>mode_rings q res (A @ D); ast_ok res\<rbrakk> \<Longrightarrow>
   plain_compat_loop q req (concat D) c wl res
     = Some (scan_out req c wl res (concat (filter (\<lambda>g. mode_conflict res req (hd g)) (before_req req D))))"
proof (induction D arbitrary: A c wl res)
  case Nil
  then show ?case by (subst plain_compat_loop.simps) (simp add: scan_out_def)
next
  case (Cons g D)
  have g: "lprev (sl_mode res) (hd g) = last g" "list_after (queue q res) (last g) = Some (concat D)" "g \<noteq> []"
    using mode_rings_after [OF Cons.prems(1)] by auto
  have r: "ring (sl_mode res) g" "distinct g" using Cons.prems(1) by (auto simp: mode_rings_def)
  have split: "concat (g # D) = hd g # tl g @ concat D" using g by simp
  have next_ok: "mode_rings q res ((A @ [g]) @ D)" using Cons.prems(1) by simp
  consider "hd g = req" | "hd g \<noteq> req" "\<not> mode_conflict res req (hd g)" | "hd g \<noteq> req" "mode_conflict res req (hd g)" "wl = None"
    | w where "hd g \<noteq> req" "mode_conflict res req (hd g)" "wl = Some w" by blast
  then show ?case
  proof cases
    case 1
    then show ?thesis unfolding split by (subst plain_compat_loop.simps) (simp add: scan_out_def)
  next
    case 2
    then show ?thesis using Cons.IH [OF next_ok Cons.prems(2)] g
      unfolding split by (subst plain_compat_loop.simps) (simp add: Let_def)
  next
    case 3
    then show ?thesis using g unfolding split by (subst plain_compat_loop.simps) (simp add: scan_out_def Let_def)
  next
    case 4
    let ?res = "marked req g res"
    let ?X = "concat (filter (\<lambda>g. mode_conflict res req (hd g)) (before_req req D))"
    have d: "distinct (g @ ?X)"
      by (rule distinct_prepend) (use Cons.prems(1) in \<open>simp add: mode_rings_def\<close>)
    have "add_ring (sl_mode res) req (hd g) (w, res) = Some (rev (filter (needs_ast res) g) @ w, ?res)"
      using add_ring_ok [OF r(1)] add_items_ok [OF Cons.prems(2) r(2)] by simp
    moreover have "plain_compat_loop q req (concat D) 0 (Some (rev (filter (needs_ast res) g) @ w)) ?res
      = Some (scan_out req c (Some w) res (g @ ?X))"
      using Cons.IH [of ?res "A @ [g]"] next_ok Cons.prems(2) scan_out_append [OF d g(3)] by (simp add: ast_ok_marked)
    ultimately show ?thesis using 4 g unfolding split by (subst plain_compat_loop.simps) (simp add: Let_def)
  qed
qed

text \<open>Mode groups cut into rings of \<open>l_sl_policy\<close> links.\<close>

definition policy_rings :: "res_queue \<Rightarrow> ldlm_resource \<Rightarrow> nat list list list \<Rightarrow> bool" where
  "policy_rings q res gs \<longleftrightarrow> mode_rings q res (map concat gs) \<and> (\<forall>mg \<in> set gs. \<forall>pg \<in> set mg. ring (sl_policy res) pg)"

lemma policy_rings_marked [simp]: "policy_rings q (marked r xs res) gs = policy_rings q res gs"
  by (simp add: policy_rings_def)

lemma ibits_conflict_marked [simp]: "ibits_conflict (marked r xs res) x y = ibits_conflict res x y"
  by (simp add: ibits_conflict_def)

abbreviation ibits_blocking :: "ldlm_resource \<Rightarrow> nat \<Rightarrow> nat list list \<Rightarrow> nat list" where
  "ibits_blocking res req mg \<equiv> concat (filter (\<lambda>pg. ibits_conflict res (hd pg) req) mg)"

lemma ibits_policy_loop_ok:
  "\<lbrakk>policy_rings q res (A @ (B @ pg # C) # D); ast_ok res\<rbrakk> \<Longrightarrow>
   ibits_policy_loop q req (last (concat (B @ pg # C))) (hd pg) c wl res
     = Some (if wl = None \<and> ibits_blocking res req (pg # C) \<noteq> [] then Inl (0, None, res)
             else Inr (scan_out req c wl res (ibits_blocking res req (pg # C))))"
proof (induction C arbitrary: B pg c wl res)
  case Nil
  have r: "ring (sl_policy res) pg" "pg \<noteq> []" "distinct pg"
    using Nil.prems(1) by (auto simp: policy_rings_def ring_def)
  have pe: "lprev (sl_policy res) (hd pg) = last pg" "last (concat (B @ [pg])) = last pg" using ring_ends [OF r(1)] r by simp_all
  have "add_ring (sl_policy res) req (hd pg) (w, res) = Some (rev (filter (needs_ast res) pg) @ w, marked req pg res)" for w
    using add_ring_ok [OF r(1)] add_items_ok [OF Nil.prems(2) r(3)] by simp
  then show ?case using pe r by (subst ibits_policy_loop.simps) (auto simp: Let_def scan_out_def)
next
  case (Cons pg' C)
  have r: "ring (sl_policy res) pg" "pg \<noteq> []" "pg' \<noteq> []" "distinct pg"
    using Cons.prems(1) by (auto simp: policy_rings_def ring_def)
  have pe: "lprev (sl_policy res) (hd pg) = last pg" using ring_ends [OF r(1)] by simp
  have l: "queue q res = (concat (map concat A) @ concat B) @ pg @ (pg' @ concat C @ concat (map concat D))"
    using Cons.prems(1) by (simp add: policy_rings_def mode_rings_def)
  have d: "distinct (queue q res)" using Cons.prems(1) by (simp add: policy_rings_def mode_rings_def)
  have after: "list_after (queue q res) (last pg) = Some (pg' @ concat C @ concat (map concat D))"
    using list_after_last [OF d [unfolded l] r(2)] unfolding l .
  have me: "last (concat (B @ pg # pg' # C)) = last (pg' @ concat C)" using r by (simp add: last_append)
  have "last (pg' @ concat C) \<in> set (pg' @ concat C)" using r by (intro last_in_set) simp
  moreover have "set pg \<inter> set (pg' @ concat C) = {}" using d unfolding l by auto
  ultimately have ne: "last pg \<noteq> last (concat (B @ pg # pg' # C))" using last_in_set [OF r(2)] unfolding me by (metis disjoint_iff)
  obtain lock rest where lock: "pg' = lock # rest" using r(3) by (cases pg') auto
  have IH: "ibits_policy_loop q req (last (concat (B @ pg # pg' # C))) (hd pg') c' wl' res'
     = Some (if wl' = None \<and> ibits_blocking res' req (pg' # C) \<noteq> [] then Inl (0, None, res')
             else Inr (scan_out req c' wl' res' (ibits_blocking res' req (pg' # C))))"
    if "policy_rings q res' (A @ (B @ pg # pg' # C) # D)" "ast_ok res'" for c' wl' res'
    using Cons.IH [of res' "B @ [pg]" pg' c' wl'] that by simp
  consider "\<not> ibits_conflict res (hd pg) req" | "ibits_conflict res (hd pg) req" "wl = None"
    | w where "ibits_conflict res (hd pg) req" "wl = Some w" by blast
  then show ?case
  proof cases
    case 1
    have "ibits_policy_loop q req (last (concat (B @ pg # pg' # C))) (hd pg) c wl res
      = ibits_policy_loop q req (last (concat (B @ pg # pg' # C))) (hd pg') c wl res"
      using 1 ne lock after by (subst ibits_policy_loop.simps) (simp add: Let_def pe del: concat.simps concat_append)
    then show ?thesis using IH [OF Cons.prems] 1 by simp
  next
    case 2
    then show ?thesis using r by (subst ibits_policy_loop.simps) (simp add: Let_def)
  next
    case 3
    let ?res = "marked req pg res"
    have "distinct (pg @ concat (pg' # C))" using d unfolding l by auto
    then have dd: "distinct (pg @ ibits_blocking res req (pg' # C))"
      using distinct_prepend [of pg "pg' # C" "\<lambda>pg. ibits_conflict res (hd pg) req" "\<lambda>_. True"] by (simp del: filter.simps concat.simps)
    have add: "add_ring (sl_policy res) req (hd pg) (w, res) = Some (rev (filter (needs_ast res) pg) @ w, ?res)"
      using add_ring_ok [OF r(1)] add_items_ok [OF Cons.prems(2) r(4)] by simp
    have "ibits_policy_loop q req (last (concat (B @ pg # pg' # C))) (hd pg) c wl res
      = ibits_policy_loop q req (last (concat (B @ pg # pg' # C))) (hd pg') 0 (Some (rev (filter (needs_ast res) pg) @ w)) ?res"
      using 3 ne lock after add by (subst ibits_policy_loop.simps) (simp add: Let_def pe del: concat.simps concat_append)
    then show ?thesis using IH [of ?res] Cons.prems 3 scan_out_append [OF dd r(2)] by (simp add: ast_ok_marked)
  qed
qed

lemma distinct_blocking:
  assumes "distinct (concat mg @ concat (map concat D))"
  shows "distinct (concat (filter f mg) @ concat (map (\<lambda>mg. concat (filter f mg)) (filter g (takeWhile k D))))"
proof -
  have s: "set (concat (filter f mg)) \<subseteq> set (concat mg)" for mg by auto
  have s2: "set (concat (map (\<lambda>mg. concat (filter f mg)) (filter g (takeWhile k D)))) \<subseteq> set (concat (map concat D))" for D
    by (auto dest: set_takeWhileD)
  have d: "distinct (concat mg) \<Longrightarrow> distinct (concat (filter f mg))" for mg
    using distinct_concat_filter [of mg f "\<lambda>_. True"] by simp
  have "distinct (concat (map concat D)) \<Longrightarrow> distinct (concat (map (\<lambda>mg. concat (filter f mg)) (filter g (takeWhile k D))))"
  proof (induction D)
    case (Cons m D)
    let ?Y = "concat (map (\<lambda>mg. concat (filter f mg)) (filter g (takeWhile k D)))"
    have "distinct (concat (filter f m) @ ?Y)"
      by (rule distinct_append_subset [OF _ s s2 [of D]]) (use Cons d in auto)
    then show ?case using Cons by auto
  qed simp
  then have "distinct (concat (map (\<lambda>mg. concat (filter f mg)) (filter g (takeWhile k D))))" using assms by auto
  then show ?thesis using assms d by (intro distinct_append_subset [OF assms s s2]) auto
qed

lemma ibits_loop_ok:
  "\<lbrakk>policy_rings q res (A @ D); ast_ok res\<rbrakk> \<Longrightarrow>
   ibits_compat_loop q req (concat (map concat D)) c wl res
     = Some (scan_out req c wl res (concat (map (ibits_blocking res req)
         (filter (\<lambda>mg. mode_conflict res req (hd (concat mg))) (takeWhile (\<lambda>mg. hd (concat mg) \<noteq> req) D)))))"
proof (induction D arbitrary: A c wl res)
  case Nil
  then show ?case by (subst ibits_compat_loop.simps) (simp add: scan_out_def)
next
  case (Cons mg D)
  let ?g = "concat mg"
  let ?X = "\<lambda>res. concat (map (ibits_blocking res req)
         (filter (\<lambda>mg. mode_conflict res req (hd (concat mg))) (takeWhile (\<lambda>mg. hd (concat mg) \<noteq> req) D)))"
  let ?X' = "\<lambda>D. concat (map (ibits_blocking res req)
         (filter (\<lambda>mg. mode_conflict res req (hd (concat mg))) (takeWhile (\<lambda>mg. hd (concat mg) \<noteq> req) D)))"
  have mr: "mode_rings q res (map concat A @ ?g # map concat D)" using Cons.prems(1) by (simp add: policy_rings_def)
  have g: "lprev (sl_mode res) (hd ?g) = last ?g" "list_after (queue q res) (last ?g) = Some (concat (map concat D))" "?g \<noteq> []"
    using mode_rings_after [OF mr] by auto
  have split: "concat (map concat (mg # D)) = hd ?g # tl ?g @ concat (map concat D)" using g by simp
  have next_ok: "policy_rings q res ((A @ [mg]) @ D)" using Cons.prems(1) by simp
  obtain pg C where mg: "mg = pg # C" "pg \<noteq> []" using g(3) Cons.prems(1) by (cases mg) (auto simp: policy_rings_def ring_def)
  have hd: "hd ?g = hd pg" using mg by simp
  have P: "ibits_policy_loop q req (last ?g) (hd ?g) c wl res
     = Some (if wl = None \<and> ibits_blocking res req mg \<noteq> [] then Inl (0, None, res)
             else Inr (scan_out req c wl res (ibits_blocking res req mg)))"
    using ibits_policy_loop_ok [of q res A "[]" pg C D req c wl] Cons.prems mg unfolding hd by simp
  consider "hd ?g = req" | "hd ?g \<noteq> req" "\<not> mode_conflict res req (hd ?g)"
    | "hd ?g \<noteq> req" "mode_conflict res req (hd ?g)" "ibits_blocking res req mg = []"
    | "hd ?g \<noteq> req" "mode_conflict res req (hd ?g)" "ibits_blocking res req mg \<noteq> []" "wl = None"
    | w where "hd ?g \<noteq> req" "mode_conflict res req (hd ?g)" "ibits_blocking res req mg \<noteq> []" "wl = Some w" by blast
  then show ?case
  proof cases
    case 1
    then show ?thesis unfolding split by (subst ibits_compat_loop.simps) (simp add: scan_out_def)
  next
    case 2
    then show ?thesis using Cons.IH [OF next_ok Cons.prems(2)] g
      unfolding split by (subst ibits_compat_loop.simps) (simp add: Let_def)
  next
    case 3
    then have "ibits_compat_loop q req (concat (map concat (mg # D))) c wl res = ibits_compat_loop q req (concat (map concat D)) c wl res"
      using P g unfolding split by (subst ibits_compat_loop.simps) (simp add: Let_def scan_out_def)
    moreover have "?X' (mg # D) = ?X res" using 3 by (simp del: concat_eq_Nil_conv)
    ultimately show ?thesis using Cons.IH [OF next_ok Cons.prems(2)] by simp
  next
    case 4
    then have "ibits_compat_loop q req (concat (map concat (mg # D))) c wl res = Some (0, None, res)"
      using P g unfolding split by (subst ibits_compat_loop.simps) (simp add: Let_def)
    moreover have "?X' (mg # D) \<noteq> []" using 4 by (simp del: concat_eq_Nil_conv)
    then have "scan_out req c wl res (?X' (mg # D)) = (0, None, res)" unfolding 4(4) by (rule scan_out_None)
    ultimately show ?thesis by (rule ssubst [of _ _ "\<lambda>r. _ = Some r", rotated])
  next
    case 5
    let ?xs = "ibits_blocking res req mg"
    let ?res = "marked req ?xs res"
    have d: "distinct (?xs @ ?X res)" using distinct_blocking [of mg D] mr by (simp add: mode_rings_def)
    have "ibits_compat_loop q req (concat (map concat (mg # D))) c wl res
      = ibits_compat_loop q req (concat (map concat D)) 0 (Some (rev (filter (needs_ast res) ?xs) @ w)) ?res"
      using P g 5 unfolding split
      by (subst ibits_compat_loop.simps) (simp add: Let_def scan_out_def del: concat_eq_Nil_conv)
    also have "\<dots> = Some (scan_out req 0 (Some (rev (filter (needs_ast res) ?xs) @ w)) ?res (?X res))"
      using Cons.IH [of ?res "A @ [mg]"] next_ok Cons.prems(2) by (simp add: ast_ok_marked)
    also have "\<dots> = Some (scan_out req c (Some w) res (?xs @ ?X res))" using scan_out_append [OF d 5(3)] by simp
    finally show ?thesis using 5 by simp
  qed
qed

section \<open>Equivalence with a scan of the locks\<close>

text \<open>A lock of a queue stands in the way of a request.\<close>

definition conflicts :: "ldlm_resource \<Rightarrow> nat \<Rightarrow> nat \<Rightarrow> bool" where
  "conflicts res x req \<longleftrightarrow> mode_conflict res req x \<and> (lr_type res = LDLM_IBITS \<longrightarrow> ibits_conflict res x req)"

definition compat_queue :: "ldlm_resource \<Rightarrow> compat_fun" where
  "compat_queue res = (if lr_type res = LDLM_PLAIN then ldlm_plain_compat_queue else ldlm_inodebits_compat_queue)"

text \<open>The queues of a resource of one of the two types with skip lists.\<close>

definition res_ok :: "ldlm_resource \<Rightarrow> bool" where
  "res_ok res \<longleftrightarrow> lr_type res \<in> {LDLM_PLAIN, LDLM_IBITS} \<and> skip_ok res \<and> distinct (lr_granted res @ lr_waiting res)
    \<and> lr_converting res = []"

text \<open>The request that the handler of the server lets through: it has a mode, and bits if it is of that type.\<close>

definition req_ok :: "ldlm_resource \<Rightarrow> nat \<Rightarrow> bool" where
  "req_ok res req \<longleftrightarrow> l_req_mode (res_locks res req) \<noteq> LCK_MINMODE
    \<and> (lr_type res = LDLM_IBITS \<longrightarrow> l_inodebits (res_locks res req) \<noteq> 0)"

text \<open>
  Locks of mode \<open>LCK_COS\<close> that share bits belong to one client: the code compares the client of
  the first lock of a policy group only.
\<close>

definition cos_ok :: "ldlm_resource \<Rightarrow> bool" where
  "cos_ok res \<longleftrightarrow> (\<forall>x \<in> set (lr_granted res). \<forall>y \<in> set (lr_granted res).
     l_req_mode (res_locks res x) = LCK_COS \<and> l_req_mode (res_locks res y) = LCK_COS
     \<and> l_inodebits (res_locks res x) AND l_inodebits (res_locks res y) \<noteq> 0 \<longrightarrow>
     l_client_cookie (res_locks res x) = l_client_cookie (res_locks res y))"

lemma verify_ok: "req_ok res req \<Longrightarrow> lockmode_verify (l_req_mode (res_locks res req)) = Some ()"
  by (cases "l_req_mode (res_locks res req)") (simp_all add: req_ok_def lockmode_verify_def LCK_MAXMODE_def)

lemma granted_rings: "groups_ok res gs \<Longrightarrow> policy_rings Granted res gs"
  by (auto simp: groups_ok_def policy_rings_def mode_rings_def rings_def)

lemma waiting_rings:
  assumes "res_ok res" shows "policy_rings Waiting res (map (\<lambda>x. [[x]]) (lr_waiting res))"
proof -
  obtain gs where gs: "groups_ok res gs" using assms by (auto simp: res_ok_def skip_ok_def)
  have "ring (sl_mode res) [x] \<and> ring (sl_policy res) [x]" if "x \<in> set (lr_waiting res)" for x
  proof -
    have "x \<notin> set (lr_granted res)" using assms that by (auto simp: res_ok_def)
    then show ?thesis using gs by (auto simp: groups_ok_def rings_def)
  qed
  then have "\<forall>x \<in> set (lr_waiting res). ring (sl_mode res) [x] \<and> ring (sl_policy res) [x]" by blast
  moreover have "map concat (map (\<lambda>x. [[x]]) (lr_waiting res)) = map (\<lambda>x. [x]) (lr_waiting res)" by simp
  moreover have "concat (map (\<lambda>x. [x]) (lr_waiting res)) = lr_waiting res" by simp
  ultimately show ?thesis using assms unfolding policy_rings_def mode_rings_def res_ok_def by (simp add: comp_def)
qed

definition queue_groups :: "res_queue \<Rightarrow> ldlm_resource \<Rightarrow> nat list list list \<Rightarrow> bool" where
  "queue_groups q res gs \<longleftrightarrow> policy_rings q res gs
    \<and> (\<forall>mg \<in> set gs. same (\<lambda>i. l_req_mode (res_locks res i)) (concat mg))
    \<and> (\<forall>mg \<in> set gs. \<forall>pg \<in> set mg. same (\<lambda>i. l_inodebits (res_locks res i)) pg)"

lemma queue_groups_ex:
  assumes "res_ok res" "q \<noteq> Converting"
  shows "\<exists>gs. queue_groups q res gs \<and> (q = Waiting \<longrightarrow> gs = map (\<lambda>x. [[x]]) (lr_waiting res))"
proof (cases q)
  case Granted
  obtain gs where gs: "groups_ok res gs" using assms by (auto simp: res_ok_def skip_ok_def)
  then show ?thesis using Granted granted_rings [OF gs] by (auto simp: queue_groups_def groups_ok_def)
next
  case Waiting
  then show ?thesis using waiting_rings [OF assms(1)] by (auto simp: queue_groups_def same_def)
qed (use assms in simp)

text \<open>What the loops give, for any request: they end, and what they report are locks of the queue.\<close>

lemma compat_queue_groups:
  assumes q: "queue_groups q res gs" and "ast_ok res" "req_ok res req" "lr_type res \<in> {LDLM_PLAIN, LDLM_IBITS}"
  shows "compat_queue res q req wl res = Some (scan_out req 1 wl res
    (if lr_type res = LDLM_PLAIN
     then concat (filter (\<lambda>g. mode_conflict res req (hd g)) (before_req req (map concat gs)))
     else concat (map (ibits_blocking res req)
         (filter (\<lambda>mg. mode_conflict res req (hd (concat mg))) (takeWhile (\<lambda>mg. hd (concat mg) \<noteq> req) gs)))))"
proof -
  have r: "policy_rings q res ([] @ gs)" "mode_rings q res ([] @ map concat gs)" "queue q res = concat (map concat gs)"
    using q by (auto simp: queue_groups_def policy_rings_def mode_rings_def)
  show ?thesis
    using plain_loop_ok [OF r(2) assms(2)] ibits_loop_ok [OF r(1) assms(2)] verify_ok [OF assms(3)] r(3) assms(3,4)
    by (auto simp: compat_queue_def ldlm_plain_compat_queue_def ldlm_inodebits_compat_queue_def req_ok_def)
qed

lemma compat_queue_some:
  assumes "res_ok res" "ast_ok res" "req_ok res req" "q \<noteq> Converting"
  shows "\<exists>xs. compat_queue res q req wl res = Some (scan_out req 1 wl res xs) \<and> set xs \<subseteq> set (queue q res) \<and> distinct xs"
proof -
  obtain gs where gs: "queue_groups q res gs" using queue_groups_ex [OF assms(1,4)] by blast
  have l: "queue q res = concat (map concat gs)" "distinct (concat (map concat gs))"
    using gs by (auto simp: queue_groups_def policy_rings_def mode_rings_def)
  let ?xs = "concat (filter (\<lambda>g. mode_conflict res req (hd g)) (before_req req (map concat gs)))"
  let ?ys = "concat (map (ibits_blocking res req)
         (filter (\<lambda>mg. mode_conflict res req (hd (concat mg))) (takeWhile (\<lambda>mg. hd (concat mg) \<noteq> req) gs)))"
  have "set ?xs \<subseteq> set (queue q res)" unfolding l(1) by (rule filter_take_subset)
  moreover have "distinct ?xs" by (rule distinct_concat_filter [OF l(2)])
  moreover have "set ?ys \<subseteq> set (queue q res)" unfolding l(1) by (auto dest: set_takeWhileD)
  moreover have "distinct ?ys" using distinct_blocking [of "[]" gs] l(2) by simp
  moreover have "lr_type res \<in> {LDLM_PLAIN, LDLM_IBITS}" using assms(1) by (simp add: res_ok_def)
  ultimately show ?thesis using compat_queue_groups [OF gs assms(2,3)] by (intro exI [of _ "if lr_type res = LDLM_PLAIN then ?xs else ?ys"]) simp
qed

lemma concat_filter_hd:
  "(\<And>g. g \<in> set P \<Longrightarrow> g \<noteq> [] \<and> ((\<forall>x \<in> set g. C x) \<or> (\<forall>x \<in> set g. \<not> C x))) \<Longrightarrow>
   concat (filter (\<lambda>g. C (hd g)) P) = filter C (concat P)"
proof (induction P)
  case (Cons g P)
  have "filter C g = (if C (hd g) then g else [])" using Cons.prems [of g] by (cases g) (auto intro: filter_True filter_False)
  then show ?case using Cons by auto
qed simp

lemma concat_map_filter_hd:
  "(\<And>mg. mg \<in> set G \<Longrightarrow> concat mg \<noteq> [] \<and> B mg = filter I (concat mg)
      \<and> ((\<forall>x \<in> set (concat mg). C x) \<or> (\<forall>x \<in> set (concat mg). \<not> C x))) \<Longrightarrow>
   concat (map B (filter (\<lambda>mg. C (hd (concat mg))) G)) = filter (\<lambda>x. C x \<and> I x) (concat (map concat G))"
proof (induction G)
  case (Cons mg G)
  have mg: "concat mg \<noteq> []" "B mg = filter I (concat mg)" 
    "(\<forall>x \<in> set (concat mg). C x) \<or> (\<forall>x \<in> set (concat mg). \<not> C x)" using Cons.prems [of mg] by auto
  have hd: "hd (concat mg) \<in> set (concat mg)" using mg(1) hd_in_set by blast
  have "filter (\<lambda>x. C x \<and> I x) (concat mg) = (if C (hd (concat mg)) then B mg else [])"
  proof (cases "C (hd (concat mg))")
    case True
    then have "\<forall>x \<in> set (concat mg). C x" using hd mg(3) by blast
    then have "filter (\<lambda>x. C x \<and> I x) (concat mg) = filter I (concat mg)" by (intro filter_cong) blast+
    then show ?thesis using True mg(2) by simp
  next
    case False
    then have "\<forall>x \<in> set (concat mg). \<not> C x" using hd mg(3) by blast
    then show ?thesis using False by (auto intro: filter_False)
  qed
  then show ?case using Cons by auto
qed simp

lemma sameD: "\<lbrakk>same f xs; x \<in> set xs; y \<in> set xs\<rbrakk> \<Longrightarrow> f x = f y"
  by (auto simp: same_def)

lemma takeWhile_all: "(\<And>x. x \<in> set xs \<Longrightarrow> P x) \<Longrightarrow> takeWhile P xs = xs"
  by (simp add: takeWhile_eq_all_conv)

lemma conflicts_same:
  assumes gs: "queue_groups q res gs" "mg \<in> set gs" "pg \<in> set mg" and cos: "q = Granted \<longrightarrow> cos_ok res" "q \<noteq> Converting"
    and w: "q = Waiting \<longrightarrow> pg = [x]" and x: "x \<in> set pg" "y \<in> set pg"
  shows "ibits_conflict res x req \<longleftrightarrow> ibits_conflict res y req"
proof (cases q)
  case Granted
  have m: "l_req_mode (res_locks res x) = l_req_mode (res_locks res y)"
    by (rule sameD [of _ "concat mg"]) (use gs x in \<open>auto simp: queue_groups_def\<close>)
  have b: "l_inodebits (res_locks res x) = l_inodebits (res_locks res y)"
    by (rule sameD [of _ pg]) (use gs x in \<open>auto simp: queue_groups_def\<close>)
  have "x \<in> set (queue q res)" "y \<in> set (queue q res)"
    using gs x by (auto simp: queue_groups_def policy_rings_def mode_rings_def)
  then have "l_client_cookie (res_locks res x) = l_client_cookie (res_locks res y)"
    if "l_req_mode (res_locks res x) = LCK_COS" "l_inodebits (res_locks res x) \<noteq> 0"
    using that cos m b Granted unfolding cos_ok_def by (metis and.idem queue.simps(1))
  then show ?thesis using m b by (cases "l_inodebits (res_locks res x) = 0") (auto simp: ibits_conflict_def)
next
  case Waiting
  then show ?thesis using w x by simp
qed (use cos in simp)

lemma compat_queue_scan:
  assumes "res_ok res" "ast_ok res" "req_ok res req" "q \<noteq> Converting" "req \<notin> set (lr_granted res)" "cos_ok res"
  shows "compat_queue res q req wl res
    = Some (scan_out req 1 wl res (filter (\<lambda>x. conflicts res x req) (takeWhile (\<lambda>x. x \<noteq> req) (queue q res))))"
proof -
  obtain gs where gs: "queue_groups q res gs" and w: "q = Waiting \<longrightarrow> gs = map (\<lambda>x. [[x]]) (lr_waiting res)"
    using queue_groups_ex [OF assms(1,4)] by blast
  have ty: "lr_type res \<in> {LDLM_PLAIN, LDLM_IBITS}" using assms(1) by (simp add: res_ok_def)
  let ?gs = "takeWhile (\<lambda>mg. hd (concat mg) \<noteq> req) gs"
  have l: "queue q res = concat (map concat gs)" using gs by (auto simp: queue_groups_def policy_rings_def mode_rings_def)
  have ne: "concat mg \<noteq> [] \<and> (\<forall>pg \<in> set mg. pg \<noteq> [])" if "mg \<in> set gs" for mg
    using gs that by (auto simp: queue_groups_def policy_rings_def mode_rings_def ring_def)
  have take: "takeWhile (\<lambda>x. x \<noteq> req) (queue q res) = concat (map concat ?gs)"
  proof (cases q)
    case Granted
    have "hd (concat mg) \<noteq> req" if "mg \<in> set gs" for mg
    proof -
      have "hd (concat mg) \<in> set (concat mg)" using ne [OF that] hd_in_set by blast
      then have "hd (concat mg) \<in> set (queue q res)" using that unfolding l by auto
      then show ?thesis using assms(5) Granted by auto
    qed
    then have g1: "?gs = gs" by (intro takeWhile_all) blast
    have g2: "takeWhile (\<lambda>x. x \<noteq> req) (queue q res) = queue q res" using assms(5) Granted by (intro takeWhile_all) auto
    show ?thesis unfolding g1 g2 by (rule l)
  next
    case Waiting
    then show ?thesis using w l by (simp add: takeWhile_map comp_def)
  qed (use assms in simp)
  have m: "(\<forall>x \<in> set (concat mg). mode_conflict res req x) \<or> (\<forall>x \<in> set (concat mg). \<not> mode_conflict res req x)"
    if "mg \<in> set gs" for mg
  proof -
    have "same (\<lambda>i. l_req_mode (res_locks res i)) (concat mg)" using gs that by (auto simp: queue_groups_def)
    then show ?thesis by (metis sameD)
  qed
  have sub: "mg \<in> set gs" if "mg \<in> set ?gs" for mg using that by (auto dest: set_takeWhileD)
  have plain: "concat (filter (\<lambda>g. mode_conflict res req (hd g)) (map concat ?gs)) = filter (mode_conflict res req) (concat (map concat ?gs))"
  proof (rule concat_filter_hd)
    fix g assume "g \<in> set (map concat ?gs)"
    then obtain mg where mg: "mg \<in> set gs" "g = concat mg" using sub by auto
    show "g \<noteq> [] \<and> ((\<forall>x \<in> set g. mode_conflict res req x) \<or> (\<forall>x \<in> set g. \<not> mode_conflict res req x))"
      using ne [OF mg(1)] m [OF mg(1)] unfolding mg(2) by blast
  qed
  have ib: "ibits_blocking res req mg = filter (\<lambda>x. ibits_conflict res x req) (concat mg)" if mg: "mg \<in> set gs" for mg
  proof (rule concat_filter_hd)
    fix pg assume pg: "pg \<in> set mg"
    have "ibits_conflict res x req \<longleftrightarrow> ibits_conflict res y req" if "x \<in> set pg" "y \<in> set pg" for x y
      by (rule conflicts_same [OF gs mg pg]) (use assms that w mg pg in auto)
    then show "pg \<noteq> [] \<and> ((\<forall>x \<in> set pg. ibits_conflict res x req) \<or> (\<forall>x \<in> set pg. \<not> ibits_conflict res x req))"
      using ne [OF mg] pg by blast
  qed
  have ibits: "concat (map (ibits_blocking res req) (filter (\<lambda>mg. mode_conflict res req (hd (concat mg))) ?gs))
    = filter (\<lambda>x. mode_conflict res req x \<and> ibits_conflict res x req) (concat (map concat ?gs))"
  proof (rule concat_map_filter_hd)
    fix mg assume "mg \<in> set ?gs"
    then have "mg \<in> set gs" by (rule sub)
    then show "concat mg \<noteq> [] \<and> ibits_blocking res req mg = filter (\<lambda>x. ibits_conflict res x req) (concat mg)
      \<and> ((\<forall>x \<in> set (concat mg). mode_conflict res req x) \<or> (\<forall>x \<in> set (concat mg). \<not> mode_conflict res req x))"
      using ne m ib by blast
  qed
  have bf: "before_req req (map concat gs) = map concat ?gs" by (simp add: takeWhile_map comp_def)
  show ?thesis using compat_queue_groups [OF gs assms(2,3) ty, of wl] ty
    unfolding bf plain ibits take by (auto simp: conflicts_def)
qed

end
