(* ===== verification/LdlmServer.thy ===== *)
theory LdlmServer
  imports LdlmCompat
begin

text \<open>
  The lock server at work on one resource of plain or inode-bits locks: requests, blocking and
  completion callbacks, cancellations, reprocessing and downgrading, interleaved at the points
  where the code gives up the lock of the resource. The theory shows that no interleaving fails an
  assertion or loops, that no two granted locks conflict, that whoever blocks a waiting lock has
  been asked to give way, and that a waiting lock at the head of the queue has someone to wait for.
\<close>

section \<open>The operations on well-formed queues\<close>

definition unlinked :: "nat \<Rightarrow> ldlm_resource \<Rightarrow> ldlm_resource" where
  "unlinked i res = res\<lparr>lr_granted := removeAll i (lr_granted res), lr_converting := removeAll i (lr_converting res),
    lr_waiting := removeAll i (lr_waiting res), sl_mode := cfs_list_del_init i (sl_mode res),
    sl_policy := cfs_list_del_init i (sl_policy res)\<rparr>"

lemma unlinked_fields [simp]:
  "lr_granted (unlinked i res) = removeAll i (lr_granted res)" "lr_waiting (unlinked i res) = removeAll i (lr_waiting res)"
  "lr_converting (unlinked i res) = removeAll i (lr_converting res)" "lr_type (unlinked i res) = lr_type res"
  "res_locks (unlinked i res) = res_locks res" "pl_granted (unlinked i res) = pl_granted res"
  "ns_client (unlinked i res) = ns_client res" "lr_most_restr (unlinked i res) = lr_most_restr res"
  by (simp_all add: unlinked_def)

lemma unlink_ok:
  assumes "res_ok res" shows "ldlm_resource_unlink_lock i res = Some (unlinked i res) \<and> res_ok (unlinked i res)"
proof -
  obtain gs where "groups_ok res gs" using assms by (auto simp: res_ok_def skip_ok_def)
  then have "skip_ok (unlinked i res)" unfolding skip_ok_def unlinked_def using groups_ok_unlink by blast
  moreover have "ldlm_resource_unlink_lock i res = Some (unlinked i res)"
    using assms by (auto simp: ldlm_resource_unlink_lock_def ldlm_unlink_lock_skiplist_def unlinked_def res_ok_def)
  ultimately show ?thesis using assms by (auto simp: res_ok_def distinct_removeAll)
qed

text \<open>What granting does to the lock; the completion callback is queued when a list is given.\<close>

definition needs_cp :: "nat list option \<Rightarrow> ldlm_lock \<Rightarrow> bool" where
  "needs_cp wl k \<longleftrightarrow> wl \<noteq> None \<and> l_completion_ast k \<and> \<not> has_flag (l_flags k) LDLM_FL_CP_REQD"

definition granted_lock :: "nat list option \<Rightarrow> ldlm_lock \<Rightarrow> ldlm_lock" where
  "granted_lock wl k =
    (if needs_cp wl k then k\<lparr>l_granted_mode := l_req_mode k, l_flags := l_flags k OR LDLM_FL_CP_REQD, l_cp_ast := True\<rparr>
     else k\<lparr>l_granted_mode := l_req_mode k\<rparr>)"

definition cp_ok :: "ldlm_resource \<Rightarrow> bool" where
  "cp_ok res \<longleftrightarrow> (\<forall>i. \<not> has_flag (l_flags (res_locks res i)) LDLM_FL_CP_REQD \<longrightarrow> \<not> l_cp_ast (res_locks res i))"

lemma skip_ok_locks:
  assumes "skip_ok res" "\<And>j. l_req_mode (K j) = l_req_mode (res_locks res j) \<and> l_inodebits (K j) = l_inodebits (res_locks res j)"
    "lr_granted res' = lr_granted res" "sl_mode res' = sl_mode res" "sl_policy res' = sl_policy res" "res_locks res' = K"
  shows "skip_ok res'"
  using assms groups_ok_cong [of res _ res'] unfolding skip_ok_def by metis

lemma self_links:
  assumes "skip_ok res" "i \<notin> set (lr_granted res)"
  shows "cfs_list_empty i (sl_mode res) \<and> cfs_list_empty i (sl_policy res) \<and> ring (sl_mode res) [i] \<and> ring (sl_policy res) [i]"
proof -
  obtain gs where "groups_ok res gs" using assms(1) by (auto simp: skip_ok_def)
  then have "ring (sl_mode res) [i]" "ring (sl_policy res) [i]" using assms(2) by (auto simp: groups_ok_def rings_def)
  then show ?thesis by (simp add: ring_self cfs_list_empty_def)
qed

lemma grant_skiplist_ok:
  assumes "res_ok res" "\<not> res_linked res i" "\<not> l_destroyed (res_locks res i)" "l_req_mode (res_locks res i) = l_granted_mode (res_locks res i)"
  shows "\<exists>xs ys L M. lr_granted res = xs @ ys
    \<and> ldlm_grant_lock_with_skiplist i res = Some (res\<lparr>lr_granted := xs @ i # ys, sl_mode := L, sl_policy := M\<rparr>)
    \<and> skip_ok (res\<lparr>lr_granted := xs @ i # ys, sl_mode := L, sl_policy := M\<rparr>)"
proof -
  have r: "skip_ok res" "i \<notin> set (lr_granted res)" "lr_type res \<in> {LDLM_PLAIN, LDLM_IBITS}"
    using assms(1,2) by (auto simp: res_ok_def res_linked_def)
  obtain p where p: "search_granted_lock res i = Some p" "good_point res i p" using search_granted_lock_ok [OF r] by blast
  then obtain xs ys where xy: "lr_granted res = xs @ ys" "list_insert_after i (res_link p) (lr_granted res) = Some (xs @ i # ys)"
    "skip_ok (res\<lparr>lr_granted := xs @ i # ys, sl_mode := cfs_list_add i (mode_link p) (sl_mode res),
        sl_policy := cfs_list_add i (policy_link p) (sl_policy res)\<rparr>)" unfolding good_point_def by blast
  have "ldlm_grant_lock_with_skiplist i res = Some (res\<lparr>lr_granted := xs @ i # ys, sl_mode := cfs_list_add i (mode_link p) (sl_mode res),
        sl_policy := cfs_list_add i (policy_link p) (sl_policy res)\<rparr>)"
    using p(1) xy(2) assms(2-4) self_links [OF r(1,2)]
    by (simp add: ldlm_grant_lock_with_skiplist_def ldlm_granted_list_add_lock_def)
  then show ?thesis using xy(1,3) by blast
qed

lemma granted_lock_fields [simp]:
  "l_req_mode (granted_lock wl k) = l_req_mode k" "l_granted_mode (granted_lock wl k) = l_req_mode k"
  "l_inodebits (granted_lock wl k) = l_inodebits k" "l_client_cookie (granted_lock wl k) = l_client_cookie k"
  "l_blocking_ast (granted_lock wl k) = l_blocking_ast k" "l_destroyed (granted_lock wl k) = l_destroyed k"
  "l_completion_ast (granted_lock wl k) = l_completion_ast k"
  "l_bl_ast (granted_lock wl k) = l_bl_ast k" "l_blocking_lock (granted_lock wl k) = l_blocking_lock k"
  "l_bl_ast_run (granted_lock wl k) = l_bl_ast_run k" "l_readers (granted_lock wl k) = l_readers k"
  "l_writers (granted_lock wl k) = l_writers k" "l_lru (granted_lock wl k) = l_lru k"
  by (simp_all add: granted_lock_def)

lemma grant_unfold:
  assumes "lr_type (upd_lock lock (\<lambda>l. l\<lparr>l_granted_mode := l_req_mode l\<rparr>) res) = LDLM_PLAIN
      \<or> lr_type (upd_lock lock (\<lambda>l. l\<lparr>l_granted_mode := l_req_mode l\<rparr>) res) = LDLM_IBITS"
    and "ldlm_grant_lock_with_skiplist lock (upd_lock lock (\<lambda>l. l\<lparr>l_granted_mode := l_req_mode l\<rparr>) res) = Some res2"
  shows "ldlm_grant_lock lock wl res =
    (let res3 = (if l_granted_mode (res_locks res2 lock) < lr_most_restr res2
                 then res2\<lparr>lr_most_restr := l_granted_mode (res_locks res2 lock)\<rparr> else res2)
     in map_option (apsnd ldlm_pool_add) (case wl of
         Some w \<Rightarrow> if l_completion_ast (res_locks res3 lock)
                   then map_option (apfst Some) (ldlm_add_ast_work_item lock None w res3)
                   else Some (Some w, res3)
       | None \<Rightarrow> Some (None, res3)))"
proof -
  have *: "(x \<bind> (\<lambda>(w, r). Some (w, f r))) = map_option (apsnd f) x" for x :: "('a \<times> 'b) option" and f
    by (cases x) auto
  show ?thesis using assms unfolding ldlm_grant_lock_def Let_def by (simp add: *)
qed

lemma grant_ok:
  assumes "res_ok res" "\<not> res_linked res i" "\<not> l_destroyed (res_locks res i)" "cp_ok res"
  shows "\<exists>xs ys res'. ldlm_grant_lock i wl res
      = Some (map_option (\<lambda>w. if needs_cp wl (res_locks res i) then i # w else w) wl, res')
    \<and> lr_granted res = xs @ ys \<and> lr_granted res' = xs @ i # ys \<and> lr_waiting res' = lr_waiting res \<and> res_ok res'
    \<and> res_locks res' = (res_locks res)(i := granted_lock wl (res_locks res i))
    \<and> pl_granted res' = pl_granted res + 1 \<and> lr_type res' = lr_type res \<and> ns_client res' = ns_client res"
proof -
  let ?res1 = "upd_lock i (\<lambda>l. l\<lparr>l_granted_mode := l_req_mode l\<rparr>) res"
  have s: "skip_ok ?res1" by (rule skip_ok_locks [of res "res_locks ?res1"]) (use assms(1) in \<open>auto simp: res_ok_def upd_lock_def\<close>)
  have "\<exists>xs ys L M. lr_granted ?res1 = xs @ ys
    \<and> ldlm_grant_lock_with_skiplist i ?res1 = Some (?res1\<lparr>lr_granted := xs @ i # ys, sl_mode := L, sl_policy := M\<rparr>)
    \<and> skip_ok (?res1\<lparr>lr_granted := xs @ i # ys, sl_mode := L, sl_policy := M\<rparr>)"
    by (rule grant_skiplist_ok) (use assms s in \<open>auto simp: upd_lock_def res_ok_def res_linked_def\<close>)
  then obtain xs ys L M where xy: "lr_granted ?res1 = xs @ ys"
    "ldlm_grant_lock_with_skiplist i ?res1 = Some (?res1\<lparr>lr_granted := xs @ i # ys, sl_mode := L, sl_policy := M\<rparr>)"
    "skip_ok (?res1\<lparr>lr_granted := xs @ i # ys, sl_mode := L, sl_policy := M\<rparr>)" by (elim exE conjE)
  let ?res2 = "?res1\<lparr>lr_granted := xs @ i # ys, sl_mode := L, sl_policy := M\<rparr>"
  have ty: "lr_type ?res1 = LDLM_PLAIN \<or> lr_type ?res1 = LDLM_IBITS" using assms(1) by (auto simp: res_ok_def upd_lock_def)
  have xs: "lr_granted res = xs @ ys" using xy(1) by (simp add: upd_lock_def)
  have d: "distinct ((xs @ i # ys) @ lr_waiting res)" using assms(1,2) xs by (auto simp: res_ok_def res_linked_def)
  let ?m = "if l_req_mode (res_locks res i) < lr_most_restr res then l_req_mode (res_locks res i) else lr_most_restr res"
  let ?res' = "res\<lparr>lr_granted := xs @ i # ys, sl_mode := L, sl_policy := M, lr_most_restr := ?m,
    res_locks := (res_locks res)(i := granted_lock wl (res_locks res i)), pl_granted := pl_granted res + 1\<rparr>"
  have "ldlm_grant_lock i wl res = Some (map_option (\<lambda>w. if needs_cp wl (res_locks res i) then i # w else w) wl, ?res')"
  proof -
    have "lr_type res \<noteq> LDLM_FLOCK" using assms(1) by (auto simp: res_ok_def)
    moreover have "\<not> has_flag (l_flags (res_locks res i)) LDLM_FL_CP_REQD \<Longrightarrow> \<not> l_cp_ast (res_locks res i)"
      using assms(4) by (auto simp: cp_ok_def)
    ultimately show ?thesis
      by (cases wl; cases "l_req_mode (res_locks res i) < lr_most_restr res"; cases "needs_cp wl (res_locks res i)")
        (simp_all add: grant_unfold [OF ty xy(2)] ldlm_pool_add_def ldlm_add_ast_work_item_def ldlm_add_cp_work_item_def
        set_flag_def needs_cp_def granted_lock_def upd_lock_def Let_def)
  qed
  moreover have "skip_ok ?res'"
    by (rule skip_ok_locks [OF xy(3), of "(res_locks res)(i := granted_lock wl (res_locks res i))"]) (auto simp: upd_lock_def)
  ultimately show ?thesis using xs d assms(1)
    by - (rule exI [of _ xs], rule exI [of _ ys], rule exI [of _ ?res'], simp add: res_ok_def)
qed

section \<open>The server as a state machine\<close>

text \<open>
  The threads of the server take turns at the points where the code gives up the lock of the
  resource. \<open>Thr_enq lock rpc_list\<close> is an enqueue whose lock is not granted yet and that has the
  blocking callbacks of the list left to run; \<open>Thr_cp rpc_list\<close> has reprocessed the resource and has the
  completion callbacks of the list left to run.
\<close>

datatype thread = Thr_enq nat "nat list" | Thr_cp "nat list" | Thr_done

record ldlm_sys =
  sys_res :: ldlm_resource
  sys_threads :: "thread list"
  sys_used :: "nat list"

datatype action =
    A_enqueue nat ldlm_mode u64 u64 bool bool u64
  | A_bl_ast nat
  | A_restart nat
  | A_done nat
  | A_cancel_begin nat
  | A_cancel_finish nat
  | A_reprocess
  | A_cp_ast nat
  | A_reprocess_restart nat
  | A_downgrade nat

text \<open>
  When an action can happen. A request has a mode that a client may ask for and is not a replay;
  a lock is cancelled and downgraded at any time; an enqueue restarts when the callbacks it ran
  asked for it.
\<close>

definition enabled :: "action \<Rightarrow> ldlm_sys \<Rightarrow> bool" where
  "enabled a s = (case a of
      A_enqueue i mode bits cookie bl cp flags \<Rightarrow>
        i \<notin> set (sys_used s) \<and> mode \<noteq> LCK_MINMODE \<and> mode \<noteq> LCK_COS
        \<and> (lr_type (sys_res s) = LDLM_IBITS \<longrightarrow> bits \<noteq> 0) \<and> \<not> has_flag flags LDLM_FL_REPLAY
    | A_bl_ast n \<Rightarrow> n < length (sys_threads s) \<and> (case sys_threads s ! n of Thr_enq _ (_ # _) \<Rightarrow> True | _ \<Rightarrow> False)
    | A_restart n \<Rightarrow> n < length (sys_threads s) \<and> (case sys_threads s ! n of Thr_enq _ [] \<Rightarrow> True | _ \<Rightarrow> False)
    | A_done n \<Rightarrow> n < length (sys_threads s)
        \<and> (case sys_threads s ! n of Thr_enq _ [] \<Rightarrow> True | Thr_cp [] \<Rightarrow> True | _ \<Rightarrow> False)
    | A_cancel_begin i \<Rightarrow> i \<in> set (sys_used s)
    | A_cancel_finish i \<Rightarrow> i \<in> set (sys_used s)
    | A_reprocess \<Rightarrow> True
    | A_cp_ast n \<Rightarrow> n < length (sys_threads s) \<and> (case sys_threads s ! n of Thr_cp (_ # _) \<Rightarrow> True | _ \<Rightarrow> False)
    | A_reprocess_restart n \<Rightarrow> n < length (sys_threads s) \<and> sys_threads s ! n = Thr_cp []
    | A_downgrade i \<Rightarrow> i \<in> set (lr_granted (sys_res s)) \<and> l_granted_mode (res_locks (sys_res s) i) \<in> {LCK_PW, LCK_EX})"

fun enq_thread :: "nat \<Rightarrow> enq_result \<Rightarrow> thread" where
  "enq_thread i Enq_granted = Thr_done"
| "enq_thread i (Enq_ast rpc_list) = Thr_enq i rpc_list"

text \<open>What an action does; \<open>None\<close> is an assertion that fails or a loop that does not end.\<close>

definition perform :: "action \<Rightarrow> ldlm_sys \<Rightarrow> ldlm_sys option" where
  "perform a s = (case a of
      A_enqueue i mode bits cookie bl cp flags \<Rightarrow> do {
        res \<leftarrow> ldlm_lock_create i None
          (ldlm_lock_new mode bits \<lparr>le_start = 0, le_end = 0, le_gid = 0\<rparr> cookie None bl cp) (sys_res s);
        (_, _, r, res) \<leftarrow> ldlm_lock_enqueue policy_enq i None flags res;
        Some (s\<lparr>sys_res := res, sys_threads := sys_threads s @ [enq_thread i r], sys_used := i # sys_used s\<rparr>)
      }
    | A_bl_ast n \<Rightarrow> (case sys_threads s ! n of
          Thr_enq i (x # xs) \<Rightarrow> do {
            res \<leftarrow> ldlm_work_bl_ast_lock x (sys_res s);
            Some (s\<lparr>sys_res := res, sys_threads := (sys_threads s)[n := Thr_enq i xs]\<rparr>)
          }
        | _ \<Rightarrow> Some s)
    | A_restart n \<Rightarrow> (case sys_threads s ! n of
          Thr_enq i xs \<Rightarrow> do {
            (r, res) \<leftarrow> policy_restart i xs (sys_res s);
            Some (s\<lparr>sys_res := res, sys_threads := (sys_threads s)[n := enq_thread i r]\<rparr>)
          }
        | _ \<Rightarrow> Some s)
    | A_done n \<Rightarrow> Some (s\<lparr>sys_threads := (sys_threads s)[n := Thr_done]\<rparr>)
    | A_cancel_begin i \<Rightarrow> map_option (\<lambda>res. s\<lparr>sys_res := res\<rparr>) (ldlm_lock_cancel_begin i (sys_res s))
    | A_cancel_finish i \<Rightarrow> map_option (\<lambda>res. s\<lparr>sys_res := res\<rparr>) (ldlm_lock_cancel_finish i (sys_res s))
    | A_reprocess \<Rightarrow> do {
        (rpc_list, res) \<leftarrow> ldlm_reprocess_all policy_reproc (sys_res s);
        Some (s\<lparr>sys_res := res, sys_threads := sys_threads s @ [Thr_cp rpc_list]\<rparr>)
      }
    | A_cp_ast n \<Rightarrow> (case sys_threads s ! n of
          Thr_cp (x # xs) \<Rightarrow> do {
            (_, res) \<leftarrow> ldlm_work_cp_ast_lock x (sys_res s);
            Some (s\<lparr>sys_res := res, sys_threads := (sys_threads s)[n := Thr_cp xs]\<rparr>)
          }
        | _ \<Rightarrow> Some s)
    | A_reprocess_restart n \<Rightarrow> do {
        (rpc_list, res) \<leftarrow> ldlm_reprocess_all policy_reproc (sys_res s);
        Some (s\<lparr>sys_res := res, sys_threads := (sys_threads s)[n := Thr_cp rpc_list]\<rparr>)
      }
    | A_downgrade i \<Rightarrow> map_option (\<lambda>res. s\<lparr>sys_res := res\<rparr>) (ldlm_lock_downgrade i LCK_COS (sys_res s)))"

text \<open>A resource without locks, and the states that the actions lead to.\<close>

definition self_linked :: links where
  "self_linked = \<lparr>lnext = (\<lambda>i. i), lprev = (\<lambda>i. i)\<rparr>"

definition init_res :: "ldlm_type \<Rightarrow> int \<Rightarrow> ldlm_resource" where
  "init_res type pool =
    \<lparr>lr_granted = [], lr_converting = [], lr_waiting = [], lr_most_restr = LCK_NL, lr_type = type, lr_itree = [],
     lr_contention_time = 0,
     res_locks = (\<lambda>_. ldlm_lock_new LCK_NL 0 \<lparr>le_start = 0, le_end = 0, le_gid = 0\<rparr> 0 None False False),
     sl_mode = self_linked, sl_policy = self_linked, res_intervals = new_interval, pl_granted = pool, ns_client = False\<rparr>"

inductive reachable :: "ldlm_type \<Rightarrow> ldlm_sys \<Rightarrow> bool" for type where
  reach_init: "pool \<ge> 0 \<Longrightarrow> reachable type \<lparr>sys_res = init_res type pool, sys_threads = [], sys_used = []\<rparr>"
| reach_step: "reachable type s \<Longrightarrow> enabled a s \<Longrightarrow> perform a s = Some s' \<Longrightarrow> reachable type s'"

section \<open>Invariants of the resource\<close>

text \<open>The requests and the bits that two locks contend for.\<close>

definition share :: "ldlm_resource \<Rightarrow> nat \<Rightarrow> nat \<Rightarrow> bool" where
  "share res x y \<longleftrightarrow> lr_type res = LDLM_PLAIN \<or> l_inodebits (res_locks res x) AND l_inodebits (res_locks res y) \<noteq> 0"

text \<open>
  Two granted locks: their modes are compatible, or one of them was downgraded to \<open>LCK_COS\<close> and the
  other belongs to the same client or was compatible with the mode before the downgrading.
\<close>

definition pair_ok :: "ldlm_resource \<Rightarrow> nat \<Rightarrow> nat \<Rightarrow> bool" where
  "pair_ok res x y \<longleftrightarrow> (share res x y \<longrightarrow>
    (let a = l_req_mode (res_locks res x); b = l_req_mode (res_locks res y);
         same_client = (l_client_cookie (res_locks res x) = l_client_cookie (res_locks res y))
     in if a = LCK_COS \<and> b = LCK_COS then same_client
        else if a = LCK_COS then same_client \<or> b \<in> {LCK_CR, LCK_NL}
        else if b = LCK_COS then same_client \<or> a \<in> {LCK_CR, LCK_NL}
        else lockmode_compat a b))"

fun before :: "'a list \<Rightarrow> 'a \<Rightarrow> 'a \<Rightarrow> bool" where
  "before [] x w = False"
| "before (y # ys) x w = (y = x \<and> w \<in> set ys \<or> before ys x w)"

text \<open>Whoever holds up a waiting lock was asked to give way.\<close>

definition told :: "ldlm_resource \<Rightarrow> bool" where
  "told res \<longleftrightarrow> (\<forall>w \<in> set (lr_waiting res). \<forall>x. (x \<in> set (lr_granted res) \<or> before (lr_waiting res) x w)
    \<and> conflicts res x w \<and> l_blocking_ast (res_locks res x) \<and> l_req_mode (res_locks res x) \<noteq> LCK_COS \<longrightarrow> ast_sent res x)"

definition pairs_ok :: "ldlm_resource \<Rightarrow> bool" where
  "pairs_ok res \<longleftrightarrow> (\<forall>x \<in> set (lr_granted res). \<forall>y \<in> set (lr_granted res). x \<noteq> y \<longrightarrow> pair_ok res x y)"

definition members_ok :: "ldlm_resource \<Rightarrow> bool" where
  "members_ok res \<longleftrightarrow>
    (\<forall>i \<in> set (lr_granted res). l_granted_mode (res_locks res i) = l_req_mode (res_locks res i)
       \<and> \<not> l_destroyed (res_locks res i) \<and> req_ok res i)
    \<and> (\<forall>i \<in> set (lr_waiting res). \<not> l_destroyed (res_locks res i) \<and> req_ok res i
       \<and> l_req_mode (res_locks res i) \<noteq> LCK_COS)"

definition memory_ok :: "ldlm_resource \<Rightarrow> bool" where
  "memory_ok res \<longleftrightarrow> (\<forall>i. l_readers (res_locks res i) = 0 \<and> l_writers (res_locks res i) = 0 \<and> \<not> l_lru (res_locks res i)
    \<and> (\<not> ast_sent res i \<longrightarrow> l_bl_ast_run (res_locks res i) = 0))"

text \<open>The pool counts at least the locks that have been granted and not cancelled.\<close>

definition pool_ok :: "nat list \<Rightarrow> ldlm_resource \<Rightarrow> bool" where
  "pool_ok used res \<longleftrightarrow>
    int (length (filter (\<lambda>i. l_granted_mode (res_locks res i) = l_req_mode (res_locks res i)) used)) \<le> pl_granted res"

definition res_inv :: "nat list \<Rightarrow> ldlm_resource \<Rightarrow> bool" where
  "res_inv used res \<longleftrightarrow> res_ok res \<and> \<not> ns_client res \<and> members_ok res \<and> memory_ok res \<and> ast_ok res \<and> cp_ok res
    \<and> pairs_ok res \<and> told res \<and> pool_ok used res \<and> distinct used
    \<and> set (lr_granted res) \<union> set (lr_waiting res) \<subseteq> set used"

section \<open>Conflicts\<close>

lemma compat_code:
  "lockmode_compat a b \<longleftrightarrow>
    (case a of LCK_MINMODE \<Rightarrow> False | LCK_EX \<Rightarrow> b = LCK_NL | LCK_PW \<Rightarrow> b \<in> {LCK_NL, LCK_CR}
     | LCK_PR \<Rightarrow> b \<in> {LCK_NL, LCK_CR, LCK_PR} | LCK_CW \<Rightarrow> b \<in> {LCK_NL, LCK_CR, LCK_CW}
     | LCK_CR \<Rightarrow> b \<in> {LCK_NL, LCK_CR, LCK_CW, LCK_PR, LCK_PW}
     | LCK_NL \<Rightarrow> b \<in> {LCK_NL, LCK_CR, LCK_CW, LCK_PR, LCK_PW, LCK_EX, LCK_GROUP}
     | LCK_GROUP \<Rightarrow> b \<in> {LCK_GROUP, LCK_NL} | LCK_COS \<Rightarrow> b = LCK_COS)"
  by (cases a; cases b) (simp_all add: lockmode_compat_def LCK_COMPAT_defs)

lemma compat_sym: "lockmode_compat a b \<longleftrightarrow> lockmode_compat b a"
  by (cases a; cases b) (simp_all add: compat_code)

lemma conflicts_sym:
  assumes "l_req_mode (res_locks res x) \<noteq> LCK_COS" "l_req_mode (res_locks res y) \<noteq> LCK_COS"
  shows "conflicts res x y \<longleftrightarrow> conflicts res y x"
  using assms compat_sym by (auto simp: conflicts_def ibits_conflict_def and.commute)

lemma no_conflict_pair:
  assumes "\<not> conflicts res x y" "l_req_mode (res_locks res y) \<noteq> LCK_COS" "lr_type res \<in> {LDLM_PLAIN, LDLM_IBITS}"
  shows "pair_ok res x y \<and> pair_ok res y x"
proof -
  let ?a = "l_req_mode (res_locks res x)" and ?b = "l_req_mode (res_locks res y)"
  have cos: "?a = LCK_COS \<Longrightarrow> \<not> lockmode_compat ?a ?b" using assms(2) by (auto simp: compat_code)
  have "share res x y \<Longrightarrow> if ?a = LCK_COS then l_client_cookie (res_locks res x) = l_client_cookie (res_locks res y) else lockmode_compat ?a ?b"
    using assms cos by (auto simp: conflicts_def ibits_conflict_def share_def)
  then show ?thesis using assms(2) compat_sym [of ?a ?b] unfolding pair_ok_def Let_def by (auto simp: share_def and.commute split: if_splits)
qed

lemma pairs_cos_ok: assumes "pairs_ok res" shows "cos_ok res"
  unfolding cos_ok_def
proof (intro ballI impI)
  fix x y assume "x \<in> set (lr_granted res)" "y \<in> set (lr_granted res)"
    and c: "l_req_mode (res_locks res x) = LCK_COS \<and> l_req_mode (res_locks res y) = LCK_COS
     \<and> l_inodebits (res_locks res x) AND l_inodebits (res_locks res y) \<noteq> 0"
  then have "x \<noteq> y \<longrightarrow> pair_ok res x y" using assms by (auto simp: pairs_ok_def)
  then show "l_client_cookie (res_locks res x) = l_client_cookie (res_locks res y)"
    using c by (cases "x = y") (auto simp: pair_ok_def share_def)
qed

text \<open>The part of a lock that the conflicts depend on.\<close>

definition static :: "ldlm_lock \<Rightarrow> ldlm_mode \<times> u64 \<times> u64 \<times> bool \<times> bool" where
  "static k = (l_req_mode k, l_inodebits k, l_client_cookie k, l_blocking_ast k, l_destroyed k)"

definition alike :: "ldlm_resource \<Rightarrow> ldlm_resource \<Rightarrow> bool" where
  "alike res res' \<longleftrightarrow> lr_type res' = lr_type res \<and> (\<forall>i. static (res_locks res' i) = static (res_locks res i))"

lemma alike_lock:
  assumes "alike res res'"
  shows "l_req_mode (res_locks res' i) = l_req_mode (res_locks res i)" "l_inodebits (res_locks res' i) = l_inodebits (res_locks res i)"
    "l_client_cookie (res_locks res' i) = l_client_cookie (res_locks res i)" "l_blocking_ast (res_locks res' i) = l_blocking_ast (res_locks res i)"
    "l_destroyed (res_locks res' i) = l_destroyed (res_locks res i)" "lr_type res' = lr_type res"
  using assms by (auto simp: alike_def static_def)

lemma alike_preds:
  assumes "alike res res'"
  shows "conflicts res' x y = conflicts res x y" "pair_ok res' x y = pair_ok res x y" "req_ok res' x = req_ok res x"
  using alike_lock [OF assms] by (simp_all add: conflicts_def ibits_conflict_def pair_ok_def share_def req_ok_def)

lemma pairs_ok_mono:
  "\<lbrakk>pairs_ok res; alike res res'; set (lr_granted res') \<subseteq> set (lr_granted res)\<rbrakk> \<Longrightarrow> pairs_ok res'"
  unfolding pairs_ok_def by (auto simp: alike_preds)

lemma before_filter: "before (filter P xs) x w \<Longrightarrow> before xs x w"
  by (induction xs) (auto split: if_splits)

lemma before_append: "before (xs @ [l]) x w \<longleftrightarrow> before xs x w \<or> x \<in> set xs \<and> w = l"
  by (induction xs) auto

lemma before_mem: "before xs x w \<Longrightarrow> x \<in> set xs \<and> w \<in> set xs"
  by (induction xs) auto

lemma before_take: "\<lbrakk>l \<in> set xs; w \<in> set xs; w \<noteq> l\<rbrakk> \<Longrightarrow> before xs l w \<or> w \<in> set (takeWhile (\<lambda>x. x \<noteq> l) xs)"
  by (induction xs) auto

lemma told_mono:
  assumes "told res" "alike res res'" "set (lr_granted res') \<subseteq> set (lr_granted res)" "lr_waiting res' = filter P (lr_waiting res)"
    "\<And>i. ast_sent res i \<Longrightarrow> ast_sent res' i"
  shows "told res'"
  using assms(1,3,4,5) before_filter [of P "lr_waiting res"] unfolding told_def by (auto simp: alike_preds [OF assms(2)] alike_lock [OF assms(2)])

section \<open>The operations keep the invariants\<close>

lemma res_inv_parts:
  assumes "res_inv used res"
  shows "res_ok res" "\<not> ns_client res" "members_ok res" "memory_ok res" "ast_ok res" "cp_ok res" "pairs_ok res" "told res"
    "pool_ok used res" "distinct used" "set (lr_granted res) \<union> set (lr_waiting res) \<subseteq> set used"
    "lr_type res \<in> {LDLM_PLAIN, LDLM_IBITS}" "lr_converting res = []" "distinct (lr_granted res @ lr_waiting res)" "skip_ok res"
    "cos_ok res"
  using assms pairs_cos_ok by (auto simp: res_inv_def res_ok_def)

lemma marked_alike: "alike res (marked r xs res)"
  by (simp add: alike_def static_def)

lemma cp_flags [simp]: "\<not> has_flag LDLM_FL_AST_SENT LDLM_FL_CP_REQD" "\<not> has_flag LDLM_FL_DISCARD_DATA LDLM_FL_CP_REQD"
  "\<not> has_flag LDLM_FL_CP_REQD LDLM_FL_AST_SENT" "has_flag LDLM_FL_CP_REQD LDLM_FL_CP_REQD"
  by (simp_all add: LDLM_FL_defs has_flag_def)

lemma marked_cp: "has_flag (l_flags (res_locks (marked r xs res) i)) LDLM_FL_CP_REQD \<longleftrightarrow> has_flag (l_flags (res_locks res i)) LDLM_FL_CP_REQD"
  by (simp add: marked_def mark_flag)

lemma marked_inv: assumes "res_inv used res" shows "res_inv used (marked r xs res)"
proof -
  note i = res_inv_parts [OF assms]
  have "skip_ok (marked r xs res)"
    by (rule skip_ok_locks [OF i(15), of "res_locks (marked r xs res)"]) auto
  then have "res_ok (marked r xs res)" using i(1) by (simp add: res_ok_def)
  moreover have "members_ok (marked r xs res)" using i(3) by (simp add: members_ok_def alike_preds [OF marked_alike])
  moreover have "memory_ok (marked r xs res)" using i(4) unfolding memory_ok_def ast_sent_marked by simp
  moreover have "cp_ok (marked r xs res)" using i(6) unfolding cp_ok_def marked_cp by simp
  moreover have "pairs_ok (marked r xs res)" by (rule pairs_ok_mono [OF i(7) marked_alike]) simp
  moreover have "told (marked r xs res)"
    by (rule told_mono [OF i(8) marked_alike, where P = "\<lambda>_. True"]) (auto simp: ast_sent_marked)
  ultimately show ?thesis using i ast_ok_marked by (auto simp: res_inv_def pool_ok_def)
qed

lemma unlinked_inv: assumes "res_inv used res" shows "res_inv used (unlinked j res)"
proof -
  note i = res_inv_parts [OF assms]
  have a: "alike res (unlinked j res)" by (simp add: alike_def)
  have "members_ok (unlinked j res)" using i(3) by (auto simp: members_ok_def alike_preds [OF a])
  moreover have "pairs_ok (unlinked j res)" by (rule pairs_ok_mono [OF i(7) a]) auto
  moreover have "told (unlinked j res)"
    by (rule told_mono [OF i(8) a, where P = "\<lambda>x. j \<noteq> x"]) (auto simp: removeAll_filter_not_eq)
  moreover have "res_ok (unlinked j res)" using unlink_ok [OF i(1)] by simp
  ultimately show ?thesis using i by (auto simp: res_inv_def memory_ok_def ast_ok_def cp_ok_def pool_ok_def)
qed

lemma filter_one_more: "distinct xs \<Longrightarrow> length (filter (\<lambda>j. j = i \<or> Q j) xs) \<le> Suc (length (filter Q xs))"
proof (induction xs)
  case (Cons x xs)
  have "i \<notin> set xs \<Longrightarrow> filter (\<lambda>j. j = i \<or> Q j) xs = filter Q xs" by (auto intro: filter_cong)
  then show ?case using Cons by (cases "x = i") auto
qed simp

lemma pool_ok_grant:
  assumes "pool_ok used res" "distinct used" "pl_granted res' = pl_granted res + 1"
    "\<And>j. j \<noteq> i \<Longrightarrow> res_locks res' j = res_locks res j"
  shows "pool_ok used res'"
proof -
  let ?Q = "\<lambda>res j. l_granted_mode (res_locks res j) = l_req_mode (res_locks res j)"
  have "length (filter (?Q res') used) \<le> length (filter (\<lambda>j. j = i \<or> ?Q res j) used)"
    using assms(4) by (induction used) auto
  also have "\<dots> \<le> Suc (length (filter (?Q res) used))" by (rule filter_one_more [OF assms(2)])
  finally show ?thesis using assms(1,3) unfolding pool_ok_def by linarith
qed

lemma granted_cp [simp]: "has_flag (l_flags (granted_lock wl k)) LDLM_FL_AST_SENT \<longleftrightarrow> has_flag (l_flags k) LDLM_FL_AST_SENT"
  by (simp add: granted_lock_def)

lemma grant_inv:
  assumes inv: "res_inv used res" and i: "i \<in> set used" "\<not> res_linked res i" "\<not> l_destroyed (res_locks res i)" "req_ok res i"
    and p: "\<And>x. x \<in> set (lr_granted res) \<Longrightarrow> pair_ok res x i \<and> pair_ok res i x"
    and w: "\<And>w. w \<in> set (lr_waiting res) \<Longrightarrow> conflicts res i w \<Longrightarrow> l_blocking_ast (res_locks res i) \<Longrightarrow>
      l_req_mode (res_locks res i) \<noteq> LCK_COS \<Longrightarrow> ast_sent res i"
  shows "\<exists>res'. ldlm_grant_lock i wl res
      = Some (map_option (\<lambda>w. if needs_cp wl (res_locks res i) then i # w else w) wl, res')
    \<and> res_inv used res' \<and> set (lr_granted res') = insert i (set (lr_granted res)) \<and> lr_waiting res' = lr_waiting res
    \<and> res_locks res' = (res_locks res)(i := granted_lock wl (res_locks res i)) \<and> lr_type res' = lr_type res"
proof -
  note v = res_inv_parts [OF inv]
  obtain xs ys res' where r: "ldlm_grant_lock i wl res
      = Some (map_option (\<lambda>w. if needs_cp wl (res_locks res i) then i # w else w) wl, res')"
    "lr_granted res = xs @ ys" "lr_granted res' = xs @ i # ys" "lr_waiting res' = lr_waiting res" "res_ok res'"
    "res_locks res' = (res_locks res)(i := granted_lock wl (res_locks res i))"
    "pl_granted res' = pl_granted res + 1" "lr_type res' = lr_type res" "ns_client res' = ns_client res"
    using grant_ok [OF v(1) i(2,3) v(6), of wl] by (elim exE conjE)
  have a: "alike res res'" using r by (simp add: alike_def static_def)
  have g: "set (lr_granted res') = insert i (set (lr_granted res))" using r by auto
  have s: "ast_sent res' j \<longleftrightarrow> ast_sent res j" for j using r granted_cp by simp
  have "members_ok res'" using v(3) g r i by (auto simp: members_ok_def alike_preds [OF a])
  moreover have "memory_ok res'" using v(4) r unfolding memory_ok_def s by simp
  moreover have "ast_ok res'" using v(5) r unfolding ast_ok_def s by simp
  moreover have "cp_ok res'" using v(6) r by (auto simp: cp_ok_def granted_lock_def needs_cp_def)
  moreover have "pairs_ok res'" using v(7) p g unfolding pairs_ok_def alike_preds [OF a] by auto
  moreover have "told res'" using v(8) w unfolding told_def alike_preds [OF a] alike_lock [OF a] s r(4) g by auto
  moreover have "pool_ok used res'" by (rule pool_ok_grant [OF v(9,10), of res' i]) (use r in auto)
  moreover have "set (lr_granted res') \<union> set (lr_waiting res') \<subseteq> set used" using v(11) g r i by auto
  ultimately have "res_inv used res'" using r v by (simp add: res_inv_def)
  then show ?thesis using r g by blast
qed

lemma grant_destroyed_inv:
  assumes inv: "res_inv used res" and i: "\<not> res_linked res i" "l_destroyed (res_locks res i)"
  shows "\<exists>res'. ldlm_grant_lock i None res = Some (None, res')
    \<and> res_inv used res' \<and> lr_granted res' = lr_granted res \<and> lr_waiting res' = lr_waiting res
    \<and> res_locks res' = (res_locks res)(i := granted_lock None (res_locks res i)) \<and> lr_type res' = lr_type res"
proof -
  note v = res_inv_parts [OF inv]
  let ?res1 = "upd_lock i (\<lambda>l. l\<lparr>l_granted_mode := l_req_mode l\<rparr>) res"
  have s: "skip_ok ?res1" by (rule skip_ok_locks [of res "res_locks ?res1"]) (use v(15) in \<open>auto simp: upd_lock_def\<close>)
  obtain p where "search_granted_lock ?res1 i = Some p"
    using search_granted_lock_ok [OF s, of i] i(1) v(12) by (auto simp: res_linked_def upd_lock_def)
  then have g: "ldlm_grant_lock_with_skiplist i ?res1 = Some ?res1"
    using i(2) by (simp add: ldlm_grant_lock_with_skiplist_def ldlm_granted_list_add_lock_def upd_lock_def)
  have ty: "lr_type ?res1 = LDLM_PLAIN \<or> lr_type ?res1 = LDLM_IBITS" using v(12) by (auto simp: upd_lock_def)
  let ?m = "if l_req_mode (res_locks res i) < lr_most_restr res then l_req_mode (res_locks res i) else lr_most_restr res"
  let ?res' = "?res1\<lparr>lr_most_restr := ?m, pl_granted := pl_granted res + 1\<rparr>"
  have e: "ldlm_grant_lock i None res = Some (None, ?res')"
    using v(12) by (auto simp: grant_unfold [OF ty g] Let_def ldlm_pool_add_def upd_lock_def)
  have l: "res_locks ?res' = (res_locks res)(i := granted_lock None (res_locks res i))"
    by (simp add: upd_lock_def granted_lock_def needs_cp_def)
  have f: "lr_granted ?res' = lr_granted res" "lr_waiting ?res' = lr_waiting res" "lr_type ?res' = lr_type res" "ns_client ?res' = ns_client res"
    "lr_converting ?res' = lr_converting res" "pl_granted ?res' = pl_granted res + 1" by (simp_all add: upd_lock_def)
  have a: "alike res ?res'" unfolding alike_def l f by (simp add: static_def)
  have n: "i \<notin> set (lr_granted res)" "i \<notin> set (lr_waiting res)" using i(1) by (auto simp: res_linked_def)
  have s': "ast_sent ?res' j \<longleftrightarrow> ast_sent res j" for j unfolding l using granted_cp by simp
  have "skip_ok ?res'" by (rule skip_ok_locks [OF s, of "res_locks ?res'"]) auto
  then have "res_ok ?res'" using v(1) unfolding res_ok_def f by simp
  moreover have "members_ok ?res'" using v(3) n unfolding members_ok_def f l alike_preds [OF a] by auto
  moreover have "memory_ok ?res'" using v(4) unfolding memory_ok_def s' l by simp
  moreover have "ast_ok ?res'" using v(5) unfolding ast_ok_def s' l by simp
  moreover have "cp_ok ?res'" using v(6) unfolding cp_ok_def l by (auto simp: granted_lock_def needs_cp_def)
  moreover have "pairs_ok ?res'" by (rule pairs_ok_mono [OF v(7) a]) (simp add: f)
  moreover have "told ?res'" by (rule told_mono [OF v(8) a, where P = "\<lambda>_. True"]) (simp_all only: f s', simp_all)
  moreover have "pool_ok used ?res'" by (rule pool_ok_grant [OF v(9,10) f(6), of i]) (simp add: l)
  ultimately have "res_inv used ?res'" using v unfolding res_inv_def f by simp
  then show ?thesis using e f(1-3) l by (intro exI [of _ ?res']) simp
qed

lemma wait_inv:
  assumes inv: "res_inv used res" and i: "i \<in> set used" "\<not> res_linked res i" "\<not> l_destroyed (res_locks res i)" "req_ok res i"
    "l_req_mode (res_locks res i) \<noteq> LCK_COS"
    and p: "\<And>x. x \<in> set (lr_granted res) \<union> set (lr_waiting res) \<Longrightarrow> conflicts res x i \<Longrightarrow> l_blocking_ast (res_locks res x) \<Longrightarrow>
       l_req_mode (res_locks res x) \<noteq> LCK_COS \<Longrightarrow> ast_sent res x"
  shows "ldlm_resource_add_lock res Waiting i = Some (res\<lparr>lr_waiting := lr_waiting res @ [i]\<rparr>)
    \<and> res_inv used (res\<lparr>lr_waiting := lr_waiting res @ [i]\<rparr>)"
proof -
  note v = res_inv_parts [OF inv]
  let ?res' = "res\<lparr>lr_waiting := lr_waiting res @ [i]\<rparr>"
  have a: "alike res ?res'" by (simp add: alike_def)
  have "skip_ok ?res'" by (rule skip_ok_locks [OF v(15), of "res_locks ?res'"]) auto
  then have "res_ok ?res'" using v(1) i(2) by (auto simp: res_ok_def res_linked_def)
  moreover have "members_ok ?res'" using v(3) i unfolding members_ok_def alike_preds [OF a] by auto
  moreover have "pairs_ok ?res'" by (rule pairs_ok_mono [OF v(7) a]) simp
  moreover have "told ?res'" using v(8) p unfolding told_def alike_preds [OF a] by (auto simp: before_append dest: before_mem)
  ultimately have "res_inv used ?res'" using v i(1) by (simp add: res_inv_def memory_ok_def ast_ok_def cp_ok_def pool_ok_def)
  then show ?thesis using i(2,3) by (simp add: ldlm_resource_add_lock_def)
qed

section \<open>The first processing of a lock\<close>

lemma policy_restart_eq:
  "lr_type res \<in> {LDLM_PLAIN, LDLM_IBITS} \<Longrightarrow> policy_restart l rpc res = process_restart (compat_queue res) l rpc res"
  by (auto simp: policy_restart_def compat_queue_def)

text \<open>The continuation of the processing when the locks \<open>xs\<close> block the request.\<close>

definition after_scan :: "nat \<Rightarrow> nat list \<Rightarrow> nat list \<Rightarrow> ldlm_resource \<Rightarrow> (enq_result \<times> ldlm_resource) option" where
  "after_scan l rpc xs res =
    (if xs \<noteq> [] then do {
       res' \<leftarrow> (if \<not> res_linked res l then ldlm_resource_add_lock (marked l xs res) Waiting l else Some (marked l xs res));
       Some (Enq_ast (rev (filter (needs_ast res) xs) @ rpc), res')
     }
     else do {
       res \<leftarrow> ldlm_resource_unlink_lock l res;
       (_, res) \<leftarrow> ldlm_grant_lock l None res;
       Some (Enq_granted, res)
     })"

lemma res_linked_marked [simp]: "res_linked (marked r xs res) i = res_linked res i"
  by (simp add: res_linked_def)

lemma compat_queue_marked [simp]: "compat_queue (marked r xs res) = compat_queue res"
  by (simp add: compat_queue_def)

lemma scan_out_1:
  "scan_out l 1 (Some w) res xs = (if xs = [] then 1 else 0, Some (rev (filter (needs_ast res) xs) @ w), marked l xs res)"
  by (simp add: scan_out_def)

lemma process_restart_scan:
  assumes "compat_queue res Granted l (Some rpc) res = Some (scan_out l 1 (Some rpc) res xs)"
    and "compat_queue res Waiting l (Some (rev (filter (needs_ast res) xs) @ rpc)) (marked l xs res)
      = Some (scan_out l 1 (Some (rev (filter (needs_ast res) xs) @ rpc)) (marked l xs res) ys)"
    and "set xs \<inter> set ys = {}"
  shows "process_restart (compat_queue res) l rpc res = after_scan l rpc (xs @ ys) res"
proof -
  have "filter (needs_ast (marked l xs res)) ys = filter (needs_ast res) ys"
    using assms(3) by (intro filter_cong) (auto simp: needs_marked)
  then show ?thesis using assms(1,2)
    by (auto simp: process_restart_def after_scan_def scan_out_1 marked_append)
qed

lemma process_restart_cases:
  assumes inv: "res_inv used res" and l: "req_ok res l"
  shows "\<exists>xs ys. policy_restart l rpc res = after_scan l rpc (xs @ ys) res
    \<and> set xs \<subseteq> set (lr_granted res) \<and> set ys \<subseteq> set (lr_waiting res) \<and> distinct (xs @ ys)
    \<and> (l \<notin> set (lr_granted res) \<longrightarrow> xs = filter (\<lambda>x. conflicts res x l) (lr_granted res)
       \<and> ys = filter (\<lambda>x. conflicts res x l) (takeWhile (\<lambda>x. x \<noteq> l) (lr_waiting res)))"
proof -
  note v = res_inv_parts [OF inv]
  have "\<exists>xs. compat_queue res Granted l (Some rpc) res = Some (scan_out l 1 (Some rpc) res xs)
    \<and> set xs \<subseteq> set (lr_granted res) \<and> distinct xs
    \<and> (l \<notin> set (lr_granted res) \<longrightarrow> xs = filter (\<lambda>x. conflicts res x l) (lr_granted res))"
  proof (cases "l \<in> set (lr_granted res)")
    case True
    then show ?thesis using compat_queue_some [OF v(1,5) l, of Granted "Some rpc"] by auto
  next
    case False
    have t: "takeWhile (\<lambda>x. x \<noteq> l) (lr_granted res) = lr_granted res" using False by (intro takeWhile_all) auto
    show ?thesis using compat_queue_scan [OF v(1,5) l _ False v(16), of Granted "Some rpc"] v(14)
      by (intro exI [of _ "filter (\<lambda>x. conflicts res x l) (lr_granted res)"]) (simp add: t)
  qed
  then obtain xs where xs: "compat_queue res Granted l (Some rpc) res = Some (scan_out l 1 (Some rpc) res xs)"
    "set xs \<subseteq> set (lr_granted res)" "distinct xs"
    "l \<notin> set (lr_granted res) \<longrightarrow> xs = filter (\<lambda>x. conflicts res x l) (lr_granted res)" by blast
  let ?res = "marked l xs res"
  note v' = res_inv_parts [OF marked_inv [OF inv, of l xs]]
  have l': "req_ok ?res l" using l alike_preds [OF marked_alike] by blast
  have "\<exists>ys. compat_queue ?res Waiting l wl ?res = Some (scan_out l 1 wl ?res ys)
    \<and> set ys \<subseteq> set (lr_waiting res) \<and> distinct ys
    \<and> (l \<notin> set (lr_granted res) \<longrightarrow> ys = filter (\<lambda>x. conflicts res x l) (takeWhile (\<lambda>x. x \<noteq> l) (lr_waiting res)))" for wl
  proof (cases "l \<in> set (lr_granted res)")
    case True
    then show ?thesis using compat_queue_some [OF v'(1,5) l', of Waiting wl] by auto
  next
    case False
    then have f: "l \<notin> set (lr_granted ?res)" by simp
    let ?ys = "filter (\<lambda>x. conflicts res x l) (takeWhile (\<lambda>x. x \<noteq> l) (lr_waiting res))"
    have "compat_queue ?res Waiting l wl ?res = Some (scan_out l 1 wl ?res ?ys)"
      using compat_queue_scan [OF v'(1,5) l' _ f v'(16), of Waiting wl] by (simp add: alike_preds [OF marked_alike])
    moreover have "set ?ys \<subseteq> set (lr_waiting res)" "distinct ?ys" using v(14) by (auto dest: set_takeWhileD)
    ultimately show ?thesis by blast
  qed
  then obtain ys where ys: "compat_queue ?res Waiting l (Some (rev (filter (needs_ast res) xs) @ rpc)) ?res
      = Some (scan_out l 1 (Some (rev (filter (needs_ast res) xs) @ rpc)) ?res ys)"
    "set ys \<subseteq> set (lr_waiting res)" "distinct ys"
    "l \<notin> set (lr_granted res) \<longrightarrow> ys = filter (\<lambda>x. conflicts res x l) (takeWhile (\<lambda>x. x \<noteq> l) (lr_waiting res))" by blast
  have d: "set xs \<inter> set ys = {}" using v(14) xs(2) ys(2) by auto
  have "policy_restart l rpc res = after_scan l rpc (xs @ ys) res"
    using process_restart_scan [OF xs(1) ys(1) [unfolded compat_queue_marked] d] policy_restart_eq [OF v(12)] by simp
  then show ?thesis using xs ys d by (intro exI [of _ xs] exI [of _ ys]) auto
qed

text \<open>The callbacks that other threads have queued are left alone.\<close>

definition keeps :: "ldlm_resource \<Rightarrow> ldlm_resource \<Rightarrow> bool" where
  "keeps res res' \<longleftrightarrow> alike res res'
    \<and> (\<forall>i. ast_sent res i \<longrightarrow> ast_sent res' i \<and> l_bl_ast (res_locks res' i) = l_bl_ast (res_locks res i)
        \<and> l_bl_ast_run (res_locks res' i) = l_bl_ast_run (res_locks res i)
        \<and> l_blocking_lock (res_locks res' i) = l_blocking_lock (res_locks res i))
    \<and> (\<forall>i. has_flag (l_flags (res_locks res i)) LDLM_FL_CP_REQD \<longrightarrow> has_flag (l_flags (res_locks res' i)) LDLM_FL_CP_REQD)"

lemma keeps_refl [simp]: "keeps res res"
  by (simp add: keeps_def alike_def)

lemma keeps_trans: "keeps a b \<Longrightarrow> keeps b c \<Longrightarrow> keeps a c"
  by (simp add: keeps_def alike_def)

lemma keeps_marked: "keeps res (marked r xs res)"
proof -
  have "ast_sent res i \<Longrightarrow> res_locks (marked r xs res) i = res_locks res i" for i by (simp add: marked_def needs_ast_def)
  then show ?thesis unfolding keeps_def marked_cp using marked_alike by simp
qed

lemma keeps_same_locks: "\<lbrakk>res_locks res' = res_locks res; lr_type res' = lr_type res\<rbrakk> \<Longrightarrow> keeps res res'"
  by (simp add: keeps_def alike_def)

lemma keeps_granted:
  "\<lbrakk>res_locks res' = (res_locks res)(i := granted_lock wl (res_locks res i)); lr_type res' = lr_type res\<rbrakk> \<Longrightarrow> keeps res res'"
  by (auto simp: keeps_def alike_def static_def granted_lock_def)

text \<open>A callback that is queued.\<close>

definition queued :: "ldlm_resource \<Rightarrow> nat \<Rightarrow> bool" where
  "queued res x \<longleftrightarrow> ast_sent res x \<and> l_bl_ast_run (res_locks res x) = 0 \<and> l_blocking_lock (res_locks res x) \<noteq> None"

lemma queued_keeps: "queued res x \<Longrightarrow> keeps res res' \<Longrightarrow> queued res' x"
  by (simp add: queued_def keeps_def)

lemma queued_marked:
  assumes "memory_ok res" "x \<in> set xs" "needs_ast res x" shows "queued (marked r xs res) x"
  using assms by (auto simp: queued_def marked_def mark_flag needs_ast_def memory_ok_def)

lemma regrant_inv:
  assumes inv: "res_inv used res" and l: "l \<in> set used" "req_ok res l" "\<not> l_destroyed (res_locks res l)"
    and p: "\<And>x. x \<in> set (lr_granted res) \<Longrightarrow> x \<noteq> l \<Longrightarrow> pair_ok res x l \<and> pair_ok res l x"
    and w: "\<And>w. w \<in> set (lr_waiting res) \<Longrightarrow> w \<noteq> l \<Longrightarrow> conflicts res l w \<Longrightarrow> l_blocking_ast (res_locks res l) \<Longrightarrow>
      l_req_mode (res_locks res l) \<noteq> LCK_COS \<Longrightarrow> ast_sent res l"
  shows "\<exists>res'. ldlm_grant_lock l wl (unlinked l res)
      = Some (map_option (\<lambda>w. if needs_cp wl (res_locks res l) then l # w else w) wl, res')
    \<and> res_inv used res' \<and> keeps res res' \<and> set (lr_granted res') = insert l (set (lr_granted res))
    \<and> lr_waiting res' = removeAll l (lr_waiting res)
    \<and> res_locks res' = (res_locks res)(l := granted_lock wl (res_locks res l)) \<and> lr_type res' = lr_type res"
proof -
  have a: "alike res (unlinked l res)" by (simp add: alike_def)
  have "\<not> res_linked (unlinked l res) l" by (simp add: res_linked_def)
  then obtain res' where r: "ldlm_grant_lock l wl (unlinked l res)
      = Some (map_option (\<lambda>w. if needs_cp wl (res_locks (unlinked l res) l) then l # w else w) wl, res')"
    "res_inv used res'" "set (lr_granted res') = insert l (set (lr_granted (unlinked l res)))"
    "lr_waiting res' = lr_waiting (unlinked l res)"
    "res_locks res' = (res_locks (unlinked l res))(l := granted_lock wl (res_locks (unlinked l res) l))"
    "lr_type res' = lr_type (unlinked l res)"
    using grant_inv [OF unlinked_inv [OF inv, of l] l(1), of wl] l p w by (auto simp: alike_preds [OF a])
  then show ?thesis using keeps_granted [of res' res l wl] by (intro exI [of _ res']) auto
qed

text \<open>The result of the first processing and of its restarts.\<close>

definition enq_outcome :: "nat list \<Rightarrow> nat \<Rightarrow> nat list \<Rightarrow> ldlm_resource \<Rightarrow> enq_result \<Rightarrow> ldlm_resource \<Rightarrow> bool" where
  "enq_outcome used l rpc res r res' \<longleftrightarrow>
    res_inv used res' \<and> keeps res res' \<and> (res_linked res' l \<or> l_destroyed (res_locks res' l))
    \<and> (\<forall>i. res_linked res i \<longrightarrow> res_linked res' i)
    \<and> (\<exists>new. distinct new \<and> set new \<subseteq> set used \<and> (\<forall>x \<in> set new. \<not> ast_sent res x \<and> queued res' x)
        \<and> (r = Enq_granted \<and> new = [] \<or> r = Enq_ast (new @ rpc)))"

lemma restart_blocked:
  assumes inv: "res_inv used res" and l: "l \<in> set used" "req_ok res l"
    and st: "\<not> res_linked res l \<Longrightarrow> \<not> l_destroyed (res_locks res l) \<Longrightarrow> l_req_mode (res_locks res l) \<noteq> LCK_COS"
    and xs: "xs \<noteq> []" "distinct xs" "set xs \<subseteq> set (lr_granted res) \<union> set (lr_waiting res)"
    "\<not> res_linked res l \<Longrightarrow> xs = filter (\<lambda>x. conflicts res x l) (lr_granted res @ lr_waiting res)"
  shows "\<exists>r res'. after_scan l rpc xs res = Some (r, res') \<and> enq_outcome used l rpc res r res'"
proof -
  let ?new = "rev (filter (needs_ast res) xs)"
  let ?res = "marked l xs res"
  have m: "res_inv used ?res" using marked_inv [OF inv] .
  have new: "distinct ?new" "set ?new \<subseteq> set used" "\<forall>x \<in> set ?new. \<not> ast_sent res x \<and> queued ?res x"
    using xs res_inv_parts(4,11) [OF inv] by (auto simp: needs_ast_def intro: queued_marked)
  have out: "enq_outcome used l rpc res (Enq_ast (?new @ rpc)) res'"
    if "res_inv used res'" "keeps ?res res'" "res_linked res' l \<or> l_destroyed (res_locks res' l)"
      "\<forall>i. res_linked res i \<longrightarrow> res_linked res' i" for res'
    unfolding enq_outcome_def using that new keeps_trans [OF keeps_marked that(2)] queued_keeps [OF _ that(2)]
    by (intro conjI exI [of _ ?new]) auto
  consider "res_linked res l" | "\<not> res_linked res l" "l_destroyed (res_locks res l)"
    | "\<not> res_linked res l" "\<not> l_destroyed (res_locks res l)" by blast
  then show ?thesis
  proof cases
    case 1
    then show ?thesis using out [of ?res] m xs(1) by (simp add: after_scan_def)
  next
    case 2
    then show ?thesis using out [of ?res] m xs(1) by (simp add: after_scan_def ldlm_resource_add_lock_def)
  next
    case 3
    have "ldlm_resource_add_lock ?res Waiting l = Some (?res\<lparr>lr_waiting := lr_waiting ?res @ [l]\<rparr>)
      \<and> res_inv used (?res\<lparr>lr_waiting := lr_waiting ?res @ [l]\<rparr>)"
    proof (rule wait_inv [OF m l(1)])
      fix x assume "x \<in> set (lr_granted ?res) \<union> set (lr_waiting ?res)" "conflicts ?res x l" "l_blocking_ast (res_locks ?res x)"
      then show "ast_sent ?res x" using xs(4) [OF 3(1)] by (auto simp: ast_sent_marked alike_preds [OF marked_alike])
    qed (use 3 l st in \<open>auto simp: alike_preds [OF marked_alike]\<close>)
    then show ?thesis using out [of "?res\<lparr>lr_waiting := lr_waiting ?res @ [l]\<rparr>"] 3 xs(1)
      by (auto simp: after_scan_def keeps_same_locks res_linked_def)
  qed
qed

lemma restart_granted:
  assumes inv: "res_inv used res" and l: "l \<in> set used" "req_ok res l"
    and st: "\<not> res_linked res l \<Longrightarrow> \<not> l_destroyed (res_locks res l) \<Longrightarrow> l_req_mode (res_locks res l) \<noteq> LCK_COS"
    and x: "\<And>x. l \<notin> set (lr_granted res) \<Longrightarrow> x \<in> set (lr_granted res) \<Longrightarrow> \<not> conflicts res x l"
      "\<And>x. l \<notin> set (lr_granted res) \<Longrightarrow> x \<in> set (takeWhile (\<lambda>x. x \<noteq> l) (lr_waiting res)) \<Longrightarrow> \<not> conflicts res x l"
  shows "\<exists>res'. after_scan l rpc [] res = Some (Enq_granted, res') \<and> enq_outcome used l rpc res Enq_granted res'"
proof -
  note v = res_inv_parts [OF inv]
  have u: "ldlm_resource_unlink_lock l res = Some (unlinked l res)" using unlink_ok [OF v(1)] by simp
  show ?thesis
  proof (cases "l_destroyed (res_locks res l)")
    case True
    have "\<not> res_linked (unlinked l res) l" "l_destroyed (res_locks (unlinked l res) l)" using True by (auto simp: res_linked_def)
    then obtain res' where r: "ldlm_grant_lock l None (unlinked l res) = Some (None, res')" "res_inv used res'"
      "lr_granted res' = lr_granted (unlinked l res)" "lr_waiting res' = lr_waiting (unlinked l res)"
      "res_locks res' = (res_locks (unlinked l res))(l := granted_lock None (res_locks (unlinked l res) l))"
      "lr_type res' = lr_type (unlinked l res)"
      using grant_destroyed_inv [OF unlinked_inv [OF inv, of l]] by blast
    have "res_linked res i \<longrightarrow> res_linked res' i" for i
      using r(3,4) True v(3,13) by (auto simp: res_linked_def members_ok_def)
    then show ?thesis using True u r keeps_granted [of res' res l None]
      by (intro exI [of _ res']) (auto simp: after_scan_def enq_outcome_def)
  next
    case False
    have mode: "l \<notin> set (lr_granted res) \<Longrightarrow> l_req_mode (res_locks res l) \<noteq> LCK_COS"
      using st False v(3,13) by (cases "l \<in> set (lr_waiting res)") (auto simp: members_ok_def res_linked_def)
    have "\<exists>res'. ldlm_grant_lock l None (unlinked l res)
      = Some (map_option (\<lambda>w. if needs_cp None (res_locks res l) then l # w else w) None, res')
    \<and> res_inv used res' \<and> keeps res res' \<and> set (lr_granted res') = insert l (set (lr_granted res))
    \<and> lr_waiting res' = removeAll l (lr_waiting res)
    \<and> res_locks res' = (res_locks res)(l := granted_lock None (res_locks res l)) \<and> lr_type res' = lr_type res"
    proof (rule regrant_inv [OF inv l False])
      fix x assume "x \<in> set (lr_granted res)" "x \<noteq> l"
      then show "pair_ok res x l \<and> pair_ok res l x"
        using v(7) x(1) no_conflict_pair [OF _ mode v(12)] by (cases "l \<in> set (lr_granted res)") (auto simp: pairs_ok_def)
    next
      fix w assume w: "w \<in> set (lr_waiting res)" "w \<noteq> l" "conflicts res l w" "l_blocking_ast (res_locks res l)"
        "l_req_mode (res_locks res l) \<noteq> LCK_COS"
      show "ast_sent res l"
      proof (cases "l \<in> set (lr_granted res) \<or> before (lr_waiting res) l w")
        case True
        then show ?thesis using v(8) w by (auto simp: told_def)
      next
        case nb: False
        have "w \<in> set (takeWhile (\<lambda>x. x \<noteq> l) (lr_waiting res))"
        proof (cases "l \<in> set (lr_waiting res)")
          case True
          then show ?thesis using before_take [of l "lr_waiting res" w] w nb by blast
        next
          case False
          then have "takeWhile (\<lambda>x. x \<noteq> l) (lr_waiting res) = lr_waiting res" by (intro takeWhile_all) auto
          then show ?thesis using w by metis
        qed
        then have "\<not> conflicts res w l" using x(2) nb by blast
        moreover have "l_req_mode (res_locks res w) \<noteq> LCK_COS" using v(3) w(1) by (auto simp: members_ok_def)
        ultimately show ?thesis using conflicts_sym w(3,5) by blast
      qed
    qed
    then obtain res' where "ldlm_grant_lock l None (unlinked l res) = Some (None, res')" "res_inv used res'" "keeps res res'"
      "set (lr_granted res') = insert l (set (lr_granted res))" "lr_waiting res' = removeAll l (lr_waiting res)" by auto
    then show ?thesis using u v(13) by (intro exI [of _ res']) (auto simp: after_scan_def enq_outcome_def res_linked_def)
  qed
qed

lemma restart_inv:
  assumes inv: "res_inv used res" and l: "l \<in> set used" "req_ok res l"
    and st: "\<not> res_linked res l \<Longrightarrow> \<not> l_destroyed (res_locks res l) \<Longrightarrow> l_req_mode (res_locks res l) \<noteq> LCK_COS"
  shows "\<exists>r res'. policy_restart l rpc res = Some (r, res') \<and> enq_outcome used l rpc res r res'"
proof -
  obtain xs ys where e: "policy_restart l rpc res = after_scan l rpc (xs @ ys) res"
    "set xs \<subseteq> set (lr_granted res)" "set ys \<subseteq> set (lr_waiting res)" "distinct (xs @ ys)"
    "l \<notin> set (lr_granted res) \<longrightarrow> xs = filter (\<lambda>x. conflicts res x l) (lr_granted res)
       \<and> ys = filter (\<lambda>x. conflicts res x l) (takeWhile (\<lambda>x. x \<noteq> l) (lr_waiting res))"
    using process_restart_cases [OF inv l(2), of rpc] by blast
  show ?thesis
  proof (cases "xs @ ys = []")
    case True
    then have x: "\<And>x. l \<notin> set (lr_granted res) \<Longrightarrow> x \<in> set (lr_granted res) \<Longrightarrow> \<not> conflicts res x l"
      "\<And>x. l \<notin> set (lr_granted res) \<Longrightarrow> x \<in> set (takeWhile (\<lambda>x. x \<noteq> l) (lr_waiting res)) \<Longrightarrow> \<not> conflicts res x l"
      using e(5) by (auto simp: filter_empty_conv)
    obtain res' where "after_scan l rpc [] res = Some (Enq_granted, res')" "enq_outcome used l rpc res Enq_granted res'"
      using restart_granted [OF inv l st x, of rpc] by auto
    then show ?thesis using e(1) True by auto
  next
    case False
    have w: "xs @ ys = filter (\<lambda>x. conflicts res x l) (lr_granted res @ lr_waiting res)" if "\<not> res_linked res l"
    proof -
      have t: "takeWhile (\<lambda>x. x \<noteq> l) (lr_waiting res) = lr_waiting res"
        using that by (intro takeWhile_all) (auto simp: res_linked_def)
      have "l \<notin> set (lr_granted res)" using that by (auto simp: res_linked_def)
      then show ?thesis using e(5) unfolding t by simp
    qed
    have "set (xs @ ys) \<subseteq> set (lr_granted res) \<union> set (lr_waiting res)" using e(2,3) by auto
    then show ?thesis using restart_blocked [OF inv l st False e(4) _ w] e(1) by simp
  qed
qed

section \<open>Reprocessing\<close>

abbreviation cp_reqd :: "ldlm_resource \<Rightarrow> nat \<Rightarrow> bool" where
  "cp_reqd res i \<equiv> has_flag (l_flags (res_locks res i)) LDLM_FL_CP_REQD"

lemma policy_reproc_eq:
  "\<lbrakk>lr_type res \<in> {LDLM_PLAIN, LDLM_IBITS}; lr_converting res = []\<rbrakk> \<Longrightarrow>
   policy_reproc l wl res = process_again (compat_queue res) l wl res"
  by (auto simp: policy_reproc_def compat_queue_def ldlm_process_plain_lock_reproc_def ldlm_process_inodebits_lock_reproc_def)

text \<open>The lock at the head of the waiting queue stays there because of a granted lock, or it is granted.\<close>

lemma reproc_head:
  assumes inv: "res_inv used res" and w: "lr_waiting res = l # ws"
  shows "(\<exists>x \<in> set (lr_granted res). conflicts res x l) \<and> policy_reproc l wl res = Some (LDLM_ITER_STOP, wl, res)
    \<or> (\<exists>res'. policy_reproc l wl res = Some (LDLM_ITER_CONTINUE, if needs_cp (Some wl) (res_locks res l) then l # wl else wl, res')
        \<and> res_inv used res' \<and> keeps res res' \<and> lr_waiting res' = ws \<and> set (lr_granted res') = insert l (set (lr_granted res))
        \<and> (needs_cp (Some wl) (res_locks res l) \<longrightarrow> cp_reqd res' l) \<and> (\<forall>i. res_linked res i \<longrightarrow> res_linked res' i))"
proof -
  note v = res_inv_parts [OF inv]
  have l: "req_ok res l" "\<not> l_destroyed (res_locks res l)" "l_req_mode (res_locks res l) \<noteq> LCK_COS" "l \<notin> set (lr_granted res)"
    "l \<notin> set ws" "l \<in> set used" using v(3,11,14) w by (auto simp: members_ok_def)
  let ?xs = "filter (\<lambda>x. conflicts res x l) (lr_granted res)"
  have t: "takeWhile (\<lambda>x. x \<noteq> l) (lr_granted res) = lr_granted res" using l(4) by (intro takeWhile_all) auto
  have g: "compat_queue res Granted l None res = Some (scan_out l 1 None res ?xs)"
    using compat_queue_scan [OF v(1,5) l(1) _ l(4) v(16), of Granted None] by (simp only: queue.simps t) simp
  have q: "compat_queue res Waiting l None res = Some (1, None, res)"
    using compat_queue_scan [OF v(1,5) l(1) _ l(4) v(16), of Waiting None] w by (simp add: scan_out_def)
  show ?thesis
  proof (cases "?xs = []")
    case False
    then have "policy_reproc l wl res = Some (LDLM_ITER_STOP, wl, res)"
      unfolding policy_reproc_eq [OF v(12,13)] process_again_def g scan_out_None [OF False] by simp
    then show ?thesis using False by (auto simp: filter_empty_conv)
  next
    case True
    have nc: "\<not> conflicts res x l" if "x \<in> set (lr_granted res)" for x using True that by (auto simp: filter_empty_conv)
    have "\<exists>res'. ldlm_grant_lock l (Some wl) (unlinked l res)
        = Some (map_option (\<lambda>w. if needs_cp (Some wl) (res_locks res l) then l # w else w) (Some wl), res')
      \<and> res_inv used res' \<and> keeps res res' \<and> set (lr_granted res') = insert l (set (lr_granted res))
      \<and> lr_waiting res' = removeAll l (lr_waiting res)
      \<and> res_locks res' = (res_locks res)(l := granted_lock (Some wl) (res_locks res l)) \<and> lr_type res' = lr_type res"
    proof (rule regrant_inv [OF inv l(6,1,2)])
      fix x assume "x \<in> set (lr_granted res)"
      then show "pair_ok res x l \<and> pair_ok res l x" using no_conflict_pair [OF nc l(3) v(12)] by blast
    next
      fix w assume "w \<in> set (lr_waiting res)" "w \<noteq> l" "conflicts res l w" "l_blocking_ast (res_locks res l)"
        "l_req_mode (res_locks res l) \<noteq> LCK_COS"
      then show "ast_sent res l" using v(8) w by (auto simp: told_def)
    qed
    then obtain res' where r: "ldlm_grant_lock l (Some wl) (unlinked l res)
        = Some (Some (if needs_cp (Some wl) (res_locks res l) then l # wl else wl), res')" "res_inv used res'" "keeps res res'"
      "lr_waiting res' = removeAll l (lr_waiting res)"
      "res_locks res' = (res_locks res)(l := granted_lock (Some wl) (res_locks res l))"
      "set (lr_granted res') = insert l (set (lr_granted res))"
      by auto
    have "\<forall>i. res_linked res i \<longrightarrow> res_linked res' i" using r(4,6) v(13) by (auto simp: res_linked_def)
    moreover have "policy_reproc l wl res = Some (LDLM_ITER_CONTINUE, if needs_cp (Some wl) (res_locks res l) then l # wl else wl, res')"
      unfolding policy_reproc_eq [OF v(12,13)] process_again_def g True
      using q r(1) unlink_ok [OF v(1)] by (simp add: scan_out_def)
    moreover have "needs_cp (Some wl) (res_locks res l) \<longrightarrow> cp_reqd res' l" using r(5) by (simp add: granted_lock_def)
    moreover have "lr_waiting res' = ws" using r(4) w l(5) by simp
    ultimately show ?thesis using r(2,3,6) by blast
  qed
qed

lemma needs_cp_any: "needs_cp (Some wl) k \<Longrightarrow> \<not> has_flag (l_flags k) LDLM_FL_CP_REQD"
  by (simp add: needs_cp_def)

text \<open>
  What \<open>ldlm_reprocess_queue\<close> relies on of the policy function it takes from the table: the lock at the
  head of the waiting queue is left where it is because of a granted lock, or it is granted.
\<close>

locale reproc_policy =
  fixes reproc :: "nat \<Rightarrow> nat list \<Rightarrow> ldlm_resource \<Rightarrow> (ldlm_iter \<times> nat list \<times> ldlm_resource) option"
  assumes head: "\<lbrakk>res_inv used res; lr_waiting res = l # ws\<rbrakk> \<Longrightarrow>
    (\<exists>x \<in> set (lr_granted res). conflicts res x l) \<and> reproc l wl res = Some (LDLM_ITER_STOP, wl, res)
    \<or> (\<exists>res'. reproc l wl res = Some (LDLM_ITER_CONTINUE, if needs_cp (Some wl) (res_locks res l) then l # wl else wl, res')
        \<and> res_inv used res' \<and> keeps res res' \<and> lr_waiting res' = ws \<and> set (lr_granted res') = insert l (set (lr_granted res))
        \<and> (needs_cp (Some wl) (res_locks res l) \<longrightarrow> cp_reqd res' l) \<and> (\<forall>i. res_linked res i \<longrightarrow> res_linked res' i))"
begin

lemma reprocess_loop_inv:
  assumes "res_inv used res" "lr_waiting res = ws"
  shows "\<exists>rc new res'. reprocess_loop reproc ws wl res = Some (rc, new @ wl, res')
    \<and> res_inv used res' \<and> keeps res res' \<and> distinct new \<and> set new \<subseteq> set used \<and> (\<forall>x \<in> set new. \<not> cp_reqd res x \<and> cp_reqd res' x)
    \<and> (\<exists>gone. ws = gone @ lr_waiting res' \<and> set (lr_granted res') = set (lr_granted res) \<union> set gone) \<and> (\<forall>i. res_linked res i \<longrightarrow> res_linked res' i)
    \<and> (lr_waiting res' = [] \<or> (\<exists>x \<in> set (lr_granted res'). conflicts res' x (hd (lr_waiting res'))))"
  using assms
proof (induction ws arbitrary: res wl)
  case Nil
  then show ?case by auto
next
  case (Cons l ws)
  have used: "l \<in> set used" using res_inv_parts(11) [OF Cons.prems(1)] Cons.prems(2) by auto
  consider "\<exists>x \<in> set (lr_granted res). conflicts res x l" "reproc l wl res = Some (LDLM_ITER_STOP, wl, res)"
    | res1 where "reproc l wl res = Some (LDLM_ITER_CONTINUE, if needs_cp (Some wl) (res_locks res l) then l # wl else wl, res1)"
      "res_inv used res1" "keeps res res1" "lr_waiting res1 = ws" "needs_cp (Some wl) (res_locks res l) \<longrightarrow> cp_reqd res1 l"
      "\<forall>i. res_linked res i \<longrightarrow> res_linked res1 i" "set (lr_granted res1) = insert l (set (lr_granted res))"
    using head [OF Cons.prems, of wl] by blast
  then show ?case
  proof cases
    case 1
    then show ?thesis using Cons.prems by (intro exI [of _ LDLM_ITER_STOP] exI [of _ "[]"] exI [of _ res]) auto
  next
    case 2
    let ?cp = "needs_cp (Some wl) (res_locks res l)"
    let ?wl = "if ?cp then l # wl else wl"
    obtain rc new res' gone where r: "reprocess_loop reproc ws ?wl res1 = Some (rc, new @ ?wl, res')"
      "res_inv used res'" "keeps res1 res'" "distinct new" "set new \<subseteq> set used" "\<forall>x \<in> set new. \<not> cp_reqd res1 x \<and> cp_reqd res' x"
      "ws = gone @ lr_waiting res'" "set (lr_granted res') = set (lr_granted res1) \<union> set gone" "\<forall>i. res_linked res1 i \<longrightarrow> res_linked res' i"
      "lr_waiting res' = [] \<or> (\<exists>x \<in> set (lr_granted res'). conflicts res' x (hd (lr_waiting res')))"
      using Cons.IH [OF 2(2,4), of ?wl] by (elim exE conjE)
    let ?new = "new @ (if ?cp then [l] else [])"
    have cp: "\<not> cp_reqd res1 x \<Longrightarrow> \<not> cp_reqd res x" "cp_reqd res1 x \<Longrightarrow> cp_reqd res' x" for x
      using 2(3) r(3) by (auto simp: keeps_def)
    have "reprocess_loop reproc (l # ws) wl res = Some (rc, ?new @ wl, res')"
      using 2(1) r(1) by simp
    moreover have "distinct ?new" using r(4,6) 2(5) by auto
    moreover have "set ?new \<subseteq> set used" using r(5) used by auto
    moreover have "\<forall>x \<in> set ?new. \<not> cp_reqd res x \<and> cp_reqd res' x"
      using r(6) 2(5) cp needs_cp_any [of wl "res_locks res l"] by auto
    moreover have "\<exists>gone. l # ws = gone @ lr_waiting res' \<and> set (lr_granted res') = set (lr_granted res) \<union> set gone"
      using r(7,8) 2(7) by (intro exI [of _ "l # gone"]) simp
    moreover have "\<forall>i. res_linked res i \<longrightarrow> res_linked res' i" using 2(6) r(9) by blast
    ultimately show ?thesis using r(2,10) keeps_trans [OF 2(3) r(3)] by blast
  qed
qed

lemma reprocess_all_inv:
  assumes "res_inv used res"
  shows "\<exists>rpc res'. ldlm_reprocess_all reproc res = Some (rpc, res')
    \<and> res_inv used res' \<and> keeps res res' \<and> distinct rpc \<and> set rpc \<subseteq> set used \<and> (\<forall>x \<in> set rpc. \<not> cp_reqd res x \<and> cp_reqd res' x)
    \<and> (\<exists>gone. lr_waiting res = gone @ lr_waiting res' \<and> set (lr_granted res') = set (lr_granted res) \<union> set gone) \<and> (\<forall>i. res_linked res i \<longrightarrow> res_linked res' i)
    \<and> (lr_waiting res' = [] \<or> (\<exists>x \<in> set (lr_granted res'). conflicts res' x (hd (lr_waiting res'))))"
proof -
  note v = res_inv_parts [OF assms]
  obtain rc rpc res' where "reprocess_loop reproc (lr_waiting res) [] res = Some (rc, rpc @ [], res')"
    "res_inv used res' \<and> keeps res res' \<and> distinct rpc \<and> set rpc \<subseteq> set used \<and> (\<forall>x \<in> set rpc. \<not> cp_reqd res x \<and> cp_reqd res' x)
    \<and> (\<exists>gone. lr_waiting res = gone @ lr_waiting res' \<and> set (lr_granted res') = set (lr_granted res) \<union> set gone) \<and> (\<forall>i. res_linked res i \<longrightarrow> res_linked res' i)
    \<and> (lr_waiting res' = [] \<or> (\<exists>x \<in> set (lr_granted res'). conflicts res' x (hd (lr_waiting res'))))"
    using reprocess_loop_inv [OF assms refl, of "[]"] by blast
  then show ?thesis using v(2,13) by (auto simp: ldlm_reprocess_all_def ldlm_reprocess_queue_def)
qed

end

interpretation policy: reproc_policy policy_reproc
  by unfold_locales (rule reproc_head)

end
