(* ===== verification/LdlmSafety.thy ===== *)
theory LdlmSafety
  imports LdlmServer
begin

text \<open>
  The lock server as a whole. The first part shows that every operation of a server thread keeps the
  invariant of the resource (\<open>LdlmServer\<close>): the callbacks, cancelling, downgrading, creating a lock. The
  second part lifts it to the interleavings of the threads: in every state that the actions lead to, an
  action that can happen does happen, that is, no assertion fails and every loop ends; no two granted
  locks contend; and whoever holds up a waiting lock has been asked to give way.
\<close>

section \<open>Callbacks, cancelling and downgrading\<close>

text \<open>A change of the bookkeeping of the locks.\<close>

lemma locks_inv:
  assumes inv: "res_inv used res"
    and s: "\<And>j. static (K j) = static (res_locks res j) \<and> l_granted_mode (K j) = l_granted_mode (res_locks res j)
      \<and> l_readers (K j) = 0 \<and> l_writers (K j) = 0 \<and> \<not> l_lru (K j)"
    and a: "\<And>j. ast_sent res j \<Longrightarrow> has_flag (l_flags (K j)) LDLM_FL_AST_SENT"
    and b: "\<And>j. \<not> has_flag (l_flags (K j)) LDLM_FL_AST_SENT \<Longrightarrow>
      l_bl_ast_run (K j) = 0 \<and> \<not> l_bl_ast (K j) \<and> l_blocking_lock (K j) = None"
    and c: "\<And>j. \<not> has_flag (l_flags (K j)) LDLM_FL_CP_REQD \<Longrightarrow> \<not> l_cp_ast (K j)"
  shows "res_inv used (res\<lparr>res_locks := K\<rparr>)"
proof -
  note v = res_inv_parts [OF inv]
  let ?res = "res\<lparr>res_locks := K\<rparr>"
  have al: "alike res ?res" using s by (simp add: alike_def)
  have k: "l_req_mode (K j) = l_req_mode (res_locks res j) \<and> l_inodebits (K j) = l_inodebits (res_locks res j)" for j
    using s by (simp add: static_def)
  have "skip_ok ?res" by (rule skip_ok_locks [OF v(15), of K]) (use k in auto)
  then have "res_ok ?res" using v(1) by (simp add: res_ok_def)
  moreover have "members_ok ?res" using v(3) s unfolding members_ok_def alike_preds [OF al] by (simp add: static_def)
  moreover have "memory_ok ?res" using s b by (simp add: memory_ok_def)
  moreover have "ast_ok ?res" using b by (simp add: ast_ok_def)
  moreover have "cp_ok ?res" using c by (simp add: cp_ok_def)
  moreover have "pairs_ok ?res" by (rule pairs_ok_mono [OF v(7) al]) simp
  moreover have "told ?res" by (rule told_mono [OF v(8) al, where P = "\<lambda>_. True"]) (use a in simp_all)
  moreover have "pool_ok used ?res" using v(9) s k by (simp add: pool_ok_def)
  ultimately show ?thesis using v by (simp add: res_inv_def)
qed

text \<open>A change of a lock that is on no queue.\<close>

lemma off_queue_inv:
  assumes inv: "res_inv used res" and i: "\<not> res_linked res i"
    and k: "l_readers k = 0" "l_writers k = 0" "\<not> l_lru k"
      "\<not> has_flag (l_flags k) LDLM_FL_AST_SENT \<Longrightarrow> l_bl_ast_run k = 0 \<and> \<not> l_bl_ast k \<and> l_blocking_lock k = None"
      "\<not> has_flag (l_flags k) LDLM_FL_CP_REQD \<Longrightarrow> \<not> l_cp_ast k"
    and p: "pool_ok used (res\<lparr>res_locks := (res_locks res)(i := k), pl_granted := n\<rparr>)"
  shows "res_inv used (res\<lparr>res_locks := (res_locks res)(i := k), pl_granted := n\<rparr>)"
proof -
  note v = res_inv_parts [OF inv]
  let ?res = "res\<lparr>res_locks := (res_locks res)(i := k), pl_granted := n\<rparr>"
  have n: "i \<notin> set (lr_granted res)" "i \<notin> set (lr_waiting res)" using i by (auto simp: res_linked_def)
  have e: "conflicts ?res x y = conflicts res x y" "pair_ok ?res x y = pair_ok res x y" if "x \<noteq> i" "y \<noteq> i" for x y
    using that by (simp_all add: conflicts_def ibits_conflict_def pair_ok_def share_def)
  have r: "req_ok ?res x = req_ok res x" if "x \<noteq> i" for x using that by (simp add: req_ok_def)
  obtain gs where gs: "groups_ok res gs" using v(15) by (auto simp: skip_ok_def)
  have "groups_ok ?res gs" by (rule groups_ok_cong [OF gs]) (use n in auto)
  then have "res_ok ?res" using v(1) by (auto simp: res_ok_def skip_ok_def)
  moreover have "members_ok ?res" using v(3) n r unfolding members_ok_def by (auto split: if_splits)
  moreover have "memory_ok ?res" using v(4) k by (auto simp: memory_ok_def)
  moreover have "ast_ok ?res" using v(5) k by (auto simp: ast_ok_def)
  moreover have "cp_ok ?res" using v(6) k by (auto simp: cp_ok_def)
  moreover have "pairs_ok ?res" unfolding pairs_ok_def
  proof (intro ballI impI)
    fix x y assume "x \<in> set (lr_granted ?res)" "y \<in> set (lr_granted ?res)" "x \<noteq> y"
    then show "pair_ok ?res x y" using v(7) e(2) [of x y] n by (auto simp: pairs_ok_def)
  qed
  moreover have "told ?res" unfolding told_def
  proof (intro ballI allI impI)
    fix w x assume w: "w \<in> set (lr_waiting ?res)" and x: "(x \<in> set (lr_granted ?res) \<or> before (lr_waiting ?res) x w)
      \<and> conflicts ?res x w \<and> l_blocking_ast (res_locks ?res x) \<and> l_req_mode (res_locks ?res x) \<noteq> LCK_COS"
    have "x \<noteq> i" "w \<noteq> i" using n w x by (auto dest: before_mem)
    then show "ast_sent ?res x" using v(8) w x e(1) [of x w] by (auto simp: told_def)
  qed
  ultimately show ?thesis using v p by (simp add: res_inv_def)
qed

lemma cancel_flags [simp]:
  "\<not> has_flag LDLM_FL_CANCEL LDLM_FL_AST_SENT" "\<not> has_flag LDLM_FL_CANCEL LDLM_FL_CP_REQD"
  "\<not> has_flag LDLM_FL_BL_DONE LDLM_FL_AST_SENT" "\<not> has_flag LDLM_FL_BL_DONE LDLM_FL_CP_REQD"
  by (simp_all add: LDLM_FL_defs has_flag_def)

lemma set_flag_inv:
  assumes inv: "res_inv used res" and "\<not> has_flag f LDLM_FL_AST_SENT" "\<not> has_flag f LDLM_FL_CP_REQD"
  shows "res_inv used (set_flag i f res) \<and> keeps res (set_flag i f res)"
proof -
  note v = res_inv_parts [OF inv]
  let ?k = "(res_locks res i)\<lparr>l_flags := l_flags (res_locks res i) OR f\<rparr>"
  have e: "set_flag i f res = res\<lparr>res_locks := (res_locks res)(i := ?k)\<rparr>" by (simp add: set_flag_def upd_lock_def)
  have "res_inv used (res\<lparr>res_locks := (res_locks res)(i := ?k)\<rparr>)"
    by (rule locks_inv [OF inv]) (use v assms in \<open>auto simp: static_def memory_ok_def ast_ok_def cp_ok_def\<close>)
  then show ?thesis unfolding e using assms by (auto simp: keeps_def alike_def static_def)
qed

lemma cancel_begin_inv:
  assumes "res_inv used res"
  shows "\<exists>res'. ldlm_lock_cancel_begin i res = Some res' \<and> res_inv used res' \<and> keeps res res' \<and> (\<forall>j. res_linked res' j = res_linked res j)"
  using assms set_flag_inv [OF assms, of LDLM_FL_CANCEL i] res_inv_parts(4) [OF assms]
  by (auto simp: ldlm_lock_cancel_begin_def memory_ok_def res_linked_def set_flag_def upd_lock_def)

text \<open>The changes that leave the callbacks queued: a weaker relation than \<open>keeps\<close>, for a lock that dies or is downgraded.\<close>

definition keeps_items :: "ldlm_resource \<Rightarrow> ldlm_resource \<Rightarrow> bool" where
  "keeps_items res res' \<longleftrightarrow> lr_type res' = lr_type res \<and> (\<forall>x. queued res x \<longrightarrow> queued res' x) \<and> (\<forall>x. cp_reqd res x \<longrightarrow> cp_reqd res' x)
    \<and> (\<forall>x. req_ok res x \<longrightarrow> req_ok res' x)
    \<and> (\<forall>x. res_linked res x \<or> l_destroyed (res_locks res x) \<longrightarrow> res_linked res' x \<or> l_destroyed (res_locks res' x))"

lemma keeps_items_of: "\<lbrakk>keeps res res'; \<forall>i. res_linked res i \<longrightarrow> res_linked res' i\<rbrakk> \<Longrightarrow> keeps_items res res'"
  using queued_keeps [of res _ res'] unfolding keeps_items_def
  by (auto simp: keeps_def alike_preds alike_lock)

lemma filter_one_less:
  "\<lbrakk>distinct xs; i \<in> set xs; Q i\<rbrakk> \<Longrightarrow> Suc (length (filter (\<lambda>j. j \<noteq> i \<and> Q j) xs)) = length (filter Q xs)"
proof (induction xs)
  case (Cons x xs)
  have "i \<notin> set xs \<Longrightarrow> filter (\<lambda>j. j \<noteq> i \<and> Q j) xs = filter Q xs" by (auto intro: filter_cong)
  then show ?case using Cons by (cases "x = i") auto
qed simp

text \<open>The lock as \<open>ldlm_lock_cancel\<close> leaves it.\<close>

definition dead_lock :: "ldlm_lock \<Rightarrow> ldlm_lock" where
  "dead_lock k = k\<lparr>l_destroyed := True, l_lru := False, l_granted_mode := LCK_MINMODE\<rparr>"

lemma dead_lock_again: "\<lbrakk>l_destroyed k; \<not> l_lru k\<rbrakk> \<Longrightarrow> dead_lock k = k\<lparr>l_granted_mode := LCK_MINMODE\<rparr>"
  by (cases k) (simp add: dead_lock_def)

lemma upd_lock_same: "f (res_locks res i) = res_locks res i \<Longrightarrow> upd_lock i f res = res"
  by (simp add: upd_lock_def fun_upd_idem)

lemma destroy_ok:
  assumes "memory_ok res" "\<not> res_linked res i"
  shows "ldlm_lock_destroy_nolock i res = Some (upd_lock i (\<lambda>l. l\<lparr>l_destroyed := True, l_lru := False\<rparr>) res)"
proof -
  have m: "l_readers (res_locks res i) = 0" "l_writers (res_locks res i) = 0" "\<not> l_lru (res_locks res i)"
    using assms(1) by (auto simp: memory_ok_def)
  have "k\<lparr>l_destroyed := True, l_lru := False\<rparr> = k" if "l_destroyed k" "\<not> l_lru k" for k using that by (cases k) simp
  then have "l_destroyed (res_locks res i) \<Longrightarrow> upd_lock i (\<lambda>l. l\<lparr>l_destroyed := True, l_lru := False\<rparr>) res = res"
    using m by (intro upd_lock_same) simp
  then show ?thesis using m assms(2) by (auto simp: ldlm_lock_destroy_nolock_def ldlm_lock_destroy_internal_def)
qed

lemma cancel_finish_eq:
  assumes "res_inv used res" "l_granted_mode (res_locks res i) = l_req_mode (res_locks res i) \<Longrightarrow> pl_granted res > 0"
  shows "ldlm_lock_cancel_finish i res = Some (let res1 = unlinked i (set_flag i LDLM_FL_BL_DONE res) in
    res1\<lparr>res_locks := (res_locks res1)(i := dead_lock (res_locks res1 i)),
      pl_granted := if l_granted_mode (res_locks res i) = l_req_mode (res_locks res i) then pl_granted res - 1 else pl_granted res\<rparr>)"
proof -
  let ?res0 = "set_flag i LDLM_FL_BL_DONE res"
  let ?res1 = "unlinked i ?res0"
  let ?res2 = "upd_lock i (\<lambda>l. l\<lparr>l_destroyed := True, l_lru := False\<rparr>) ?res1"
  have r: "res_inv used ?res0" using set_flag_inv [OF assms(1), of LDLM_FL_BL_DONE i] by simp
  have u: "ldlm_resource_unlink_lock i ?res0 = Some ?res1" using unlink_ok [OF res_inv_parts(1) [OF r]] by simp
  have d: "ldlm_lock_destroy_nolock i ?res1 = Some ?res2"
    by (rule destroy_ok [OF res_inv_parts(4) [OF unlinked_inv [OF r]]]) (simp add: res_linked_def)
  have q: "l_granted_mode (res_locks ?res2 i) = l_granted_mode (res_locks res i)" "l_req_mode (res_locks ?res2 i) = l_req_mode (res_locks res i)"
    "pl_granted ?res2 = pl_granted res" "lr_type ?res2 = lr_type res"
    by (simp_all add: upd_lock_def set_flag_def)
  have ty: "lr_type res \<noteq> LDLM_FLOCK" using res_inv_parts(12) [OF assms(1)] by auto
  have pd: "(if l_granted_mode (res_locks ?res2 i) = l_req_mode (res_locks ?res2 i) then ldlm_pool_del ?res2 else Some ?res2)
    = Some (?res2\<lparr>pl_granted := if l_granted_mode (res_locks res i) = l_req_mode (res_locks res i) then pl_granted res - 1 else pl_granted res\<rparr>)"
    unfolding q ldlm_pool_del_def using ty assms(2) q(3) by auto
  show ?thesis
    unfolding ldlm_lock_cancel_finish_def Let_def u d bind.bind_lunit pd by (simp add: upd_lock_def dead_lock_def)
qed

lemma cancel_finish_inv:
  assumes inv: "res_inv used res" and i: "i \<in> set used" "req_ok res i"
  shows "\<exists>res'. ldlm_lock_cancel_finish i res = Some res' \<and> res_inv used res' \<and> keeps_items res res'"
proof -
  note v = res_inv_parts [OF inv]
  let ?Q = "\<lambda>res j. l_granted_mode (res_locks res j) = l_req_mode (res_locks res j)"
  have pos: "pl_granted res > 0" if "?Q res i"
  proof -
    have "i \<in> set (filter (?Q res) used)" using that i(1) by simp
    then have "0 < length (filter (?Q res) used)" by (rule length_pos_if_in_set)
    then show ?thesis using v(9) unfolding pool_ok_def by linarith
  qed
  let ?res0 = "set_flag i LDLM_FL_BL_DONE res"
  let ?res1 = "unlinked i ?res0"
  let ?n = "if ?Q res i then pl_granted res - 1 else pl_granted res"
  let ?res' = "?res1\<lparr>res_locks := (res_locks ?res1)(i := dead_lock (res_locks ?res1 i)), pl_granted := ?n\<rparr>"
  have f: "set_flag i LDLM_FL_BL_DONE res =
      res\<lparr>res_locks := (res_locks res)(i := (res_locks res i)\<lparr>l_flags := l_flags (res_locks res i) OR LDLM_FL_BL_DONE\<rparr>)\<rparr>"
    by (simp add: set_flag_def upd_lock_def)
  have inv1: "res_inv used ?res1" using set_flag_inv [OF inv, of LDLM_FL_BL_DONE i] unlinked_inv by simp
  have e: "ldlm_lock_cancel_finish i res = Some ?res'" using cancel_finish_eq [OF inv pos] by (simp add: Let_def)
  have mode: "l_req_mode (res_locks res i) \<noteq> LCK_MINMODE" using i(2) by (simp add: req_ok_def)
  have "filter (?Q ?res') used = filter (\<lambda>j. j \<noteq> i \<and> ?Q res j) used"
    using mode by (intro filter_cong) (auto simp: f dead_lock_def)
  moreover have "length (filter (\<lambda>j. j \<noteq> i \<and> ?Q res j) used) \<le> length (filter (?Q res) used)" by (induction used) auto
  moreover have "?Q res i \<Longrightarrow> Suc (length (filter (\<lambda>j. j \<noteq> i \<and> ?Q res j) used)) = length (filter (?Q res) used)"
    by (rule filter_one_less [OF v(10) i(1), of "?Q res"])
  ultimately have p: "pool_ok used ?res'" using v(9) unfolding pool_ok_def by (cases "?Q res i") auto
  have k: "res_locks ?res1 i = (res_locks res i)\<lparr>l_flags := l_flags (res_locks res i) OR LDLM_FL_BL_DONE\<rparr>" by (simp add: f)
  have "res_inv used ?res'"
    by (rule off_queue_inv [OF inv1 _ _ _ _ _ _ p], unfold k)
      (use v(4,5,6) in \<open>auto simp: res_linked_def dead_lock_def memory_ok_def ast_ok_def cp_ok_def\<close>)
  moreover have "keeps_items res ?res'"
  proof -
    have l: "res_locks ?res' x = (if x = i then dead_lock (res_locks ?res1 i) else res_locks res x)" for x by (simp add: f)
    have "queued res x \<longrightarrow> queued ?res' x" "cp_reqd res x \<longrightarrow> cp_reqd ?res' x" "req_ok res x \<longrightarrow> req_ok ?res' x" for x
      unfolding queued_def req_ok_def l k by (auto simp: dead_lock_def f)
    moreover have "res_linked ?res' x \<or> l_destroyed (res_locks ?res' x)" if "res_linked res x \<or> l_destroyed (res_locks res x)" for x
      unfolding l using that by (auto simp: dead_lock_def res_linked_def f)
    moreover have "lr_type ?res' = lr_type res" by (simp add: f)
    ultimately show ?thesis unfolding keeps_items_def by blast
  qed
  ultimately show ?thesis using e by blast
qed

lemma bl_ast_inv:
  assumes inv: "res_inv used res" and x: "queued res x"
  shows "\<exists>res'. ldlm_work_bl_ast_lock x res = Some res' \<and> res_inv used res' \<and> alike res res' \<and> (\<forall>j. res_linked res' j = res_linked res j)
    \<and> (\<forall>j. j \<noteq> x \<longrightarrow> res_locks res' j = res_locks res j) \<and> (\<forall>j. cp_reqd res' j = cp_reqd res j)"
proof -
  note v = res_inv_parts [OF inv]
  let ?k = "(res_locks res x)\<lparr>l_bl_ast := False, l_bl_ast_run := l_bl_ast_run (res_locks res x) + 1, l_blocking_lock := None\<rparr>"
  let ?res = "res\<lparr>res_locks := (res_locks res)(x := ?k)\<rparr>"
  have e: "ldlm_work_bl_ast_lock x res = Some ?res"
    using x by (simp add: ldlm_work_bl_ast_lock_def upd_lock_def Let_def queued_def)
  have "res_inv used ?res"
    by (rule locks_inv [OF inv]) (use v x in \<open>auto simp: static_def memory_ok_def ast_ok_def cp_ok_def queued_def\<close>)
  then show ?thesis using e by (auto simp: alike_def static_def res_linked_def)
qed

lemma cp_clear: "\<not> has_flag (a AND NOT LDLM_FL_CP_REQD) LDLM_FL_CP_REQD"
  "has_flag (a AND NOT LDLM_FL_CP_REQD) LDLM_FL_AST_SENT = has_flag a LDLM_FL_AST_SENT"
proof -
  have "LDLM_FL_CP_REQD AND LDLM_FL_AST_SENT = 0" by (simp add: LDLM_FL_defs)
  then have "NOT LDLM_FL_CP_REQD AND LDLM_FL_AST_SENT = LDLM_FL_AST_SENT" by (simp add: LDLM_FL_defs)
  then show "has_flag (a AND NOT LDLM_FL_CP_REQD) LDLM_FL_AST_SENT = has_flag a LDLM_FL_AST_SENT"
    by (simp add: has_flag_def and.assoc)
  show "\<not> has_flag (a AND NOT LDLM_FL_CP_REQD) LDLM_FL_CP_REQD" by (simp add: has_flag_def and.assoc)
qed

lemma cp_ast_inv:
  assumes inv: "res_inv used res" and x: "cp_reqd res x"
  shows "\<exists>rc res'. ldlm_work_cp_ast_lock x res = Some (rc, res') \<and> res_inv used res' \<and> alike res res' \<and> (\<forall>j. res_linked res' j = res_linked res j)
    \<and> (\<forall>j. j \<noteq> x \<longrightarrow> res_locks res' j = res_locks res j) \<and> (\<forall>j. queued res' j = queued res j)"
proof -
  note v = res_inv_parts [OF inv]
  let ?k = "(res_locks res x)\<lparr>l_cp_ast := False, l_flags := l_flags (res_locks res x) AND NOT LDLM_FL_CP_REQD\<rparr>"
  let ?res = "res\<lparr>res_locks := (res_locks res)(x := ?k)\<rparr>"
  have e: "ldlm_work_cp_ast_lock x res = Some (if l_completion_ast (res_locks res x) then 1 else 0, ?res)"
    using x by (simp add: ldlm_work_cp_ast_lock_def upd_lock_def clear_flag_def Let_def)
  have "res_inv used ?res"
    by (rule locks_inv [OF inv]) (use v x in \<open>auto simp: static_def memory_ok_def ast_ok_def cp_ok_def cp_clear\<close>)
  then show ?thesis using e by (auto simp: alike_def static_def res_linked_def queued_def cp_clear)
qed

lemma pool_lock_upd: "r\<lparr>pl_granted := n, res_locks := m\<rparr> = r\<lparr>res_locks := m, pl_granted := n\<rparr>" for r :: ldlm_resource
  by (cases r) simp

lemma downgrade_inv:
  assumes inv: "res_inv used res" and i: "i \<in> set (lr_granted res)" "l_granted_mode (res_locks res i) \<in> {LCK_PW, LCK_EX}"
  shows "\<exists>res'. ldlm_lock_downgrade i LCK_COS res = Some res' \<and> res_inv used res' \<and> keeps_items res res'"
proof -
  note v = res_inv_parts [OF inv]
  have m: "l_req_mode (res_locks res i) \<in> {LCK_PW, LCK_EX}" "\<not> l_destroyed (res_locks res i)" "req_ok res i" "i \<in> set used"
    using v(3,11) i by (auto simp: members_ok_def)
  let ?Q = "\<lambda>res j. l_granted_mode (res_locks res j) = l_req_mode (res_locks res j)"
  let ?k = "(res_locks res i)\<lparr>l_req_mode := LCK_COS\<rparr>"
  let ?n = "pl_granted res - 1"
  let ?res1 = "unlinked i res"
  let ?res2 = "?res1\<lparr>res_locks := (res_locks ?res1)(i := ?k), pl_granted := ?n\<rparr>"
  have q: "?Q res i" using v(3) i(1) by (auto simp: members_ok_def)
  have c: "Suc (length (filter (\<lambda>j. j \<noteq> i \<and> ?Q res j) used)) = length (filter (?Q res) used)"
    by (rule filter_one_less [OF v(10) m(4), of "?Q res", OF q])
  have "filter (?Q ?res2) used = filter (\<lambda>j. j \<noteq> i \<and> ?Q res j) used"
    using i(2) by (intro filter_cong) auto
  then have p: "pool_ok used ?res2" using v(9) c unfolding pool_ok_def by simp
  have pos: "pl_granted res > 0" using v(9) c unfolding pool_ok_def by linarith
  have inv2: "res_inv used ?res2"
    by (rule off_queue_inv [OF unlinked_inv [OF inv] _ _ _ _ _ _ p])
      (use v(4,5,6) in \<open>auto simp: res_linked_def memory_ok_def ast_ok_def cp_ok_def\<close>)
  have e: "ldlm_lock_downgrade i LCK_COS res = map_option snd (ldlm_grant_lock i None ?res2)"
  proof -
    have "mode_bits (l_granted_mode (res_locks res i)) AND (mode_bits LCK_PW OR mode_bits LCK_EX) \<noteq> 0" using i(2) by auto
    then show ?thesis using unlink_ok [OF v(1), of i] pos v(12)
      by (auto simp: ldlm_lock_downgrade_def ldlm_pool_del_def upd_lock_def Let_def pool_lock_upd)
  qed
  have "\<exists>res'. ldlm_grant_lock i None ?res2
      = Some (map_option (\<lambda>w. if needs_cp None (res_locks ?res2 i) then i # w else w) None, res')
    \<and> res_inv used res' \<and> set (lr_granted res') = insert i (set (lr_granted ?res2)) \<and> lr_waiting res' = lr_waiting ?res2
    \<and> res_locks res' = (res_locks ?res2)(i := granted_lock None (res_locks ?res2 i)) \<and> lr_type res' = lr_type ?res2"
  proof (rule grant_inv [OF inv2 m(4)])
    fix x assume "x \<in> set (lr_granted ?res2)"
    then have x: "x \<in> set (lr_granted res)" "x \<noteq> i" by auto
    then have "pair_ok res x i" "pair_ok res i x" using v(7) i(1) by (auto simp: pairs_ok_def)
    then show "pair_ok ?res2 x i \<and> pair_ok ?res2 i x"
      using m(1) x(2) unfolding pair_ok_def Let_def by (auto simp: share_def compat_code split: if_splits ldlm_mode.splits)
  qed (use m in \<open>auto simp: res_linked_def req_ok_def\<close>)
  then obtain res' where r: "ldlm_grant_lock i None ?res2 = Some (None, res')" "res_inv used res'"
    "set (lr_granted res') = insert i (set (lr_granted ?res2))" "lr_waiting res' = lr_waiting ?res2"
    "res_locks res' = (res_locks ?res2)(i := granted_lock None (res_locks ?res2 i))" "lr_type res' = lr_type ?res2" by auto
  have l: "res_locks res' x = (if x = i then granted_lock None ?k else res_locks res x)" for x using r(5) by simp
  have "queued res x \<longrightarrow> queued res' x" "cp_reqd res x \<longrightarrow> cp_reqd res' x" "req_ok res x \<longrightarrow> req_ok res' x" for x
    unfolding queued_def req_ok_def l using r(6) by (auto simp: granted_lock_def needs_cp_def)
  moreover have "res_linked res' x \<or> l_destroyed (res_locks res' x)" if "res_linked res x \<or> l_destroyed (res_locks res x)" for x
    unfolding l using that r(3,4) v(13) by (auto simp: res_linked_def)
  moreover have "lr_type res' = lr_type res" using r(6) by simp
  ultimately have "keeps_items res res'" unfolding keeps_items_def by blast
  then show ?thesis using e r(1,2) by simp
qed

section \<open>A new request\<close>

lemma links_same: "ring L [i] \<Longrightarrow> \<lparr>lnext = (lnext L)(i := i), lprev = (lprev L)(i := i)\<rparr> = L"
  by (cases L) (simp add: ring_self fun_upd_idem)

lemma create_inv:
  assumes inv: "res_inv used res" and i: "i \<notin> set used" and mode: "mode \<noteq> LCK_MINMODE" "mode \<noteq> LCK_COS"
    and bits: "lr_type res = LDLM_IBITS \<Longrightarrow> bits \<noteq> 0"
  shows "\<exists>res'. ldlm_lock_create i None (ldlm_lock_new mode bits ex cookie ep bl cp) res = Some res' \<and> res_inv (i # used) res'
    \<and> \<not> res_linked res' i \<and> \<not> l_destroyed (res_locks res' i) \<and> req_ok res' i \<and> l_req_mode (res_locks res' i) = mode
    \<and> lr_type res' = lr_type res \<and> ns_client res' = ns_client res
    \<and> (\<forall>j. j \<noteq> i \<longrightarrow> res_locks res' j = res_locks res j \<and> res_linked res' j = res_linked res j)"
proof -
  note v = res_inv_parts [OF inv]
  let ?k = "ldlm_lock_new mode bits ex cookie ep bl cp"
  have n: "\<not> res_linked res i" using v(11,13) i by (auto simp: res_linked_def)
  then have g: "i \<notin> set (lr_granted res)" by (auto simp: res_linked_def)
  let ?res' = "res\<lparr>res_locks := (res_locks res)(i := ?k)\<rparr>"
  have e: "ldlm_lock_create i None ?k res = Some ?res'"
    using self_links [OF v(15) g] v(12) by (auto simp: ldlm_lock_create_def links_same)
  have q: "filter (\<lambda>j. l_granted_mode (res_locks ?res' j) = l_req_mode (res_locks ?res' j)) used
    = filter (\<lambda>j. l_granted_mode (res_locks res j) = l_req_mode (res_locks res j)) used"
    using i by (intro filter_cong) auto
  have p: "pool_ok used (res\<lparr>res_locks := (res_locks res)(i := ?k), pl_granted := pl_granted res\<rparr>)"
    using v(9) q by (simp add: pool_ok_def)
  have "res_inv used (res\<lparr>res_locks := (res_locks res)(i := ?k), pl_granted := pl_granted res\<rparr>)"
    by (rule off_queue_inv [OF inv n _ _ _ _ _ p]) (simp_all add: ldlm_lock_new_def)
  then have "res_inv used ?res'" by simp
  then have "res_inv (i # used) ?res'" using i mode q by (auto simp: res_inv_def pool_ok_def ldlm_lock_new_def)
  then show ?thesis using e n mode bits by (auto simp: ldlm_lock_new_def res_linked_def req_ok_def)
qed

lemma discard_flags: "\<not> has_flag (flags AND LDLM_AST_DISCARD_DATA) LDLM_FL_AST_SENT"
  "\<not> has_flag (flags AND LDLM_AST_DISCARD_DATA) LDLM_FL_CP_REQD"
  by (simp_all add: LDLM_FL_defs has_flag_def and.assoc)

lemma policy_enq_restart:
  "lr_converting res = [] \<Longrightarrow> policy_enq l res = policy_restart l [] res"
  by (simp add: policy_enq_def policy_restart_def ldlm_process_plain_lock_enq_def ldlm_process_inodebits_lock_enq_def)

text \<open>A new lock goes through the policy of its type as it does after a restart.\<close>

lemma enqueue_inv:
  assumes inv: "res_inv used res" and i: "i \<notin> set used" and mode: "mode \<noteq> LCK_MINMODE" "mode \<noteq> LCK_COS"
    and bits: "lr_type res = LDLM_IBITS \<Longrightarrow> bits \<noteq> 0" and flags: "\<not> has_flag flags LDLM_FL_REPLAY"
  shows "\<exists>res1 res2 r res'. ldlm_lock_create i None (ldlm_lock_new mode bits ex cookie ep bl cp) res = Some res1
    \<and> ldlm_lock_enqueue policy_enq i None flags res1 = Some (0, flags, r, res')
    \<and> enq_outcome (i # used) i [] res2 r res' \<and> req_ok res' i
    \<and> (\<forall>j. j \<noteq> i \<longrightarrow> res_locks res2 j = res_locks res j \<and> res_linked res2 j = res_linked res j) \<and> lr_type res2 = lr_type res"
proof -
  obtain res1 where c: "ldlm_lock_create i None (ldlm_lock_new mode bits ex cookie ep bl cp) res = Some res1"
    "res_inv (i # used) res1" "\<not> res_linked res1 i" "\<not> l_destroyed (res_locks res1 i)" "req_ok res1 i"
    "l_req_mode (res_locks res1 i) = mode" "lr_type res1 = lr_type res" "ns_client res1 = ns_client res"
    "\<forall>j. j \<noteq> i \<longrightarrow> res_locks res1 j = res_locks res j \<and> res_linked res1 j = res_linked res j"
    using create_inv [OF inv i mode bits, where ex = ex and cookie = cookie and ep = ep and bl = bl and cp = cp]
    by blast
  note v = res_inv_parts [OF c(2)]
  let ?res2 = "set_flag i (flags AND LDLM_AST_DISCARD_DATA) (unlinked i res1)"
  have inv2: "res_inv (i # used) ?res2" and k2: "keeps (unlinked i res1) ?res2"
    using set_flag_inv [OF unlinked_inv [OF c(2)] discard_flags] by auto
  have a: "alike res1 ?res2" using k2 by (simp add: keeps_def alike_def)
  have l2: "\<not> res_linked ?res2 i" "\<not> l_destroyed (res_locks ?res2 i)" "req_ok ?res2 i" "l_req_mode (res_locks ?res2 i) = mode"
    "lr_type ?res2 = lr_type res" using alike_lock [OF a] alike_preds [OF a] c by (auto simp: res_linked_def set_flag_def upd_lock_def)
  have o2: "res_locks ?res2 j = res_locks res j \<and> res_linked ?res2 j = res_linked res j" if "j \<noteq> i" for j
    using that c(9) by (auto simp: set_flag_def upd_lock_def res_linked_def)
  obtain r res' where r: "policy_restart i [] ?res2 = Some (r, res')" "enq_outcome (i # used) i [] ?res2 r res'"
    using restart_inv [OF inv2 _ l2(3), of "[]"] l2(4) mode(2) by auto
  have "req_ok res' i" using r(2) l2(3) alike_preds(3) by (auto simp: enq_outcome_def keeps_def)
  moreover have "\<not> ns_client ?res2" using inv2 by (simp add: res_inv_def)
  moreover have "ldlm_lock_enqueue policy_enq i None flags res1 = Some (0, flags, r, res')"
    using unlink_ok [OF v(1), of i] v(2,12) flags r(1) calculation(2) policy_enq_restart [OF res_inv_parts(13) [OF inv2], of i]
    by (auto simp: ldlm_lock_enqueue_def Let_def)
  ultimately show ?thesis using c(1) r(2) o2 l2(5) by blast
qed

section \<open>The invariant of the server\<close>

fun bl_items :: "thread \<Rightarrow> nat list" where
  "bl_items (Thr_enq l xs) = xs"
| "bl_items t = []"

fun cp_items :: "thread \<Rightarrow> nat list" where
  "cp_items (Thr_cp xs) = xs"
| "cp_items t = []"

text \<open>The callbacks left to run: those of two threads are different, and each is for a lock in the state it is queued in.\<close>

definition items_ok :: "(thread \<Rightarrow> nat list) \<Rightarrow> (nat \<Rightarrow> bool) \<Rightarrow> nat list \<Rightarrow> thread list \<Rightarrow> bool" where
  "items_ok f P used ts \<longleftrightarrow>
    (\<forall>n < length ts. distinct (f (ts ! n)) \<and> (\<forall>x \<in> set (f (ts ! n)). x \<in> set used \<and> P x))
    \<and> (\<forall>m < length ts. \<forall>n < length ts. m \<noteq> n \<longrightarrow> set (f (ts ! m)) \<inter> set (f (ts ! n)) = {})"

lemma items_upd:
  assumes ok: "items_ok f P used ts" and n: "n < length ts" and t: "distinct (f t)"
    "\<And>x. x \<in> set (f t) \<Longrightarrow> x \<in> set used \<and> P' x \<and> (x \<in> set (f (ts ! n)) \<or> \<not> P x)"
    and P: "\<And>x. x \<in> set used \<Longrightarrow> P x \<Longrightarrow> x \<notin> set (f (ts ! n)) \<Longrightarrow> P' x"
  shows "items_ok f P' used (ts[n := t])"
proof -
  have d: "set (f (ts ! m)) \<inter> set (f (ts ! n)) = {}" if "m < length ts" "m \<noteq> n" for m using ok n that by (simp add: items_ok_def)
  have i: "x \<in> set used \<and> P x" if "m < length ts" "x \<in> set (f (ts ! m))" for m x using ok that by (simp add: items_ok_def)
  have e: "set (f t) \<inter> set (f (ts ! m)) = {}" if "m < length ts" "m \<noteq> n" for m
    using d [OF that] i [OF that(1)] t(2) by blast
  have "distinct (f (ts[n := t] ! m)) \<and> (\<forall>x \<in> set (f (ts[n := t] ! m)). x \<in> set used \<and> P' x)" if "m < length ts" for m
  proof (cases "m = n")
    case False
    then show ?thesis using ok that i [OF that] P d [OF that False] by (auto simp: items_ok_def)
  qed (use t n in auto)
  moreover have "set (f (ts[n := t] ! m)) \<inter> set (f (ts[n := t] ! k)) = {}" if "m < length ts" "k < length ts" "m \<noteq> k" for m k
    using ok that e [of m] e [of k] n by (cases "m = n"; cases "k = n") (auto simp: items_ok_def Int_commute)
  ultimately show ?thesis by (simp add: items_ok_def)
qed

lemma items_app:
  assumes ok: "items_ok f P used ts" and t: "distinct (f t)"
    "\<And>x. x \<in> set (f t) \<Longrightarrow> x \<in> set used' \<and> P' x \<and> (x \<in> set used \<longrightarrow> \<not> P x)"
    and P: "\<And>x. x \<in> set used \<Longrightarrow> P x \<Longrightarrow> P' x" and u: "set used \<subseteq> set used'"
  shows "items_ok f P' used' (ts @ [t])"
proof -
  have i: "x \<in> set used \<and> P x" if "m < length ts" "x \<in> set (f (ts ! m))" for m x using ok that by (simp add: items_ok_def)
  have e: "set (f (ts ! m)) \<inter> set (f t) = {}" if "m < length ts" for m using i [OF that] t(2) by blast
  have "distinct (f ((ts @ [t]) ! m)) \<and> (\<forall>x \<in> set (f ((ts @ [t]) ! m)). x \<in> set used' \<and> P' x)" if "m \<le> length ts" for m
    using that ok i [of m] P u t by (cases "m = length ts") (auto simp: items_ok_def nth_append)
  moreover have "set (f ((ts @ [t]) ! m)) \<inter> set (f ((ts @ [t]) ! k)) = {}" if "m \<le> length ts" "k \<le> length ts" "m \<noteq> k" for m k
    using that ok e [of m] e [of k] by (cases "m = length ts"; cases "k = length ts") (auto simp: items_ok_def nth_append Int_commute)
  ultimately show ?thesis by (simp add: items_ok_def less_Suc_eq_le)
qed

definition sys_inv :: "ldlm_sys \<Rightarrow> bool" where
  "sys_inv s \<longleftrightarrow> res_inv (sys_used s) (sys_res s) \<and> (\<forall>i \<in> set (sys_used s). req_ok (sys_res s) i)
    \<and> items_ok bl_items (queued (sys_res s)) (sys_used s) (sys_threads s)
    \<and> items_ok cp_items (cp_reqd (sys_res s)) (sys_used s) (sys_threads s)
    \<and> (\<forall>l xs. Thr_enq l xs \<in> set (sys_threads s) \<longrightarrow> l \<in> set (sys_used s)
        \<and> (res_linked (sys_res s) l \<or> l_destroyed (res_locks (sys_res s) l)))"

lemmas sys_inv_parts = sys_inv_def [THEN iffD1, THEN conjunct1] sys_inv_def [THEN iffD1, THEN conjunct2, THEN conjunct1]
  sys_inv_def [THEN iffD1, THEN conjunct2, THEN conjunct2, THEN conjunct1]
  sys_inv_def [THEN iffD1, THEN conjunct2, THEN conjunct2, THEN conjunct2, THEN conjunct1]
  sys_inv_def [THEN iffD1, THEN conjunct2, THEN conjunct2, THEN conjunct2, THEN conjunct2]

text \<open>A step that leaves the threads as they are, and one that changes one thread.\<close>

lemma sys_inv_res:
  assumes s: "sys_inv s" and "res_inv (sys_used s) res" "keeps_items (sys_res s) res"
  shows "sys_inv (s\<lparr>sys_res := res\<rparr>)"
proof -
  have k: "\<And>x. queued (sys_res s) x \<Longrightarrow> queued res x" "\<And>x. cp_reqd (sys_res s) x \<Longrightarrow> cp_reqd res x"
    "\<And>x. req_ok (sys_res s) x \<Longrightarrow> req_ok res x"
    "\<And>x. res_linked (sys_res s) x \<or> l_destroyed (res_locks (sys_res s) x) \<Longrightarrow> res_linked res x \<or> l_destroyed (res_locks res x)"
    using assms(3) unfolding keeps_items_def by blast+
  note p = sys_inv_parts [OF s]
  have i: "items_ok f P' u ts" if "items_ok f P u ts" "\<And>x. P x \<Longrightarrow> P' x" for f P P' u ts using that by (simp add: items_ok_def)
  have "items_ok bl_items (queued res) (sys_used s) (sys_threads s)" using i [OF p(3) k(1)] .
  moreover have "items_ok cp_items (cp_reqd res) (sys_used s) (sys_threads s)" using i [OF p(4) k(2)] .
  moreover have "\<forall>l xs. Thr_enq l xs \<in> set (sys_threads s) \<longrightarrow> l \<in> set (sys_used s) \<and> (res_linked res l \<or> l_destroyed (res_locks res l))"
    using p(5) k(4) by blast
  ultimately show ?thesis using assms(2) p(2) k(3) by (simp add: sys_inv_def)
qed

lemma set_upd_cases: "Thr_enq l xs \<in> set (ts[n := t]) \<Longrightarrow> t = Thr_enq l xs \<or> Thr_enq l xs \<in> set ts"
  by (metis insertE set_update_subset_insert subsetD)

lemma sys_inv_thread:
  assumes s: "sys_inv s" and n: "n < length (sys_threads s)" and r: "res_inv (sys_used s) res"
    and k: "\<And>x. x \<in> set (sys_used s) \<Longrightarrow> req_ok (sys_res s) x \<Longrightarrow> req_ok res x"
      "\<And>x. res_linked (sys_res s) x \<or> l_destroyed (res_locks (sys_res s) x) \<Longrightarrow> res_linked res x \<or> l_destroyed (res_locks res x)"
    and bl: "distinct (bl_items t)" "\<And>x. x \<in> set (bl_items t) \<Longrightarrow> x \<in> set (sys_used s) \<and> queued res x
        \<and> (x \<in> set (bl_items (sys_threads s ! n)) \<or> \<not> queued (sys_res s) x)"
      "\<And>x. queued (sys_res s) x \<Longrightarrow> x \<notin> set (bl_items (sys_threads s ! n)) \<Longrightarrow> queued res x"
    and cp: "distinct (cp_items t)" "\<And>x. x \<in> set (cp_items t) \<Longrightarrow> x \<in> set (sys_used s) \<and> cp_reqd res x
        \<and> (x \<in> set (cp_items (sys_threads s ! n)) \<or> \<not> cp_reqd (sys_res s) x)"
      "\<And>x. cp_reqd (sys_res s) x \<Longrightarrow> x \<notin> set (cp_items (sys_threads s ! n)) \<Longrightarrow> cp_reqd res x"
    and thr: "\<And>l xs. t = Thr_enq l xs \<Longrightarrow> l \<in> set (sys_used s) \<and> (res_linked res l \<or> l_destroyed (res_locks res l))"
  shows "sys_inv (s\<lparr>sys_res := res, sys_threads := (sys_threads s)[n := t]\<rparr>)"
proof -
  note p = sys_inv_parts [OF s]
  have "items_ok bl_items (queued res) (sys_used s) ((sys_threads s)[n := t])"
    by (rule items_upd [OF p(3) n bl(1,2)]) (use bl(3) in auto)
  moreover have "items_ok cp_items (cp_reqd res) (sys_used s) ((sys_threads s)[n := t])"
    by (rule items_upd [OF p(4) n cp(1,2)]) (use cp(3) in auto)
  moreover have "l \<in> set (sys_used s) \<and> (res_linked res l \<or> l_destroyed (res_locks res l))"
    if "Thr_enq l xs \<in> set ((sys_threads s)[n := t])" for l xs
    using set_upd_cases [OF that] thr [of l xs] p(5) k(2) by blast
  ultimately show ?thesis using p(2) r k(1) by (simp add: sys_inv_def)
qed

lemma sys_inv_new_thread:
  assumes s: "sys_inv s" and r: "res_inv used res" and u: "set (sys_used s) \<subseteq> set used"
    and k: "\<And>x. x \<in> set used \<Longrightarrow> req_ok res x"
      "\<And>x. x \<in> set (sys_used s) \<Longrightarrow> res_linked (sys_res s) x \<or> l_destroyed (res_locks (sys_res s) x) \<Longrightarrow>
        res_linked res x \<or> l_destroyed (res_locks res x)"
    and bl: "distinct (bl_items t)" "\<And>x. x \<in> set (bl_items t) \<Longrightarrow> x \<in> set used \<and> queued res x
        \<and> (x \<in> set (sys_used s) \<longrightarrow> \<not> queued (sys_res s) x)"
      "\<And>x. x \<in> set (sys_used s) \<Longrightarrow> queued (sys_res s) x \<Longrightarrow> queued res x"
    and cp: "distinct (cp_items t)" "\<And>x. x \<in> set (cp_items t) \<Longrightarrow> x \<in> set used \<and> cp_reqd res x
        \<and> (x \<in> set (sys_used s) \<longrightarrow> \<not> cp_reqd (sys_res s) x)"
      "\<And>x. x \<in> set (sys_used s) \<Longrightarrow> cp_reqd (sys_res s) x \<Longrightarrow> cp_reqd res x"
    and thr: "\<And>l xs. t = Thr_enq l xs \<Longrightarrow> l \<in> set used \<and> (res_linked res l \<or> l_destroyed (res_locks res l))"
  shows "sys_inv \<lparr>sys_res = res, sys_threads = sys_threads s @ [t], sys_used = used\<rparr>"
proof -
  note p = sys_inv_parts [OF s]
  have "items_ok bl_items (queued res) used (sys_threads s @ [t])"
    by (rule items_app [OF p(3) bl(1,2) _ u]) (use bl(3) in auto)
  moreover have "items_ok cp_items (cp_reqd res) used (sys_threads s @ [t])"
    by (rule items_app [OF p(4) cp(1,2) _ u]) (use cp(3) in auto)
  moreover have "l \<in> set used \<and> (res_linked res l \<or> l_destroyed (res_locks res l))"
    if "Thr_enq l xs \<in> set (sys_threads s @ [t])" for l xs
    using that thr [of l xs] p(5) k(2) u by auto
  ultimately show ?thesis using r k(1) by (simp add: sys_inv_def)
qed

section \<open>Every action keeps it\<close>

text \<open>What a step has to show: the action happens and leads to a state with the invariant.\<close>

abbreviation step_ok :: "action \<Rightarrow> ldlm_sys \<Rightarrow> bool" where
  "step_ok a s \<equiv> \<exists>s'. perform a s = Some s' \<and> sys_inv s' \<and> lr_type (sys_res s') = lr_type (sys_res s)"

lemma step_enqueue:
  assumes s: "sys_inv s" and en: "enabled (A_enqueue i mode bits cookie bl cp flags) s"
  shows "step_ok (A_enqueue i mode bits cookie bl cp flags) s"
proof -
  note p = sys_inv_parts [OF s]
  let ?ex = "\<lparr>le_start = 0, le_end = 0, le_gid = 0\<rparr>"
  have e: "i \<notin> set (sys_used s)" "mode \<noteq> LCK_MINMODE" "mode \<noteq> LCK_COS" "lr_type (sys_res s) = LDLM_IBITS \<Longrightarrow> bits \<noteq> 0"
    "\<not> has_flag flags LDLM_FL_REPLAY" using en by (auto simp: enabled_def split: thread.splits list.splits)
  obtain res1 res2 r res' where c: "ldlm_lock_create i None (ldlm_lock_new mode bits ?ex cookie None bl cp) (sys_res s) = Some res1"
    "ldlm_lock_enqueue policy_enq i None flags res1 = Some (0, flags, r, res')"
    "enq_outcome (i # sys_used s) i [] res2 r res'" "req_ok res' i"
    "\<forall>j. j \<noteq> i \<longrightarrow> res_locks res2 j = res_locks (sys_res s) j \<and> res_linked res2 j = res_linked (sys_res s) j"
    "lr_type res2 = lr_type (sys_res s)"
    using enqueue_inv [OF p(1) e, where ex = ?ex and cookie = cookie and ep = None and bl = bl and cp = cp] by blast
  obtain new where o: "res_inv (i # sys_used s) res'" "keeps res2 res'" "res_linked res' i \<or> l_destroyed (res_locks res' i)"
    "\<forall>j. res_linked res2 j \<longrightarrow> res_linked res' j" "distinct new" "set new \<subseteq> set (i # sys_used s)"
    "\<forall>x \<in> set new. \<not> ast_sent res2 x \<and> queued res' x" "r = Enq_granted \<and> new = [] \<or> r = Enq_ast (new @ [])"
    using c(3) unfolding enq_outcome_def by blast
  have a: "alike res2 res'" using o(2) by (simp add: keeps_def)
  have t: "bl_items (enq_thread i r) = new" "cp_items (enq_thread i r) = []" "\<And>l xs. enq_thread i r = Thr_enq l xs \<Longrightarrow> l = i"
    using o(8) by auto
  have old: "x \<noteq> i" if "x \<in> set (sys_used s)" for x using that e(1) by blast
  have same: "queued res2 x = queued (sys_res s) x" "cp_reqd res2 x = cp_reqd (sys_res s) x" "req_ok res2 x = req_ok (sys_res s) x"
    if "x \<in> set (sys_used s)" for x using old [OF that] c(5,6) by (auto simp: queued_def req_ok_def)
  have "sys_inv \<lparr>sys_res = res', sys_threads = sys_threads s @ [enq_thread i r], sys_used = i # sys_used s\<rparr>"
  proof (rule sys_inv_new_thread [OF s o(1)])
    fix x assume "x \<in> set (i # sys_used s)"
    then show "req_ok res' x" using c(4) p(2) same(3) alike_preds(3) [OF a] by auto
  next
    fix x assume "x \<in> set (sys_used s)" "res_linked (sys_res s) x \<or> l_destroyed (res_locks (sys_res s) x)"
    then show "res_linked res' x \<or> l_destroyed (res_locks res' x)" using old c(5) o(4) alike_lock(5) [OF a] by auto
  next
    fix x assume "x \<in> set (bl_items (enq_thread i r))"
    then have x: "x \<in> set new" using t by simp
    then have "\<not> queued res2 x" using o(7) by (simp add: queued_def)
    then show "x \<in> set (i # sys_used s) \<and> queued res' x \<and> (x \<in> set (sys_used s) \<longrightarrow> \<not> queued (sys_res s) x)"
      using x o(6,7) same(1) by auto
  next
    fix x assume "x \<in> set (sys_used s)" "queued (sys_res s) x"
    then show "queued res' x" using same(1) queued_keeps [OF _ o(2)] by blast
  next
    fix x assume "x \<in> set (sys_used s)" "cp_reqd (sys_res s) x"
    then show "cp_reqd res' x" using same(2) o(2) by (auto simp: keeps_def)
  qed (use t o(3,5) in auto)
  moreover have "lr_type res' = lr_type (sys_res s)" using alike_lock(6) [OF a] c(6) by simp
  ultimately show ?thesis using c(1,2) by (cases s) (simp add: perform_def)
qed

lemma step_restart:
  assumes s: "sys_inv s" and en: "enabled (A_restart n) s"
  shows "step_ok (A_restart n) s"
proof -
  note p = sys_inv_parts [OF s]
  obtain l where n: "n < length (sys_threads s)" "sys_threads s ! n = Thr_enq l []" using en by (auto simp: enabled_def split: thread.splits list.splits)
  then have "Thr_enq l [] \<in> set (sys_threads s)" by (metis nth_mem)
  then have l: "l \<in> set (sys_used s)" "res_linked (sys_res s) l \<or> l_destroyed (res_locks (sys_res s) l)" using p(5) by auto
  obtain r res' where r: "policy_restart l [] (sys_res s) = Some (r, res')" "enq_outcome (sys_used s) l [] (sys_res s) r res'"
    using restart_inv [OF p(1) l(1), of "[]"] p(2) l by blast
  obtain new where o: "res_inv (sys_used s) res'" "keeps (sys_res s) res'" "res_linked res' l \<or> l_destroyed (res_locks res' l)"
    "\<forall>j. res_linked (sys_res s) j \<longrightarrow> res_linked res' j" "distinct new" "set new \<subseteq> set (sys_used s)"
    "\<forall>x \<in> set new. \<not> ast_sent (sys_res s) x \<and> queued res' x" "r = Enq_granted \<and> new = [] \<or> r = Enq_ast (new @ [])"
    using r(2) unfolding enq_outcome_def by blast
  have a: "alike (sys_res s) res'" using o(2) by (simp add: keeps_def)
  have k: "keeps_items (sys_res s) res'" using keeps_items_of [OF o(2,4)] .
  have t: "bl_items (enq_thread l r) = new" "cp_items (enq_thread l r) = []" "\<And>m xs. enq_thread l r = Thr_enq m xs \<Longrightarrow> m = l"
    using o(8) by auto
  have "sys_inv (s\<lparr>sys_res := res', sys_threads := (sys_threads s)[n := enq_thread l r]\<rparr>)"
  proof (rule sys_inv_thread [OF s n(1) o(1)])
    fix x assume "x \<in> set (bl_items (enq_thread l r))"
    then show "x \<in> set (sys_used s) \<and> queued res' x \<and> (x \<in> set (bl_items (sys_threads s ! n)) \<or> \<not> queued (sys_res s) x)"
      using o(6,7) t by (auto simp: queued_def)
  qed (use k t o(3,5) l(1) in \<open>auto simp: keeps_items_def\<close>)
  then show ?thesis using r(1) n(2) alike_lock(6) [OF a] by (simp add: perform_def)
qed

lemma step_bl_ast:
  assumes s: "sys_inv s" and en: "enabled (A_bl_ast n) s"
  shows "step_ok (A_bl_ast n) s"
proof -
  note p = sys_inv_parts [OF s]
  obtain l x xs where n: "n < length (sys_threads s)" "sys_threads s ! n = Thr_enq l (x # xs)" using en by (auto simp: enabled_def split: thread.splits list.splits)
  then have "Thr_enq l (x # xs) \<in> set (sys_threads s)" by (metis nth_mem)
  then have l: "l \<in> set (sys_used s)" "res_linked (sys_res s) l \<or> l_destroyed (res_locks (sys_res s) l)" using p(5) by blast+
  have "distinct (bl_items (sys_threads s ! n)) \<and> (\<forall>y \<in> set (bl_items (sys_threads s ! n)). y \<in> set (sys_used s) \<and> queued (sys_res s) y)"
    using p(3) n(1) unfolding items_ok_def by blast
  then have i: "distinct (x # xs)" "\<And>y. y \<in> set (x # xs) \<Longrightarrow> y \<in> set (sys_used s) \<and> queued (sys_res s) y" unfolding n(2) by auto
  obtain res' where r: "ldlm_work_bl_ast_lock x (sys_res s) = Some res'" "res_inv (sys_used s) res'" "alike (sys_res s) res'"
    "\<forall>j. res_linked res' j = res_linked (sys_res s) j" "\<forall>j. j \<noteq> x \<longrightarrow> res_locks res' j = res_locks (sys_res s) j"
    "\<forall>j. cp_reqd res' j = cp_reqd (sys_res s) j"
    using bl_ast_inv [OF p(1), of x] i(2) by auto
  have q: "queued res' y" if "queued (sys_res s) y" "y \<noteq> x" for y using that r(5) by (simp add: queued_def)
  have "sys_inv (s\<lparr>sys_res := res', sys_threads := (sys_threads s)[n := Thr_enq l xs]\<rparr>)"
  proof (rule sys_inv_thread [OF s n(1) r(2)])
    fix y assume "y \<in> set (bl_items (Thr_enq l xs))"
    then show "y \<in> set (sys_used s) \<and> queued res' y \<and> (y \<in> set (bl_items (sys_threads s ! n)) \<or> \<not> queued (sys_res s) y)"
      using i q [of y] n(2) by auto
  qed (use q r(4,6) i(1) l n(2) alike_lock(5) [OF r(3)] alike_preds(3) [OF r(3)] in auto)
  then show ?thesis using r(1) n(2) alike_lock(6) [OF r(3)] by (simp add: perform_def)
qed

lemma step_cp_ast:
  assumes s: "sys_inv s" and en: "enabled (A_cp_ast n) s"
  shows "step_ok (A_cp_ast n) s"
proof -
  note p = sys_inv_parts [OF s]
  obtain x xs where n: "n < length (sys_threads s)" "sys_threads s ! n = Thr_cp (x # xs)" using en by (auto simp: enabled_def split: thread.splits list.splits)
  have "distinct (cp_items (sys_threads s ! n)) \<and> (\<forall>y \<in> set (cp_items (sys_threads s ! n)). y \<in> set (sys_used s) \<and> cp_reqd (sys_res s) y)"
    using p(4) n(1) unfolding items_ok_def by blast
  then have i: "distinct (x # xs)" "\<And>y. y \<in> set (x # xs) \<Longrightarrow> y \<in> set (sys_used s) \<and> cp_reqd (sys_res s) y" unfolding n(2) by auto
  obtain rc res' where r: "ldlm_work_cp_ast_lock x (sys_res s) = Some (rc, res')" "res_inv (sys_used s) res'" "alike (sys_res s) res'"
    "\<forall>j. res_linked res' j = res_linked (sys_res s) j" "\<forall>j. j \<noteq> x \<longrightarrow> res_locks res' j = res_locks (sys_res s) j"
    "\<forall>j. queued res' j = queued (sys_res s) j"
    using cp_ast_inv [OF p(1), of x] i(2) by auto
  have q: "cp_reqd res' y" if "cp_reqd (sys_res s) y" "y \<noteq> x" for y using that r(5) by simp
  have "sys_inv (s\<lparr>sys_res := res', sys_threads := (sys_threads s)[n := Thr_cp xs]\<rparr>)"
  proof (rule sys_inv_thread [OF s n(1) r(2)])
    fix y assume "y \<in> set (cp_items (Thr_cp xs))"
    then show "y \<in> set (sys_used s) \<and> cp_reqd res' y \<and> (y \<in> set (cp_items (sys_threads s ! n)) \<or> \<not> cp_reqd (sys_res s) y)"
      using i q [of y] n(2) by auto
  qed (use q r(4,6) i(1) n(2) alike_lock(5) [OF r(3)] alike_preds(3) [OF r(3)] in auto)
  then show ?thesis using r(1) n(2) alike_lock(6) [OF r(3)] by (simp add: perform_def)
qed

text \<open>The completion callbacks that \<open>ldlm_reprocess_all\<close> queues are new.\<close>

lemma reprocess_items:
  assumes s: "sys_inv s"
  obtains rpc res' where "ldlm_reprocess_all policy_reproc (sys_res s) = Some (rpc, res')" "res_inv (sys_used s) res'"
    "keeps_items (sys_res s) res'" "lr_type res' = lr_type (sys_res s)" "distinct rpc"
    "\<And>x. x \<in> set rpc \<Longrightarrow> x \<in> set (sys_used s) \<and> cp_reqd res' x \<and> \<not> cp_reqd (sys_res s) x"
proof -
  assume a: "\<And>rpc res'. \<lbrakk>ldlm_reprocess_all policy_reproc (sys_res s) = Some (rpc, res'); res_inv (sys_used s) res';
    keeps_items (sys_res s) res'; lr_type res' = lr_type (sys_res s); distinct rpc;
    \<And>x. x \<in> set rpc \<Longrightarrow> x \<in> set (sys_used s) \<and> cp_reqd res' x \<and> \<not> cp_reqd (sys_res s) x\<rbrakk> \<Longrightarrow> thesis"
  obtain rpc res' where r: "ldlm_reprocess_all policy_reproc (sys_res s) = Some (rpc, res')" "res_inv (sys_used s) res'"
    "keeps (sys_res s) res'" "distinct rpc" "set rpc \<subseteq> set (sys_used s)" "\<forall>x \<in> set rpc. \<not> cp_reqd (sys_res s) x \<and> cp_reqd res' x"
    "\<forall>i. res_linked (sys_res s) i \<longrightarrow> res_linked res' i"
    using policy.reprocess_all_inv [OF sys_inv_parts(1) [OF s]] by (elim exE conjE)
  show thesis
    by (rule a [OF r(1,2) keeps_items_of [OF r(3,7)] _ r(4)])
      (use r(3,5,6) in \<open>auto simp: keeps_def alike_lock\<close>)
qed

lemma step_reprocess:
  assumes s: "sys_inv s" shows "step_ok A_reprocess s"
proof -
  note p = sys_inv_parts [OF s]
  obtain rpc res' where r: "ldlm_reprocess_all policy_reproc (sys_res s) = Some (rpc, res')" "res_inv (sys_used s) res'"
    "keeps_items (sys_res s) res'" "lr_type res' = lr_type (sys_res s)" "distinct rpc"
    "\<And>x. x \<in> set rpc \<Longrightarrow> x \<in> set (sys_used s) \<and> cp_reqd res' x \<and> \<not> cp_reqd (sys_res s) x"
    using reprocess_items [OF s] by blast
  have "sys_inv \<lparr>sys_res = res', sys_threads = sys_threads s @ [Thr_cp rpc], sys_used = sys_used s\<rparr>"
    by (rule sys_inv_new_thread [OF s r(2)]) (use p(2) r(3,5,6) in \<open>auto simp: keeps_items_def\<close>)
  then show ?thesis using r(1,4) by (cases s) (simp add: perform_def)
qed

lemma step_reprocess_restart:
  assumes s: "sys_inv s" and en: "enabled (A_reprocess_restart n) s" shows "step_ok (A_reprocess_restart n) s"
proof -
  have n: "n < length (sys_threads s)" "sys_threads s ! n = Thr_cp []" using en by (auto simp: enabled_def split: thread.splits list.splits)
  obtain rpc res' where r: "ldlm_reprocess_all policy_reproc (sys_res s) = Some (rpc, res')" "res_inv (sys_used s) res'"
    "keeps_items (sys_res s) res'" "lr_type res' = lr_type (sys_res s)" "distinct rpc"
    "\<And>x. x \<in> set rpc \<Longrightarrow> x \<in> set (sys_used s) \<and> cp_reqd res' x \<and> \<not> cp_reqd (sys_res s) x"
    using reprocess_items [OF s] by blast
  have "sys_inv (s\<lparr>sys_res := res', sys_threads := (sys_threads s)[n := Thr_cp rpc]\<rparr>)"
    by (rule sys_inv_thread [OF s n(1) r(2)]) (use r(3,5,6) in \<open>auto simp: keeps_items_def\<close>)
  then show ?thesis using r(1,4) by (simp add: perform_def)
qed

lemma step_done:
  assumes s: "sys_inv s" and en: "enabled (A_done n) s" shows "step_ok (A_done n) s"
proof -
  have n: "n < length (sys_threads s)" "bl_items (sys_threads s ! n) = []" "cp_items (sys_threads s ! n) = []"
    using en by (auto simp: enabled_def split: thread.splits list.splits)
  have "sys_inv (s\<lparr>sys_res := sys_res s, sys_threads := (sys_threads s)[n := Thr_done]\<rparr>)"
    by (rule sys_inv_thread [OF s n(1) sys_inv_parts(1) [OF s]]) auto
  then show ?thesis by (simp add: perform_def)
qed

lemma step_cancel_begin:
  assumes s: "sys_inv s" shows "step_ok (A_cancel_begin i) s"
proof -
  obtain res where r: "ldlm_lock_cancel_begin i (sys_res s) = Some res" "res_inv (sys_used s) res" "keeps (sys_res s) res"
    "\<forall>j. res_linked res j = res_linked (sys_res s) j"
    using cancel_begin_inv [OF sys_inv_parts(1) [OF s]] by blast
  have "sys_inv (s\<lparr>sys_res := res\<rparr>)" by (rule sys_inv_res [OF s r(2) keeps_items_of [OF r(3)]]) (use r(4) in simp)
  then show ?thesis using r(1,3) by (simp add: perform_def keeps_def alike_def)
qed

lemma step_cancel_finish:
  assumes s: "sys_inv s" and i: "i \<in> set (sys_used s)" shows "step_ok (A_cancel_finish i) s"
proof -
  obtain res where r: "ldlm_lock_cancel_finish i (sys_res s) = Some res" "res_inv (sys_used s) res" "keeps_items (sys_res s) res"
    using cancel_finish_inv [OF sys_inv_parts(1) [OF s] i] sys_inv_parts(2) [OF s] i by blast
  then show ?thesis using sys_inv_res [OF s r(2,3)] by (simp add: perform_def keeps_items_def)
qed

lemma step_downgrade:
  assumes s: "sys_inv s" and i: "enabled (A_downgrade i) s" shows "step_ok (A_downgrade i) s"
proof -
  obtain res where r: "ldlm_lock_downgrade i LCK_COS (sys_res s) = Some res" "res_inv (sys_used s) res" "keeps_items (sys_res s) res"
    using downgrade_inv [OF sys_inv_parts(1) [OF s], of i] i by (auto simp: enabled_def)
  then show ?thesis using sys_inv_res [OF s r(2,3)] by (simp add: perform_def keeps_items_def)
qed

lemma step_any:
  assumes "sys_inv s" "enabled a s" shows "step_ok a s"
proof (cases a)
  case (A_enqueue i mode bits cookie bl cp flags)
  then show ?thesis using step_enqueue assms by blast
next
  case (A_cancel_finish i)
  then have "i \<in> set (sys_used s)" using assms(2) by (simp add: enabled_def)
  then show ?thesis using step_cancel_finish [OF assms(1)] A_cancel_finish by blast
qed (use assms step_bl_ast step_restart step_done step_cancel_begin step_reprocess step_cp_ast step_reprocess_restart
  step_downgrade in blast)+

lemma init_inv:
  assumes "type \<in> {LDLM_PLAIN, LDLM_IBITS}" "pool \<ge> 0" shows "res_inv [] (init_res type pool)"
proof -
  have "groups_ok (init_res type pool) []" by (simp add: groups_ok_def init_res_def self_linked_def rings_def ring_self)
  then show ?thesis using assms
    by (auto simp: res_inv_def res_ok_def skip_ok_def init_res_def members_ok_def memory_ok_def ast_ok_def cp_ok_def pairs_ok_def
      told_def pool_ok_def ldlm_lock_new_def)
qed

lemma reachable_inv:
  assumes "reachable type s" "type \<in> {LDLM_PLAIN, LDLM_IBITS}" shows "sys_inv s \<and> lr_type (sys_res s) = type"
  using assms
proof (induction rule: reachable.induct)
  case (reach_init pool)
  then show ?case using init_inv [of type pool] by (simp add: sys_inv_def items_ok_def) (simp add: init_res_def)
next
  case (reach_step s a s')
  then show ?case using step_any [of s a] by auto
qed

end
