(* ===== verification/LdlmGuarantees.thy ===== *)
theory LdlmGuarantees
  imports LdlmSafety
begin

text \<open>
  What the lock server guarantees for plain and inode-bits locks, as theorems on the states that any
  interleaving of its threads reaches: it never stops, granted locks exclude each other, blockers are told,
  reprocessing makes progress, the skip lists are an optimisation only. The last section has the runs
  that show where the bookkeeping of the code goes wrong; they are computed.
\<close>

section \<open>Runs\<close>

declare add_ring_loop.simps [code] plain_compat_loop.simps [code] ibits_policy_loop.simps [code] ibits_compat_loop.simps [code]
  search_policy_loop.simps [code] search_granted_loop.simps [code]

text \<open>A run: a sequence of actions that can happen one after the other.\<close>

fun run :: "action list \<Rightarrow> ldlm_sys \<Rightarrow> ldlm_sys option" where
  "run [] s = Some s"
| "run (a # as) s = (if enabled a s then Option.bind (perform a s) (run as) else None)"

lemma run_reachable: "\<lbrakk>run as s = Some s'; reachable type s\<rbrakk> \<Longrightarrow> reachable type s'"
  by (induction as arbitrary: s) (auto split: if_splits Option.bind_splits intro: reachable.intros)

abbreviation sys_start :: "ldlm_type \<Rightarrow> ldlm_sys" where
  "sys_start type \<equiv> \<lparr>sys_res = init_res type 0, sys_threads = [], sys_used = []\<rparr>"

text \<open>The state a run from the empty resource ends in is reachable, and what it looks like is computed.\<close>

lemma run_obs:
  assumes "map_option f (run as (sys_start type)) = Some y" shows "\<exists>s. run as (sys_start type) = Some s \<and> reachable type s \<and> f s = y"
  using assms run_reachable reach_init [of 0] by fastforce

text \<open>
  Lock 0 of one client excludes locks 1 and 2 of two other clients, which are compatible with each other;
  lock 0 is then given back.
\<close>

definition sample_actions :: "action list" where
  "sample_actions = [A_enqueue 0 LCK_EX 3 0 True True 0, A_enqueue 1 LCK_PR 1 1 True True 0, A_enqueue 2 LCK_CR 3 2 True True 0,
    A_bl_ast 1, A_cancel_begin 0, A_cancel_finish 0]"

section \<open>What the server guarantees\<close>



text \<open>
  (C2) Mutual exclusion: in every reachable state, two different granted locks whose bits overlap (of a
  plain resource, any two) have compatible modes. A lock that was downgraded to \<open>LCK_COS\<close>
  contends with every lock of another client but for the modes \<open>LCK_CR\<close> and \<open>LCK_NL\<close>, which it may have met
  before the downgrade.
\<close>

theorem ldlm_granted_compatible:
  assumes "reachable type s" "type \<in> {LDLM_PLAIN, LDLM_IBITS}"
    "x \<in> set (lr_granted (sys_res s))" "y \<in> set (lr_granted (sys_res s))" "x \<noteq> y"
    "type = LDLM_IBITS \<Longrightarrow> l_inodebits (res_locks (sys_res s) x) AND l_inodebits (res_locks (sys_res s) y) \<noteq> 0"
    "l_granted_mode (res_locks (sys_res s) y) = LCK_COS \<Longrightarrow> l_granted_mode (res_locks (sys_res s) x) = LCK_COS"
  shows "if l_granted_mode (res_locks (sys_res s) x) = LCK_COS
    then l_client_cookie (res_locks (sys_res s) x) = l_client_cookie (res_locks (sys_res s) y)
      \<or> l_granted_mode (res_locks (sys_res s) y) \<in> {LCK_CR, LCK_NL}
    else lockmode_compat (l_granted_mode (res_locks (sys_res s) x)) (l_granted_mode (res_locks (sys_res s) y))"
proof -
  have inv: "sys_inv s" "lr_type (sys_res s) = type" using reachable_inv assms(1,2) by auto
  note v = res_inv_parts [OF sys_inv_parts(1) [OF inv(1)]]
  have "pair_ok (sys_res s) x y" using v(7) assms(3-5) by (auto simp: pairs_ok_def)
  moreover have "share (sys_res s) x y" using assms(2,6) inv(2) by (auto simp: share_def)
  moreover have "l_granted_mode (res_locks (sys_res s) z) = l_req_mode (res_locks (sys_res s) z)" if "z \<in> set (lr_granted (sys_res s))" for z
    using v(3) that by (auto simp: members_ok_def)
  ultimately show ?thesis using assms(3,4,7) by (auto simp: pair_ok_def Let_def split: if_splits)
qed

theorem ldlm_granted_compatible_witness:
  "\<exists>s. reachable LDLM_IBITS s \<and> set (lr_granted (sys_res s)) = {1, 2}
    \<and> lockmode_compat (l_granted_mode (res_locks (sys_res s) 1)) (l_granted_mode (res_locks (sys_res s) 2))"
proof -
  let ?f = "\<lambda>s. (set (lr_granted (sys_res s)), l_inodebits (res_locks (sys_res s) 1) AND l_inodebits (res_locks (sys_res s) 2) = 0,
    l_granted_mode (res_locks (sys_res s) 1), l_granted_mode (res_locks (sys_res s) 2))"
  have "map_option ?f (run (sample_actions @ [A_reprocess]) (sys_start LDLM_IBITS)) = Some ({1, 2}, False, LCK_PR, LCK_CR)"
    by code_simp
  from run_obs [OF this] obtain s where s: "reachable LDLM_IBITS s" "set (lr_granted (sys_res s)) = {1, 2}"
    "l_inodebits (res_locks (sys_res s) 1) AND l_inodebits (res_locks (sys_res s) 2) \<noteq> 0"
    "l_granted_mode (res_locks (sys_res s) 1) = LCK_PR" "l_granted_mode (res_locks (sys_res s) 2) = LCK_CR" by auto
  then show ?thesis using ldlm_granted_compatible [OF s(1), of 1 2] by auto
qed

text \<open>
  (C23) Whoever holds up a waiting lock has been asked to give way: in every reachable state, a granted lock
  or a lock earlier in the waiting queue that conflicts with a waiting lock has its blocking callback queued
  or sent, if it has one and was not downgraded to \<open>LCK_COS\<close>.
\<close>

theorem ldlm_blockers_told:
  assumes "reachable type s" "type \<in> {LDLM_PLAIN, LDLM_IBITS}" "w \<in> set (lr_waiting (sys_res s))"
    "x \<in> set (lr_granted (sys_res s)) \<or> before (lr_waiting (sys_res s)) x w" "conflicts (sys_res s) x w"
    "l_blocking_ast (res_locks (sys_res s) x)" "l_req_mode (res_locks (sys_res s) x) \<noteq> LCK_COS"
  shows "has_flag (l_flags (res_locks (sys_res s) x)) LDLM_FL_AST_SENT"
proof -
  have "sys_inv s" using reachable_inv assms(1,2) by blast
  then have "told (sys_res s)" using res_inv_parts(8) sys_inv_parts(1) by blast
  then show ?thesis using assms(3-7) by (auto simp: told_def)
qed

theorem ldlm_blockers_told_witness:
  "\<exists>s. reachable LDLM_IBITS s \<and> lr_waiting (sys_res s) = [1] \<and> conflicts (sys_res s) 0 1
    \<and> has_flag (l_flags (res_locks (sys_res s) 0)) LDLM_FL_AST_SENT"
proof -
  let ?f = "\<lambda>s. (lr_waiting (sys_res s), lr_granted (sys_res s), conflicts (sys_res s) 0 1,
    l_blocking_ast (res_locks (sys_res s) 0), l_req_mode (res_locks (sys_res s) 0))"
  have "map_option ?f (run (take 2 sample_actions) (sys_start LDLM_IBITS)) = Some ([1], [0], True, True, LCK_EX)"
    by code_simp
  from run_obs [OF this] obtain s where s: "reachable LDLM_IBITS s" "lr_waiting (sys_res s) = [1]" "lr_granted (sys_res s) = [0]"
    "conflicts (sys_res s) 0 1" "l_blocking_ast (res_locks (sys_res s) 0)" "l_req_mode (res_locks (sys_res s) 0) = LCK_EX" by auto
  then show ?thesis using ldlm_blockers_told [OF s(1), of 1 0] by auto
qed

text \<open>
  (C22) Reprocessing makes progress and is fair: in every reachable state \<open>ldlm_reprocess_all\<close> returns, the
  locks that it grants are the first ones of the waiting queue, and if any lock is left waiting, the first
  one conflicts with a granted lock. So a lock that waits behind nobody and whom no granted lock excludes
  is granted.
\<close>

theorem ldlm_reprocess_progress:
  assumes "reachable type s" "type \<in> {LDLM_PLAIN, LDLM_IBITS}"
  shows "\<exists>rpc_list res' gone. ldlm_reprocess_all policy_reproc (sys_res s) = Some (rpc_list, res')
    \<and> lr_waiting (sys_res s) = gone @ lr_waiting res' \<and> set (lr_granted res') = set (lr_granted (sys_res s)) \<union> set gone
    \<and> (lr_waiting res' = [] \<or> (\<exists>x \<in> set (lr_granted res'). conflicts res' x (hd (lr_waiting res'))))"
proof -
  have "res_inv (sys_used s) (sys_res s)" using reachable_inv sys_inv_parts(1) assms by blast
  from policy.reprocess_all_inv [OF this] show ?thesis by blast
qed

theorem ldlm_reprocess_progress_witness:
  "\<exists>s rpc_list res' gone. reachable LDLM_IBITS s \<and> lr_waiting (sys_res s) = [1, 2]
    \<and> ldlm_reprocess_all policy_reproc (sys_res s) = Some (rpc_list, res') \<and> lr_waiting (sys_res s) = gone @ lr_waiting res'"
proof -
  have "map_option (\<lambda>s. lr_waiting (sys_res s)) (run sample_actions (sys_start LDLM_IBITS)) = Some [1, 2]" by code_simp
  from run_obs [OF this] obtain s where s: "reachable LDLM_IBITS s" "lr_waiting (sys_res s) = [1, 2]" by auto
  then show ?thesis using ldlm_reprocess_progress [OF s(1)] by blast
qed

text \<open>
  (C26) Well-formed resources: in every reachable state no lock is on two queues or twice on one; the converting
  queue is empty; a granted lock has the mode it asked for; no lock on a queue is destroyed; the granted queue is divided
  into groups of one mode and, for inode bits, groups of one set of bits, which the two circular lists connect
  (\<open>skip_ok\<close>); a lock that is not granted is alone on both lists.
\<close>

theorem ldlm_resource_wellformed:
  assumes "reachable type s" "type \<in> {LDLM_PLAIN, LDLM_IBITS}"
  shows "lr_type (sys_res s) = type \<and> distinct (lr_granted (sys_res s) @ lr_waiting (sys_res s)) \<and> lr_converting (sys_res s) = []
    \<and> (\<forall>i \<in> set (lr_granted (sys_res s)). l_granted_mode (res_locks (sys_res s) i) = l_req_mode (res_locks (sys_res s) i))
    \<and> (\<forall>i \<in> set (lr_granted (sys_res s) @ lr_waiting (sys_res s)). \<not> l_destroyed (res_locks (sys_res s) i))
    \<and> skip_ok (sys_res s)
    \<and> (\<forall>i. i \<notin> set (lr_granted (sys_res s)) \<longrightarrow> lnext (sl_mode (sys_res s)) i = i \<and> lnext (sl_policy (sys_res s)) i = i)"
proof -
  have inv: "sys_inv s" "lr_type (sys_res s) = type" using reachable_inv assms by auto
  note v = res_inv_parts [OF sys_inv_parts(1) [OF inv(1)]]
  show ?thesis using inv(2) v(3,13,14,15) self_links [OF v(15)] by (auto simp: members_ok_def ring_self)
qed

theorem ldlm_resource_wellformed_witness:
  "\<exists>s. reachable LDLM_IBITS s \<and> lr_waiting (sys_res s) = [1, 2] \<and> skip_ok (sys_res s) \<and> \<not> l_destroyed (res_locks (sys_res s) 1)"
proof -
  have "map_option (\<lambda>s. lr_waiting (sys_res s)) (run sample_actions (sys_start LDLM_IBITS)) = Some [1, 2]" by code_simp
  from run_obs [OF this] obtain s where s: "reachable LDLM_IBITS s" "lr_waiting (sys_res s) = [1, 2]" by auto
  then show ?thesis using ldlm_resource_wellformed [OF s(1)] by auto
qed

section \<open>The skip lists\<close>

text \<open>
  The scan as it would be without skip lists: one lock after the other up to the request, each compared
  with the request on its own.
\<close>

fun scan_locks :: "(nat \<Rightarrow> bool) \<Rightarrow> nat \<Rightarrow> nat list \<Rightarrow> int \<Rightarrow> nat list option \<Rightarrow> ldlm_resource \<Rightarrow>
    (int \<times> nat list option \<times> ldlm_resource) option" where
  "scan_locks conflict req [] c wl res = Some (c, wl, res)"
| "scan_locks conflict req (x # xs) c wl res =
    (if x = req then Some (c, wl, res)
     else if \<not> conflict x then scan_locks conflict req xs c wl res
     else case wl of
       None \<Rightarrow> Some (0, None, res)
     | Some w \<Rightarrow> do {
         (w, res) \<leftarrow> add_item req x (w, res);
         scan_locks conflict req xs 0 (Some w) res
       })"

lemma scan_locks_out:
  "\<lbrakk>ast_ok res; distinct xs\<rbrakk> \<Longrightarrow>
   scan_locks f req xs c wl res = Some (scan_out req c wl res (filter f (takeWhile (\<lambda>x. x \<noteq> req) xs)))"
proof (induction xs arbitrary: c wl res)
  case (Cons x xs)
  let ?ys = "filter f (takeWhile (\<lambda>x. x \<noteq> req) xs)"
  show ?case
  proof (cases "x \<noteq> req \<and> f x \<and> wl \<noteq> None")
    case True
    then obtain w where w: "wl = Some w" by blast
    let ?w = "rev (filter (needs_ast res) [x]) @ w"
    have d: "distinct ([x] @ ?ys)" using Cons.prems(2) by (auto dest: set_takeWhileD)
    have "scan_locks f req (x # xs) c wl res = scan_locks f req xs 0 (Some ?w) (marked req [x] res)"
      using True w by (simp add: add_item_ok [OF Cons.prems(1)])
    also have "\<dots> = Some (scan_out req 0 (Some ?w) (marked req [x] res) ?ys)"
      using Cons.IH [OF ast_ok_marked [OF Cons.prems(1)]] Cons.prems(2) by simp
    also have "\<dots> = Some (scan_out req c wl res ([x] @ ?ys))" using scan_out_append [OF d, of req res w c] w by simp
    finally show ?thesis using True by simp
  next
    case False
    then show ?thesis using Cons by (cases wl; cases "f x") (auto simp: scan_out_def)
  qed
qed (simp add: scan_out_def)

text \<open>
  (C24) The skip lists are an optimisation only: for a request that is not granted yet, scanning a queue group by
  group along the two circular lists (\<open>ldlm_plain_compat_queue\<close>, \<open>ldlm_inodebits_compat_queue\<close>) has the same result,
  queues the same callbacks in the same order and leaves the same state as comparing the request with each lock.
\<close>

theorem ldlm_compat_queue_equiv:
  assumes "reachable type s" "type \<in> {LDLM_PLAIN, LDLM_IBITS}" "req \<in> set (sys_used s)" "req \<notin> set (lr_granted (sys_res s))" "q \<noteq> Converting"
  shows "(if type = LDLM_PLAIN then ldlm_plain_compat_queue else ldlm_inodebits_compat_queue) q req wl (sys_res s)
    = scan_locks (\<lambda>x. conflicts (sys_res s) x req) req (queue q (sys_res s)) 1 wl (sys_res s)"
proof -
  have inv: "sys_inv s" "lr_type (sys_res s) = type" using reachable_inv assms(1,2) by auto
  note p = sys_inv_parts [OF inv(1)]
  note v = res_inv_parts [OF p(1)]
  have "distinct (queue q (sys_res s))" using v(14) assms(5) by (cases q) auto
  then show ?thesis
    using compat_queue_scan [OF v(1,5) _ assms(5,4) v(16), of wl] p(2) assms(3) inv(2) scan_locks_out [OF v(5)]
    by (simp add: compat_queue_def)
qed

theorem ldlm_compat_queue_equiv_witness:
  "\<exists>s. reachable LDLM_IBITS s \<and> lr_granted (sys_res s) = [0] \<and> ldlm_inodebits_compat_queue Granted 1 None (sys_res s)
    = scan_locks (\<lambda>x. conflicts (sys_res s) x 1) 1 [0] 1 None (sys_res s)"
proof -
  have "map_option (\<lambda>s. (lr_granted (sys_res s), sys_used s)) (run (take 2 sample_actions) (sys_start LDLM_IBITS)) = Some ([0], [1, 0])"
    by code_simp
  from run_obs [OF this] obtain s where s: "reachable LDLM_IBITS s" "lr_granted (sys_res s) = [0]" "sys_used s = [1, 0]" by auto
  then show ?thesis using ldlm_compat_queue_equiv [OF s(1), of 1 Granted None] by auto
qed

text \<open>
  (C25) The search for the place of a lock on the granted queue comes to an end, and where it points to, inserting
  the lock on the queue and on the two circular lists keeps them a division of the queue into groups of one mode and
  one set of bits.
\<close>

theorem search_granted_lock_returns:
  assumes "reachable type s" "type \<in> {LDLM_PLAIN, LDLM_IBITS}" "req \<notin> set (lr_granted (sys_res s))"
  shows "\<exists>p ys zs. search_granted_lock (sys_res s) req = Some p \<and> lr_granted (sys_res s) = ys @ zs
    \<and> list_insert_after req (res_link p) (lr_granted (sys_res s)) = Some (ys @ req # zs)
    \<and> skip_ok ((sys_res s)\<lparr>lr_granted := ys @ req # zs, sl_mode := cfs_list_add req (mode_link p) (sl_mode (sys_res s)),
        sl_policy := cfs_list_add req (policy_link p) (sl_policy (sys_res s))\<rparr>)"
proof -
  have inv: "sys_inv s" using reachable_inv assms(1,2) by auto
  note v = res_inv_parts [OF sys_inv_parts(1) [OF inv]]
  show ?thesis using search_granted_lock_ok [OF v(15) assms(3) v(12)] by (auto simp: good_point_def)
qed

theorem search_granted_lock_returns_witness:
  "\<exists>s p. reachable LDLM_IBITS s \<and> lr_granted (sys_res s) = [0] \<and> search_granted_lock (sys_res s) 1 = Some p"
proof -
  have "map_option (\<lambda>s. lr_granted (sys_res s)) (run (take 2 sample_actions) (sys_start LDLM_IBITS)) = Some [0]" by code_simp
  from run_obs [OF this] obtain s where s: "reachable LDLM_IBITS s" "lr_granted (sys_res s) = [0]" by auto
  then show ?thesis using search_granted_lock_returns [OF s(1), of 1] by auto
qed

section \<open>Defects\<close>





text \<open>
  (C31) Downgrading a lock to \<open>LCK_COS\<close> can exclude a waiting lock that it did not exclude before, and nobody asks the holder to
  give way: in a reachable state the only lock in the way of a waiting lock has no blocking callback queued or sent.
\<close>

theorem ldlm_downgrade_untold:
  "\<exists>s. reachable LDLM_IBITS s \<and> lr_granted (sys_res s) = [0] \<and> lr_waiting (sys_res s) = [2] \<and> conflicts (sys_res s) 0 2
    \<and> l_blocking_ast (res_locks (sys_res s) 0) \<and> \<not> has_flag (l_flags (res_locks (sys_res s) 0)) LDLM_FL_AST_SENT"
proof -
  let ?f = "\<lambda>s. (lr_granted (sys_res s), lr_waiting (sys_res s), conflicts (sys_res s) 0 2, l_blocking_ast (res_locks (sys_res s) 0),
    has_flag (l_flags (res_locks (sys_res s) 0)) LDLM_FL_AST_SENT)"
  have "map_option ?f (run [A_enqueue 0 LCK_PW 1 0 True True 0, A_enqueue 1 LCK_EX 2 1 True True 0, A_enqueue 2 LCK_CR 3 2 True True 0,
      A_downgrade 0, A_bl_ast 2, A_cancel_begin 1, A_cancel_finish 1, A_reprocess, A_done 2] (sys_start LDLM_IBITS))
    = Some ([0], [2], True, True, False)"
    by code_simp
  from run_obs [OF this] show ?thesis by auto
qed

end
