(* ===== verification/Spec2Isabelle.thy ===== *)
theory Spec2Isabelle
  imports LovOffset SeqCluster SeqCrash FldCache IntervalSearch LdlmGuarantees
begin

text \<open>Header.\<close>

end
